(* ===== verification/Prelude.thy ===== *)
theory Prelude
  imports Main "HOL-Library.Word" "HOL-Library.AList"
begin

text \<open>
  Shared vocabulary of the development: machine integers at the widths the program uses,
  the outcome of a fallible Rust function, the bits and little-endian bytes of a word, and
  the generic lemmas the component theories share.
\<close>

unbundle bit_operations_syntax

section \<open>Machine integers\<close>

type_synonym u8 = "8 word"
type_synonym u16 = "16 word"
type_synonym u32 = "32 word"

section \<open>Outcomes\<close>

text \<open>
  \<open>std::io::Result\<close> with the error kinds the program inspects or produces, and a third
  outcome for a panic (\<open>assert!\<close>, \<open>unwrap\<close>, an index out of range, an arithmetic
  overflow in a build with overflow checks). A panic unwinds past every \<open>?\<close> and every
  \<open>match\<close> on \<open>Err\<close>, so it is a value of its own.
\<close>

datatype io_error =
    WouldBlock
  | ConnectionReset
  | ConnectionAborted
  | ConnectionRefused
  | UnexpectedEof
  | InvalidData
  | WriteZero
  | OtherError nat

datatype 'a res = Ok 'a | Err io_error | Panic

text \<open>The \<open>?\<close> operator: go on with the value, or return the error (or unwind).\<close>

fun and_then :: "'a res \<Rightarrow> ('a \<Rightarrow> 'b res) \<Rightarrow> 'b res" where
  "and_then (Ok a) f = f a"
| "and_then (Err e) f = Err e"
| "and_then Panic f = Panic"

lemma and_then_assoc [simp]:
  "and_then (and_then m f) g = and_then m (\<lambda>a. and_then (f a) g)"
  by (cases m) simp_all

lemma and_then_Ok [simp]: "and_then m Ok = m"
  by (cases m) simp_all

lemma and_then_eq_Ok: "and_then m f = Ok b \<longleftrightarrow> (\<exists>a. m = Ok a \<and> f a = Ok b)"
  by (cases m) simp_all

lemma and_then_cong [fundef_cong]:
  "m = m' \<Longrightarrow> (\<And>a. m' = Ok a \<Longrightarrow> f a = g a) \<Longrightarrow> and_then m f = and_then m' g"
  by (cases m') simp_all

section \<open>Index ranges of the short loops\<close>

lemma upt_small [simp]:
  "[0..<2] = [0, 1]" "[0..<3] = [0, 1, 2]" "[0..<4] = [0, 1, 2, 3]"
  "[Suc 0..<4] = [1, 2, 3]" "[2..<4] = [2, 3::nat]"
  by code_simp+

section \<open>Bits and little-endian bytes\<close>

text \<open>The low \<open>n\<close> bits of a word, most significant first, and the word they denote.\<close>

definition low_bits :: "nat \<Rightarrow> 'a::len word \<Rightarrow> bool list" where
  "low_bits n x = map (bit x) (rev [0..<n])"

definition word_of_msb :: "bool list \<Rightarrow> 'a::len word" where
  "word_of_msb bs = horner_sum of_bool 2 (rev bs)"

lemma length_low_bits [simp]: "length (low_bits n x) = n"
  by (simp add: low_bits_def)

lemma word_of_msb_low_bits [simp]: "word_of_msb (low_bits n x) = take_bit n x"
  by (simp add: word_of_msb_def low_bits_def rev_map horner_sum_bit_eq_take_bit)

lemma take_bit_8_u8 [simp]: "take_bit 8 (x :: u8) = x"
  using take_bit_word_eq_self [of 8 x] by simp

lemma take_bit_small: "unat (x :: 'a::len word) < 2 ^ n \<Longrightarrow> take_bit n x = x"
  by (simp only: word_unat_eq_iff unsigned_take_bit_eq take_bit_eq_mod [where 'a = nat]) simp

lemma low_bits_word_of_msb:
  assumes "length bs = n" and "n \<le> LENGTH('a::len)"
  shows "low_bits n (word_of_msb bs :: 'a word) = bs"
proof (rule nth_equalityI)
  show "length (low_bits n (word_of_msb bs :: 'a word)) = length bs" using assms by simp
  fix i assume "i < length (low_bits n (word_of_msb bs :: 'a word))"
  then show "low_bits n (word_of_msb bs :: 'a word) ! i = bs ! i"
    using assms by (auto simp: low_bits_def word_of_msb_def rev_nth bit_horner_sum_bit_word_iff)
qed

abbreviation byte_bits :: "u8 \<Rightarrow> bool list" where
  "byte_bits \<equiv> low_bits 8"

definition bytes_bits :: "u8 list \<Rightarrow> bool list" where
  "bytes_bits bs = concat (map byte_bits bs)"

lemma bytes_bits_Nil [simp]: "bytes_bits [] = []"
  and bytes_bits_Cons [simp]: "bytes_bits (b # bs) = byte_bits b @ bytes_bits bs"
  and bytes_bits_append [simp]: "bytes_bits (as @ bs) = bytes_bits as @ bytes_bits bs"
  by (simp_all add: bytes_bits_def)

lemma length_bytes_bits [simp]: "length (bytes_bits bs) = 8 * length bs"
  by (induction bs) simp_all

text \<open>\<open>n\<close> bytes off a bit list, and all the bytes of a bit list (zero padded).\<close>

fun take_bytes :: "nat \<Rightarrow> bool list \<Rightarrow> u8 list" where
  "take_bytes 0 bs = []"
| "take_bytes (Suc n) bs = word_of_msb (take 8 bs) # take_bytes n (drop 8 bs)"

lemma take_bytes_bytes_bits [simp]: "length bs = n \<Longrightarrow> take_bytes n (bytes_bits bs @ rest) = bs"
  by (induction bs arbitrary: n) auto

lemma take_bytes_bytes_bits_self [simp]: "length bs = n \<Longrightarrow> take_bytes n (bytes_bits bs) = bs"
  using take_bytes_bytes_bits [of bs n "[]"] by simp

lemma length_take_bytes [simp]: "length (take_bytes n bs) = n"
  by (induction n arbitrary: bs) simp_all

lemma bytes_bits_take_bytes: "length bs = 8 * n \<Longrightarrow> bytes_bits (take_bytes n bs) = bs"
  by (induction n arbitrary: bs) (simp_all add: low_bits_word_of_msb)

definition pad_len :: "nat \<Rightarrow> nat" where
  "pad_len n = (8 - n mod 8) mod 8"

definition pad_bits :: "bool list \<Rightarrow> bool list" where
  "pad_bits bs = bs @ replicate (pad_len (length bs)) False"

lemma pad_len_less [simp]: "pad_len n < 8"
  by (simp add: pad_len_def)

lemma add_pad_len_mod [simp]: "(n + pad_len n) mod 8 = 0"
proof -
  have "(n + pad_len n) mod 8 = (n mod 8 + (8 - n mod 8)) mod 8"
    by (simp only: pad_len_def mod_simps)
  also have "\<dots> = 0" by simp
  finally show ?thesis .
qed

lemma pad_len_mod [simp]: "n mod 8 = 0 \<Longrightarrow> pad_len n = 0"
  by (simp add: pad_len_def)

lemma length_pad_bits_mod [simp]: "length (pad_bits bs) mod 8 = 0"
  by (simp add: pad_bits_def)

lemma pad_bits_aligned [simp]: "length bs mod 8 = 0 \<Longrightarrow> pad_bits bs = bs"
  by (simp add: pad_bits_def)

definition bytes_of_bits :: "bool list \<Rightarrow> u8 list" where
  "bytes_of_bits bs = take_bytes (length (pad_bits bs) div 8) (pad_bits bs)"

lemma bytes_bits_bytes_of_bits [simp]: "bytes_bits (bytes_of_bits bs) = pad_bits bs"
proof -
  have "length (pad_bits bs) = 8 * (length (pad_bits bs) div 8)"
    using length_pad_bits_mod [of bs] by presburger
  then show ?thesis unfolding bytes_of_bits_def by (rule bytes_bits_take_bytes)
qed

lemma length_bytes_of_bits: "8 * length (bytes_of_bits bs) = length bs + pad_len (length bs)"
proof -
  have "length (bytes_bits (bytes_of_bits bs)) = length (pad_bits bs)" by simp
  then show ?thesis unfolding length_bytes_bits by (simp add: pad_bits_def)
qed

text \<open>Little-endian layout of the two wider integers (\<open>to_le_bytes\<close>, \<open>from_le_bytes\<close>).\<close>

definition u16_le :: "u16 \<Rightarrow> u8 list" where
  "u16_le x = [ucast x, ucast (drop_bit 8 x)]"

definition u32_le :: "u32 \<Rightarrow> u8 list" where
  "u32_le x = [ucast x, ucast (drop_bit 8 x), ucast (drop_bit 16 x), ucast (drop_bit 24 x)]"

fun le_u16 :: "u8 list \<Rightarrow> u16" where
  "le_u16 [a, b] = ucast a OR push_bit 8 (ucast b)"
| "le_u16 _ = 0"

fun le_u32 :: "u8 list \<Rightarrow> u32" where
  "le_u32 [a, b, c, d] =
     ucast a OR push_bit 8 (ucast b) OR push_bit 16 (ucast c) OR push_bit 24 (ucast d)"
| "le_u32 _ = 0"

lemma length_u16_le [simp]: "length (u16_le x) = 2"
  and length_u32_le [simp]: "length (u32_le x') = 4"
  by (simp_all add: u16_le_def u32_le_def)

lemma le_u16_u16_le [simp]: "le_u16 (u16_le x) = x"
  unfolding u16_le_def le_u16.simps
  by (rule bit_word_eqI) (auto simp: bit_simps)

lemma le_u32_u32_le [simp]: "le_u32 (u32_le x) = x"
  unfolding u32_le_def le_u32.simps
proof (rule bit_word_eqI)
  fix n assume "n < LENGTH(32)"
  then consider "n < 8" | "8 \<le> n" "n < 16" | "16 \<le> n" "n < 24" | "24 \<le> n" "n < 32" by force
  then show "bit (ucast (ucast x :: u8) OR push_bit 8 (ucast (ucast (drop_bit 8 x) :: u8)) OR
      push_bit 16 (ucast (ucast (drop_bit 16 x) :: u8)) OR
      push_bit 24 (ucast (ucast (drop_bit 24 x) :: u8)) :: u32) n = bit x n"
    by cases (auto simp: bit_simps)
qed

end
