(* ===== verification/BitIO.thy ===== *)
theory BitIO
  imports Prelude
begin

text \<open>
  The bit-level reader and writer the RakNet side serialises through come from the crates
  \<open>endio\<close> and \<open>endio_bit\<close>, which are not part of this repository. They are parameters of
  the model: a record of operations over an abstract reader or writer state. What the program
  relies on is stated as the locales \<open>reader_laws\<close> and \<open>writer_laws\<close> (bits in order, most
  significant first; integers little endian; \<open>align\<close> skips to, or pads to, the next byte
  boundary; the writer flushes a zero-padded last byte when dropped; writing into a
  \<open>Vec\<close> never fails; reading past the end is an end-of-file error).
  \<open>bits_reader\<close> and \<open>bits_writer\<close> are instances on plain bit lists.
\<close>

section \<open>The operations the program calls\<close>

record 'r bit_reader =
  br_new :: "u8 list \<Rightarrow> 'r"
  br_bit :: "'r \<Rightarrow> (bool \<times> 'r) res"
  br_bits :: "nat \<Rightarrow> 'r \<Rightarrow> (u8 \<times> 'r) res"
  br_u8 :: "'r \<Rightarrow> (u8 \<times> 'r) res"
  br_u16 :: "'r \<Rightarrow> (u16 \<times> 'r) res"
  br_u32 :: "'r \<Rightarrow> (u32 \<times> 'r) res"
  br_align :: "'r \<Rightarrow> 'r"
  br_exact :: "nat \<Rightarrow> 'r \<Rightarrow> (u8 list \<times> 'r) res"

record 'w bit_writer =
  bw_new :: 'w
  bw_bit :: "bool \<Rightarrow> 'w \<Rightarrow> 'w res"
  bw_bits :: "u8 \<Rightarrow> nat \<Rightarrow> 'w \<Rightarrow> 'w res"
  bw_u8 :: "u8 \<Rightarrow> 'w \<Rightarrow> 'w res"
  bw_u16 :: "u16 \<Rightarrow> 'w \<Rightarrow> 'w res"
  bw_u32 :: "u32 \<Rightarrow> 'w \<Rightarrow> 'w res"
  bw_align :: "'w \<Rightarrow> 'w res"
  bw_bytes :: "u8 list \<Rightarrow> 'w \<Rightarrow> 'w res"
  bw_finish :: "'w \<Rightarrow> u8 list"

section \<open>Instances on bit lists\<close>

definition take_read :: "nat \<Rightarrow> (bool list \<Rightarrow> 'a) \<Rightarrow> bool list \<Rightarrow> ('a \<times> bool list) res" where
  "take_read n conv bs =
     (if length bs < n then Err UnexpectedEof else Ok (conv (take n bs), drop n bs))"

definition bits_reader :: "bool list bit_reader" where
  "bits_reader =
     \<lparr>br_new = bytes_bits,
      br_bit = take_read 1 hd,
      br_bits = (\<lambda>n. take_read n word_of_msb),
      br_u8 = take_read 8 word_of_msb,
      br_u16 = take_read 16 (le_u16 \<circ> take_bytes 2),
      br_u32 = take_read 32 (le_u32 \<circ> take_bytes 4),
      br_align = (\<lambda>bs. drop (length bs mod 8) bs),
      br_exact = (\<lambda>n. take_read (8 * n) (take_bytes n))\<rparr>"

definition bits_writer :: "bool list bit_writer" where
  "bits_writer =
     \<lparr>bw_new = [],
      bw_bit = (\<lambda>b bs. Ok (bs @ [b])),
      bw_bits = (\<lambda>v n bs. Ok (bs @ low_bits n v)),
      bw_u8 = (\<lambda>v bs. Ok (bs @ byte_bits v)),
      bw_u16 = (\<lambda>v bs. Ok (bs @ bytes_bits (u16_le v))),
      bw_u32 = (\<lambda>v bs. Ok (bs @ bytes_bits (u32_le v))),
      bw_align = (\<lambda>bs. Ok (pad_bits bs)),
      bw_bytes = (\<lambda>v bs. Ok (bs @ bytes_bits v)),
      bw_finish = bytes_of_bits\<rparr>"

lemma take_read_append: "length xs = n \<Longrightarrow> take_read n conv (xs @ ys) = Ok (conv xs, ys)"
  by (auto simp: take_read_def)

lemma take_read_short: "length bs < n \<Longrightarrow> take_read n conv bs = Err UnexpectedEof"
  by (simp add: take_read_def)

lemma take_read_OkD:
  "take_read n conv bs = Ok (v, bs') \<Longrightarrow> length bs' + n = length bs \<and> bs' = drop n bs"
  by (auto simp: take_read_def split: if_splits)

lemma bits_reader_new [simp]: "br_new bits_reader bs = bytes_bits bs"
  and bits_reader_bit [simp]: "br_bit bits_reader (b # rest) = Ok (b, rest)"
  and bits_reader_bits [simp]:
    "length xs = n \<Longrightarrow> br_bits bits_reader n (xs @ rest) = Ok (word_of_msb xs, rest)"
  and bits_reader_u8 [simp]: "br_u8 bits_reader (byte_bits v8 @ rest) = Ok (v8, rest)"
  and bits_reader_u16 [simp]: "br_u16 bits_reader (bytes_bits (u16_le v16) @ rest) = Ok (v16, rest)"
  and bits_reader_u32 [simp]: "br_u32 bits_reader (bytes_bits (u32_le v32) @ rest) = Ok (v32, rest)"
  and bits_reader_align: "br_align bits_reader bs' = drop (length bs' mod 8) bs'"
  and bits_reader_exact [simp]:
    "length bs = k \<Longrightarrow> br_exact bits_reader k (bytes_bits bs @ rest) = Ok (bs, rest)"
  by (auto simp: bits_reader_def take_read_append take_read_append [of "[b]" 1 _ rest, simplified])

lemma bits_writer_simps [simp]:
  "bw_new bits_writer = []"
  "bw_bit bits_writer b bs = Ok (bs @ [b])"
  "bw_bits bits_writer v n bs = Ok (bs @ low_bits n v)"
  "bw_u8 bits_writer v8 bs = Ok (bs @ byte_bits v8)"
  "bw_u16 bits_writer v16 bs = Ok (bs @ bytes_bits (u16_le v16))"
  "bw_u32 bits_writer v32 bs = Ok (bs @ bytes_bits (u32_le v32))"
  "bw_align bits_writer bs = Ok (pad_bits bs)"
  "bw_bytes bits_writer vs bs = Ok (bs @ bytes_bits vs)"
  "bw_finish bits_writer bs = bytes_of_bits bs"
  by (simp_all add: bits_writer_def)

section \<open>The laws, and what follows from them for every conforming implementation\<close>

definition map_state :: "('s \<Rightarrow> 't) \<Rightarrow> ('a \<times> 's) res \<Rightarrow> ('a \<times> 't) res" where
  "map_state f = map_res (map_prod id f)"

lemma map_state_simps [simp]:
  "map_state f (Ok (a, s)) = Ok (a, f s)"
  "map_state f (Err e) = Err e"
  "map_state f Panic = Panic"
  by (simp_all add: map_state_def)

lemma map_state_eq_Ok: "map_state f m = Ok (a, t) \<longleftrightarrow> (\<exists>s. m = Ok (a, s) \<and> f s = t)"
  by (cases m) auto

lemma map_state_eq_Err: "map_state f m = Err e \<longleftrightarrow> m = Err e"
  by (cases m) auto

lemma map_state_eq_Panic: "map_state f m = Panic \<longleftrightarrow> m = Panic"
  by (cases m) auto

named_theorems sim "simulation of a conforming reader or writer by the bit lists"

lemma map_state_and_then:
  assumes "map_state h m = m'" and "\<And>a s. map_state h (f (a, s)) = g (a, h s)"
  shows "map_state h (and_then m f) = and_then m' g"
  using assms by (cases m) auto

lemma map_res_and_then:
  assumes "map_res h m = m'" and "\<And>s. map_res h (f s) = g (h s)"
  shows "map_res h (and_then m f) = and_then m' g"
  using assms by (cases m) auto

lemma map_res_step:
  assumes "map_res h m = Ok b" and "\<And>s. h s = b \<Longrightarrow> map_res h (f s) = c"
  shows "map_res h (and_then m f) = c"
  using assms by (cases m) auto

locale reader_laws =
  fixes R :: "'r bit_reader" and rbits :: "'r \<Rightarrow> bool list"
  assumes rd_new: "rbits (br_new R bs) = bytes_bits bs"
    and rd_bit: "map_state rbits (br_bit R r) = br_bit bits_reader (rbits r)"
    and rd_bits: "n \<le> 8 \<Longrightarrow> map_state rbits (br_bits R n r) = br_bits bits_reader n (rbits r)"
    and rd_u8: "map_state rbits (br_u8 R r) = br_u8 bits_reader (rbits r)"
    and rd_u16: "map_state rbits (br_u16 R r) = br_u16 bits_reader (rbits r)"
    and rd_u32: "map_state rbits (br_u32 R r) = br_u32 bits_reader (rbits r)"
    and rd_align: "rbits (br_align R r) = br_align bits_reader (rbits r)"
    and rd_exact: "length (rbits r) mod 8 = 0 \<Longrightarrow>
      map_state rbits (br_exact R k r) = br_exact bits_reader k (rbits r)"
begin

lemmas rd_ops [sim] = rd_bit rd_u8 rd_u16 rd_u32

end

locale writer_laws =
  fixes W :: "'w bit_writer" and wbits :: "'w \<Rightarrow> bool list"
  assumes wr_new: "wbits (bw_new W) = []"
    and wr_bit: "map_res wbits (bw_bit W b w) = Ok (wbits w @ [b])"
    and wr_bits: "n \<le> 8 \<Longrightarrow> map_res wbits (bw_bits W v n w) = Ok (wbits w @ low_bits n v)"
    and wr_u8: "map_res wbits (bw_u8 W v8 w) = Ok (wbits w @ byte_bits v8)"
    and wr_u16: "map_res wbits (bw_u16 W v16 w) = Ok (wbits w @ bytes_bits (u16_le v16))"
    and wr_u32: "map_res wbits (bw_u32 W v32 w) = Ok (wbits w @ bytes_bits (u32_le v32))"
    and wr_align: "map_res wbits (bw_align W w) = Ok (pad_bits (wbits w))"
    and wr_bytes: "length (wbits w) mod 8 = 0 \<Longrightarrow>
      map_res wbits (bw_bytes W vs w) = Ok (wbits w @ bytes_bits vs)"
    and wr_finish: "bw_finish W w = bytes_of_bits (wbits w)"

text \<open>A reader and a writer that agree on the bits.\<close>

locale codec_laws = reader_laws R rbits + writer_laws W wbits
  for R :: "'r bit_reader" and rbits :: "'r \<Rightarrow> bool list"
    and W :: "'w bit_writer" and wbits :: "'w \<Rightarrow> bool list"
begin

lemma new_finish: "rbits (br_new R (bw_finish W w)) = pad_bits (wbits w)"
  by (simp add: rd_new wr_finish)

end

section \<open>Encodings independent of the position in the stream\<close>

text \<open>\<open>wr\<close> appends exactly the bits \<open>bs\<close>; \<open>rd\<close> consumes exactly the bits \<open>bs\<close> and
  yields \<open>a\<close>, whatever follows.\<close>

definition encodes :: "('w \<Rightarrow> bool list) \<Rightarrow> ('w \<Rightarrow> 'w res) \<Rightarrow> bool list \<Rightarrow> bool" where
  "encodes wbits wr bs \<longleftrightarrow> (\<forall>w. \<exists>w'. wr w = Ok w' \<and> wbits w' = wbits w @ bs)"

definition decodes ::
  "('r \<Rightarrow> bool list) \<Rightarrow> ('r \<Rightarrow> ('a \<times> 'r) res) \<Rightarrow> bool list \<Rightarrow> 'a \<Rightarrow> bool" where
  "decodes rbits rd bs a \<longleftrightarrow>
     (\<forall>r rest. rbits r = bs @ rest \<longrightarrow> (\<exists>r'. rd r = Ok (a, r') \<and> rbits r' = rest))"

lemma map_res_eq_Ok: "map_res h m = Ok b \<longleftrightarrow> (\<exists>a. m = Ok a \<and> h a = b)"
  by (cases m) auto

lemma encodes_iff: "encodes wbits wr bs \<longleftrightarrow> (\<forall>w. map_res wbits (wr w) = Ok (wbits w @ bs))"
  by (simp add: encodes_def map_res_eq_Ok)

lemma decodesI:
  assumes "\<And>r. map_state rbits (rd r) = rd' (rbits r)" and "\<And>rest. rd' (bs @ rest) = Ok (a, rest)"
  shows "decodes rbits rd bs a"
  unfolding decodes_def
proof (intro allI impI)
  fix r rest assume "rbits r = bs @ rest"
  then have "map_state rbits (rd r) = Ok (a, rest)" using assms by simp
  then show "\<exists>r'. rd r = Ok (a, r') \<and> rbits r' = rest" by (auto simp: map_state_eq_Ok)
qed

lemmas codec_reader = codec_laws.axioms(1) and codec_writer = codec_laws.axioms(2)

lemma bits_codec: "codec_laws bits_reader id bits_writer id"
  by unfold_locales (auto simp: map_state_def res.map_id prod.map_id0)

interpretation bits: codec_laws bits_reader id bits_writer id
  by (rule bits_codec)

end
