(* ===== verification/Comp.thy ===== *)
theory Comp
  imports BitIO
begin

text \<open>
  \<open>src/raknet/comp.rs\<close>: the variable-length encoding of \<open>u16\<close> and \<open>u32\<close> values. Both
  \<open>Serialize\<close> impls have the same body over their own width, so the loops are one polymorphic
  definition and the impls are its instances at the two sizes. The lemmas give the bits
  written, what reading them yields, and the exact range on which the two agree.
\<close>

section \<open>Serialize\<close>

text \<open>\<open>for j in 0..(size-i) { writer.write((self.0 >> 8*j) as u8)?; }\<close>\<close>

fun write_low_bytes :: "'w bit_writer \<Rightarrow> 'a::len word \<Rightarrow> nat list \<Rightarrow> 'w \<Rightarrow> 'w res" where
  "write_low_bytes W x [] w = Ok w"
| "write_low_bytes W x (j # js) w =
     and_then (bw_u8 W (ucast (drop_bit (8 * j) x)) w) (write_low_bytes W x js)"

text \<open>The lowest byte: one nibble if its upper half is zero.\<close>

definition write_lowest :: "'w bit_writer \<Rightarrow> 'a::len word \<Rightarrow> 'w \<Rightarrow> 'w res" where
  "write_lowest W x w =
     (let zero = (x AND 0xf0 = 0)
      in and_then (bw_bit W zero w) (\<lambda>w.
           if zero then bw_bits W (ucast (x AND 0x0f)) 4 w else bw_u8 W (ucast x) w))"

text \<open>The loop \<open>for i in 0..size-1\<close>, over the indices still to visit.\<close>

fun compressed_write :: "'w bit_writer \<Rightarrow> nat \<Rightarrow> 'a::len word \<Rightarrow> nat list \<Rightarrow> 'w \<Rightarrow> 'w res" where
  "compressed_write W sz x [] w = write_lowest W x w"
| "compressed_write W sz x (i # idx) w =
     (let zero = (drop_bit (8 * (sz - 1 - i)) x AND 0xff = 0)
      in and_then (bw_bit W zero w) (\<lambda>w.
           if \<not> zero then write_low_bytes W x [0..<sz - i] w
           else compressed_write W sz x idx w))"

definition write_compressed_u16 :: "'w bit_writer \<Rightarrow> u16 \<Rightarrow> 'w \<Rightarrow> 'w res" where
  "write_compressed_u16 W x w = compressed_write W 2 x [0..<2 - 1] w"

definition write_compressed_u32 :: "'w bit_writer \<Rightarrow> u32 \<Rightarrow> 'w \<Rightarrow> 'w res" where
  "write_compressed_u32 W x w = compressed_write W 4 x [0..<4 - 1] w"

section \<open>Deserialize\<close>

text \<open>\<open>for j in i..size { res |= T::from(reader.read::<u8>()?) << T::from(8*j); }\<close>\<close>

fun read_high_bytes ::
  "'r bit_reader \<Rightarrow> nat list \<Rightarrow> 'a::len word \<Rightarrow> 'r \<Rightarrow> ('a word \<times> 'r) res" where
  "read_high_bytes R [] acc r = Ok (acc, r)"
| "read_high_bytes R (j # js) acc r =
     and_then (br_u8 R r) (\<lambda>(b, r). read_high_bytes R js (acc OR push_bit (8 * j) (ucast b)) r)"

fun compressed_read ::
  "'r bit_reader \<Rightarrow> nat \<Rightarrow> nat list \<Rightarrow> 'r \<Rightarrow> ('a::len word \<times> 'r) res" where
  "compressed_read R sz [] r =
     and_then (br_bit R r) (\<lambda>(nibble, r).
       and_then (if nibble then br_bits R 4 r else br_u8 R r) (\<lambda>(v, r). Ok (ucast v, r)))"
| "compressed_read R sz (i # idx) r =
     and_then (br_bit R r) (\<lambda>(zero, r).
       if zero then compressed_read R sz idx r else read_high_bytes R [i..<sz] 0 r)"

definition read_compressed_u16 :: "'r bit_reader \<Rightarrow> 'r \<Rightarrow> (u16 \<times> 'r) res" where
  "read_compressed_u16 R r = compressed_read R 2 [0..<2 - 1] r"

definition read_compressed_u32 :: "'r bit_reader \<Rightarrow> 'r \<Rightarrow> (u32 \<times> 'r) res" where
  "read_compressed_u32 R r = compressed_read R 4 [0..<4 - 1] r"

section \<open>The bits on the wire\<close>

definition lowest_wire :: "'a::len word \<Rightarrow> bool list" where
  "lowest_wire x = (if x AND 0xf0 = 0 then True # low_bits 4 (ucast x :: u8)
                    else False # byte_bits (ucast x))"

definition compressed_u16_wire :: "u16 \<Rightarrow> bool list" where
  "compressed_u16_wire x =
     (if x < 2 ^ 8 then True # lowest_wire x else False # bytes_bits (u16_le x))"

definition compressed_u32_wire :: "u32 \<Rightarrow> bool list" where
  "compressed_u32_wire x =
     (if x < 2 ^ 8 then [True, True, True] @ lowest_wire x
      else if x < 2 ^ 16 then [True, True, False] @ bytes_bits (take 2 (u32_le x))
      else if x < 2 ^ 24 then [True, False] @ bytes_bits (take 3 (u32_le x))
      else False # bytes_bits (u32_le x))"

text \<open>What the \<open>u32\<close> reader makes of a written value: bytes land too high when some of the
  top bytes, but not all three, were elided.\<close>

definition compressed_u32_seen :: "u32 \<Rightarrow> u32" where
  "compressed_u32_seen x =
     (if x < 2 ^ 8 then x else if x < 2 ^ 16 then push_bit 16 x
      else if x < 2 ^ 24 then push_bit 8 x else x)"

section \<open>Comparisons of a byte with zero\<close>

lemma and_0xff: "(x :: 'a::len word) AND 0xff = take_bit 8 x"
  by (simp add: take_bit_eq_mask mask_eq_exp_minus_1)

lemma and_0x0f: "(x :: 'a::len word) AND 0x0f = take_bit 4 x"
  by (simp add: take_bit_eq_mask mask_eq_exp_minus_1)

lemma top_byte_zero:
  assumes "unat x < 2 ^ (n + 8)"
  shows "drop_bit n (x :: 'a::len word) AND 0xff = 0 \<longleftrightarrow> unat x < 2 ^ n"
proof -
  have small: "unat x div 2 ^ n < 2 ^ 8"
    using assms by (simp add: power_add less_mult_imp_div_less mult.commute)
  have "unat (drop_bit n x AND 0xff) = unat x div 2 ^ n mod 2 ^ 8"
    by (simp only: and_0xff unsigned_take_bit_eq unat_drop_bit_eq take_bit_eq_mod [where 'a = nat]
        drop_bit_eq_div [where 'a = nat])
  also have "\<dots> = unat x div 2 ^ n" using small by simp
  finally show ?thesis by (simp add: unat_eq_0 [symmetric] div_eq_0_iff del: unat_eq_0)
qed

lemma byte_zero_u16: "drop_bit 8 (x :: u16) AND 0xff = 0 \<longleftrightarrow> x < 2 ^ 8"
  using top_byte_zero [of x 8] unsigned_less [of x, where 'a = nat] by (simp add: word_less_nat_alt)

lemma byte_zero_u32:
  "drop_bit 24 (x :: u32) AND 0xff = 0 \<longleftrightarrow> x < 2 ^ 24"
  "x < 2 ^ 24 \<Longrightarrow> drop_bit 16 (x :: u32) AND 0xff = 0 \<longleftrightarrow> x < 2 ^ 16"
  "x < 2 ^ 16 \<Longrightarrow> drop_bit 8 (x :: u32) AND 0xff = 0 \<longleftrightarrow> x < 2 ^ 8"
  using top_byte_zero [of x 24] top_byte_zero [of x 16] top_byte_zero [of x 8] unsigned_less [of x, where 'a = nat]
  by (simp_all add: word_less_nat_alt)

section \<open>Writing produces the wire format\<close>

lemma bytes_bits_low_bytes:
  "bytes_bits (map (\<lambda>j. ucast (drop_bit (8 * j) x)) js) =
   concat (map (\<lambda>j. byte_bits (ucast (drop_bit (8 * j) x))) js)"
  by (simp add: bytes_bits_def comp_def)

lemma ucast_take_bit_4 [simp]: "low_bits 4 (ucast (x AND 0x0f) :: u8) = low_bits 4 (ucast x :: u8)"
  by (simp add: low_bits_def and_0x0f upt_rec_numeral bit_simps)

context writer_laws
begin

lemma write_low_bytes_wire:
  "map_res wbits (write_low_bytes W x js w) =
   Ok (wbits w @ bytes_bits (map (\<lambda>j. ucast (drop_bit (8 * j) x)) js))"
proof (induction js arbitrary: w)
  case (Cons j js)
  show ?case unfolding write_low_bytes.simps
    by (rule map_res_step [OF wr_u8]) (simp add: Cons.IH)
qed simp

lemma write_lowest_wire: "map_res wbits (write_lowest W x w) = Ok (wbits w @ lowest_wire x)"
  unfolding write_lowest_def Let_def
  by (rule map_res_step [OF wr_bit]) (simp add: lowest_wire_def wr_bits wr_u8)

lemma compressed_write_stop:
  "drop_bit (8 * (sz - 1 - i)) x AND 0xff \<noteq> 0 \<Longrightarrow>
   map_res wbits (compressed_write W sz x (i # idx) w) =
   Ok (wbits w @ False # bytes_bits (map (\<lambda>j. ucast (drop_bit (8 * j) x)) [0..<sz - i]))"
  unfolding compressed_write.simps Let_def
  by (rule map_res_step [OF wr_bit]) (simp add: write_low_bytes_wire)

lemma compressed_write_skip:
  assumes "drop_bit (8 * (sz - 1 - i)) x AND 0xff = 0"
    and "\<And>w'. wbits w' = wbits w @ [True] \<Longrightarrow> map_res wbits (compressed_write W sz x idx w') = c"
  shows "map_res wbits (compressed_write W sz x (i # idx) w) = c"
  unfolding compressed_write.simps Let_def
  by (rule map_res_step [OF wr_bit]) (use assms in auto)

lemma write_compressed_u16_wire:
  "map_res wbits (write_compressed_u16 W x w) = Ok (wbits w @ compressed_u16_wire x)"
proof (cases "x < 2 ^ 8")
  case True
  then have "map_res wbits (compressed_write W 2 x [0] w) = Ok (wbits w @ compressed_u16_wire x)"
    by (intro compressed_write_skip)
      (simp_all add: byte_zero_u16 write_lowest_wire compressed_u16_wire_def)
  then show ?thesis by (simp add: write_compressed_u16_def)
next
  case False
  then have "map_res wbits (compressed_write W 2 x [0] w) = Ok (wbits w @ compressed_u16_wire x)"
    by (subst compressed_write_stop)
      (simp_all add: byte_zero_u16 compressed_u16_wire_def u16_le_def)
  then show ?thesis by (simp add: write_compressed_u16_def)
qed

lemma write_compressed_u32_wire:
  "map_res wbits (write_compressed_u32 W x w) = Ok (wbits w @ compressed_u32_wire x)"
proof -
  consider "x < 2 ^ 8" | "\<not> x < 2 ^ 8" "x < 2 ^ 16" | "\<not> x < 2 ^ 16" "x < 2 ^ 24" | "\<not> x < 2 ^ 24"
    by blast
  then have "map_res wbits (compressed_write W 4 x [0, 1, 2] w) = Ok (wbits w @ compressed_u32_wire x)"
  proof cases
    case 1
    then have "x < 2 ^ 16" "x < 2 ^ 24" by (simp_all add: word_less_nat_alt)
    with 1 show ?thesis
      by (intro compressed_write_skip)
        (simp_all add: byte_zero_u32 write_lowest_wire compressed_u32_wire_def)
  next
    case 2
    then have "x < 2 ^ 24" by (simp add: word_less_nat_alt)
    with 2 show ?thesis
      by (intro compressed_write_skip [of 4 0] compressed_write_skip [of 4 1])
        (simp_all add: byte_zero_u32 compressed_write_stop compressed_u32_wire_def u32_le_def
          del: compressed_write.simps)
  next
    case 3
    then have "\<not> x < 2 ^ 8" by (auto simp: word_less_nat_alt)
    with 3 show ?thesis
      by (intro compressed_write_skip [of 4 0])
        (simp_all add: byte_zero_u32 compressed_write_stop compressed_u32_wire_def u32_le_def
          del: compressed_write.simps)
  next
    case 4
    then have "\<not> x < 2 ^ 8" "\<not> x < 2 ^ 16" by (auto simp: word_less_nat_alt)
    with 4 show ?thesis
      by (subst compressed_write_stop)
        (simp_all add: byte_zero_u32 compressed_u32_wire_def u32_le_def)
  qed
  then show ?thesis by (simp add: write_compressed_u32_def)
qed

end

section \<open>Reading the wire format\<close>

context reader_laws
begin

lemma sim_read_high_bytes [sim]:
  "map_state rbits (read_high_bytes R js acc r) = read_high_bytes bits_reader js acc (rbits r)"
  by (induction js arbitrary: acc r) (auto intro!: map_state_and_then sim)

lemma sim_compressed_read [sim]:
  "map_state rbits (compressed_read R sz idx r) = compressed_read bits_reader sz idx (rbits r)"
  by (induction idx arbitrary: r)
    (auto intro!: map_state_and_then sim rd_bits split: if_splits)

lemma sim_read_compressed_u16 [sim]:
  "map_state rbits (read_compressed_u16 R r) = read_compressed_u16 bits_reader (rbits r)"
  unfolding read_compressed_u16_def by (rule sim_compressed_read)

lemma sim_read_compressed_u32 [sim]:
  "map_state rbits (read_compressed_u32 R r) = read_compressed_u32 bits_reader (rbits r)"
  unfolding read_compressed_u32_def by (rule sim_compressed_read)

end

declare read_high_bytes.simps [simp del] compressed_read.simps [simp del]

lemma read_high_bytes_wire:
  "length bs = length js \<Longrightarrow>
   read_high_bytes bits_reader js acc (bytes_bits bs @ rest) =
   Ok (foldl (\<lambda>acc (j, b). acc OR push_bit (8 * j) (ucast b)) acc (zip js bs), rest)"
  by (induction js bs arbitrary: acc rule: list_induct2') (simp_all add: read_high_bytes.simps)

lemma ucast_byte_small: "unat (x :: 'a::len word) < 2 ^ 8 \<Longrightarrow> ucast (ucast x :: u8) = x"
  by (rule trans [OF _ take_bit_small [of x 8]]) (auto intro!: bit_word_eqI simp: bit_simps)

lemma ucast_nibble_small:
  assumes "unat (x :: 'a::len word) < 2 ^ 8" and "x AND 0xf0 = 0"
  shows "ucast (take_bit 4 (ucast x :: u8)) = x"
proof (rule bit_word_eqI)
  fix n assume n: "n < LENGTH('a)"
  have "push_bit 4 (mask 4) = (0xf0 :: 'a word)"
    by (simp add: mask_eq_exp_minus_1 push_bit_eq_mult)
  then have "x AND push_bit 4 (mask 4) = 0" using assms(2) by simp
  then have "\<not> bit (x AND push_bit 4 (mask 4)) n" by simp
  then have "\<not> (bit x n \<and> 4 \<le> n \<and> n < 8)"
    using n by (auto simp: bit_and_iff bit_push_bit_iff bit_mask_iff)
  moreover have "bit x n \<Longrightarrow> n < 8"
    using arg_cong [OF take_bit_small [OF assms(1)], of "\<lambda>y. bit y n"] by (simp add: bit_simps)
  ultimately show "bit (ucast (take_bit 4 (ucast x :: u8)) :: 'a word) n = bit x n"
    using n by (auto simp: bit_simps)
qed

lemma read_lowest_wire:
  assumes "unat (x :: 'a::len word) < 2 ^ 8"
  shows "compressed_read bits_reader sz [] (lowest_wire x @ rest) = Ok (x, rest)"
  using assms
  by (simp add: lowest_wire_def compressed_read.simps ucast_byte_small ucast_nibble_small)

lemma read_compressed_u16_wire:
  "read_compressed_u16 bits_reader (compressed_u16_wire x @ rest) = Ok (x, rest)"
proof -
  have "read_high_bytes bits_reader [0, Suc 0] 0 (bytes_bits (u16_le x) @ rest) = Ok (x, rest)"
    using le_u16_u16_le [of x] by (subst read_high_bytes_wire) (simp_all add: u16_le_def)
  then show ?thesis
    by (simp add: read_compressed_u16_def compressed_u16_wire_def read_lowest_wire word_less_nat_alt
        compressed_read.simps(2))
qed

text \<open>The bytes that follow the elided ones, placed where the reader puts them.\<close>

lemma read_high_bytes_u32:
  "read_high_bytes bits_reader [0, Suc 0, 2, 3] 0 (bytes_bits (u32_le x) @ rest) = Ok (x, rest)"
  using le_u32_u32_le [of x] by (subst read_high_bytes_wire) (simp_all add: u32_le_def or.assoc)

lemma le_u32_shift8: "le_u32 (0 # take 3 (u32_le x)) = push_bit 8 x"
proof -
  have "push_bit 8 (ucast (ucast x :: u8)) OR push_bit 16 (ucast (ucast (drop_bit 8 x) :: u8)) OR
      push_bit 24 (ucast (ucast (drop_bit 16 x) :: u8)) = (push_bit 8 x :: u32)"
  proof (rule bit_word_eqI)
    fix n assume "n < LENGTH(32)"
    then consider "n < 8" | "8 \<le> n" "n < 16" | "16 \<le> n" "n < 24" | "24 \<le> n" "n < 32" by force
    then show "bit (push_bit 8 (ucast (ucast x :: u8)) OR
        push_bit 16 (ucast (ucast (drop_bit 8 x) :: u8)) OR
        push_bit 24 (ucast (ucast (drop_bit 16 x) :: u8)) :: u32) n = bit (push_bit 8 x) n"
      by cases (auto simp: bit_simps)
  qed
  then show ?thesis by (simp add: u32_le_def)
qed

lemma le_u32_shift16: "le_u32 (0 # 0 # take 2 (u32_le x)) = push_bit 16 x"
proof -
  have "push_bit 16 (ucast (ucast x :: u8)) OR push_bit 24 (ucast (ucast (drop_bit 8 x) :: u8))
      = (push_bit 16 x :: u32)"
  proof (rule bit_word_eqI)
    fix n assume "n < LENGTH(32)"
    then consider "n < 16" | "16 \<le> n" "n < 24" | "24 \<le> n" "n < 32" by force
    then show "bit (push_bit 16 (ucast (ucast x :: u8)) OR
        push_bit 24 (ucast (ucast (drop_bit 8 x) :: u8)) :: u32) n = bit (push_bit 16 x) n"
      by cases (auto simp: bit_simps)
  qed
  then show ?thesis by (simp add: u32_le_def)
qed

lemma read_high_bytes_u32_tail:
  "read_high_bytes bits_reader [Suc 0, 2, 3] 0 (bytes_bits (take 3 (u32_le x)) @ rest) =
     Ok (push_bit 8 x, rest)"
  "read_high_bytes bits_reader [2, 3] 0 (bytes_bits (take 2 (u32_le x)) @ rest) =
     Ok (push_bit 16 x, rest)"
  using le_u32_shift8 [of x] le_u32_shift16 [of x]
  by (subst read_high_bytes_wire; simp add: u32_le_def or.assoc)+

lemma read_compressed_u32_wire:
  "read_compressed_u32 bits_reader (compressed_u32_wire x @ rest) = Ok (compressed_u32_seen x, rest)"
  by (simp add: read_compressed_u32_def compressed_u32_wire_def compressed_u32_seen_def
      compressed_read.simps(2) read_lowest_wire read_high_bytes_u32
      read_high_bytes_u32_tail word_less_nat_alt)

section \<open>Where the two directions agree\<close>

definition compressed_u32_safe :: "u32 \<Rightarrow> bool" where
  "compressed_u32_safe x \<longleftrightarrow> x < 2 ^ 8 \<or> 2 ^ 24 \<le> x"

lemma compressed_u32_seen_iff: "compressed_u32_seen x = x \<longleftrightarrow> compressed_u32_safe x"
proof -
  have "push_bit 16 x \<noteq> x" if "\<not> x < 2 ^ 8" "x < 2 ^ 16"
  proof -
    have "unat (push_bit 16 x) = unat x * 2 ^ 16"
      using that(2) by (simp add: push_bit_eq_mult unat_word_ariths word_less_nat_alt)
    then show ?thesis using that(1) by (auto simp: word_less_nat_alt)
  qed
  moreover have "push_bit 8 x \<noteq> x" if "\<not> x < 2 ^ 16" "x < 2 ^ 24"
  proof -
    have "unat (push_bit 8 x) = unat x * 2 ^ 8"
      using that(2) by (simp add: push_bit_eq_mult unat_word_ariths word_less_nat_alt)
    then show ?thesis using that(1) by (auto simp: word_less_nat_alt)
  qed
  ultimately show ?thesis
    by (auto simp: compressed_u32_seen_def compressed_u32_safe_def word_less_nat_alt word_le_nat_alt)
qed

lemma length_lowest_wire: "length (lowest_wire x) \<in> {5, 9}"
  by (simp add: lowest_wire_def)

lemma length_compressed_u16_wire: "length (compressed_u16_wire x) \<le> 17"
  using length_lowest_wire [of x] by (auto simp: compressed_u16_wire_def)

lemma length_compressed_u32_wire: "length (compressed_u32_wire x) \<le> 33"
  using length_lowest_wire [of x] by (auto simp: compressed_u32_wire_def)

section \<open>Both directions, for any conforming reader and writer\<close>

context writer_laws
begin

lemma encodes_compressed_u16: "encodes wbits (write_compressed_u16 W x) (compressed_u16_wire x)"
  by (simp add: encodes_iff write_compressed_u16_wire)

lemma encodes_compressed_u32: "encodes wbits (write_compressed_u32 W x) (compressed_u32_wire x)"
  by (simp add: encodes_iff write_compressed_u32_wire)

end

context reader_laws
begin

lemma decodes_compressed_u16: "decodes rbits (read_compressed_u16 R) (compressed_u16_wire x) x"
  by (rule decodesI [where rd' = "read_compressed_u16 bits_reader"])
    (rule sim_read_compressed_u16 read_compressed_u16_wire)+

lemma decodes_compressed_u32:
  "decodes rbits (read_compressed_u32 R) (compressed_u32_wire x) (compressed_u32_seen x)"
  by (rule decodesI [where rd' = "read_compressed_u32 bits_reader"])
    (rule sim_read_compressed_u32 read_compressed_u32_wire)+

end

section \<open>Properties\<close>

text \<open>For every \<open>u16\<close>, \<open>Compressed::<u16>\<close> appends its wire format, and deserialising that
  wire format, whatever follows it, gives the value back and leaves the rest unread.\<close>

theorem compressed_u16_roundtrip:
  assumes "codec_laws R rbits W wbits"
  shows "encodes wbits (write_compressed_u16 W x) (compressed_u16_wire x) \<and>
    decodes rbits (read_compressed_u16 R) (compressed_u16_wire x) x"
  using writer_laws.encodes_compressed_u16 [OF codec_writer [OF assms]]
    reader_laws.decodes_compressed_u16 [OF codec_reader [OF assms]] by blast

theorem compressed_u16_roundtrip_witness:
  "encodes id (write_compressed_u16 bits_writer 47975) (compressed_u16_wire 47975) \<and>
   decodes id (read_compressed_u16 bits_reader) (compressed_u16_wire 47975) 47975 \<and>
   bytes_of_bits (compressed_u16_wire 47975) = [0x33, 0xdd, 0x80]"
proof -
  have "bytes_of_bits (compressed_u16_wire 47975) = [0x33, 0xdd, 0x80]" by code_simp
  then show ?thesis using compressed_u16_roundtrip [OF bits_codec] by blast
qed

text \<open>C29: what \<open>Compressed::<u32>\<close> writes is read back as \<open>compressed_u32_seen\<close>: unchanged below
  $2^8$ and from $2^{24}$, multiplied by $2^{16}$ or $2^8$ in between. The round trip is exact on
  precisely the values that elide no byte or all three upper bytes.\<close>

theorem compressed_u32_reads_back:
  assumes "codec_laws R rbits W wbits"
  shows "encodes wbits (write_compressed_u32 W x) (compressed_u32_wire x) \<and>
    decodes rbits (read_compressed_u32 R) (compressed_u32_wire x) (compressed_u32_seen x) \<and>
    (compressed_u32_seen x = x \<longleftrightarrow> x < 2 ^ 8 \<or> 2 ^ 24 \<le> x)"
  using writer_laws.encodes_compressed_u32 [OF codec_writer [OF assms]]
    reader_laws.decodes_compressed_u32 [OF codec_reader [OF assms]]
    compressed_u32_seen_iff [of x] by (simp add: compressed_u32_safe_def)

theorem compressed_u32_reads_back_witness:
  "encodes id (write_compressed_u32 bits_writer 256) (compressed_u32_wire 256) \<and>
   decodes id (read_compressed_u32 bits_reader) (compressed_u32_wire 256) 0x1000000"
  using compressed_u32_reads_back [OF bits_codec, of 256] by (simp add: compressed_u32_seen_def)

end
