(* ===== verification/RangeList.thy ===== *)
theory RangeList
  imports Comp
begin

text \<open>
  \<open>src/raknet/rangelist.rs\<close>: the list of inclusive ranges that collects the message numbers
  to acknowledge. \<open>insert\<close> is the code's loop followed by its three tails; \<open>ins\<close> is the
  recursive reference function the proofs use. The lemmas give the set a list denotes, when an
  insertion keeps the list sorted and disjoint, and the wire format.
\<close>

section \<open>State and operations\<close>

record range =
  r_min :: u32
  r_max :: u32

record range_list =
  ranges :: "range list"

definition mk_range :: "u32 \<Rightarrow> u32 \<Rightarrow> range" where
  "mk_range lo hi = \<lparr>r_min = lo, r_max = hi\<rparr>"

definition rl_new :: range_list where
  "rl_new = \<lparr>ranges = []\<rparr>"

text \<open>\<open>len\<close>: the additions on \<open>u32\<close> overflow for a range of all \<open>u32\<close> values, a panic in a
  build with overflow checks; so does the subtraction when \<open>max < min\<close>, which a list that was
  read from the network may have.\<close>

definition range_len :: "bool \<Rightarrow> range \<Rightarrow> nat res" where
  "range_len checks r =
     (if checks \<and> (r_max r < r_min r \<or> r_max r - r_min r = - 1) then Panic
      else Ok (unat (r_max r - r_min r + 1)))"

fun len_loop :: "bool \<Rightarrow> nat \<Rightarrow> range list \<Rightarrow> nat res" where
  "len_loop checks n [] = Ok n"
| "len_loop checks n (r # rs) = and_then (range_len checks r) (\<lambda>k. len_loop checks (n + k) rs)"

definition rl_len :: "bool \<Rightarrow> range_list \<Rightarrow> nat res" where
  "rl_len checks l = len_loop checks 0 (ranges l)"

definition rl_is_empty :: "range_list \<Rightarrow> bool" where
  "rl_is_empty l \<longleftrightarrow> ranges l = []"

definition rl_clear :: "range_list \<Rightarrow> range_list" where
  "rl_clear l = l\<lparr>ranges := []\<rparr>"

text \<open>The loop of \<open>insert\<close>, with the mutations it makes in place. It returns from the function,
  or it ends (by \<open>break\<close> or at the end of the list) with \<open>try_remove\<close> and \<open>insert\<close>.\<close>

datatype scan =
    Return "range list"
  | Finish "range list" "nat option" "nat option"

fun scan_cons :: "range \<Rightarrow> scan \<Rightarrow> scan" where
  "scan_cons r (Return rs) = Return (r # rs)"
| "scan_cons r (Finish rs rem ins) = Finish (r # rs) rem ins"

fun insert_loop :: "u32 \<Rightarrow> nat \<Rightarrow> nat \<Rightarrow> range list \<Rightarrow> scan" where
  "insert_loop item ranges_len i [] = Finish [] None None"
| "insert_loop item ranges_len i (r # rs) =
     (if r_min r \<le> item then
        if item \<le> r_max r then Return (r # rs)
        else if r_max r = item - 1 then
          let r' = r\<lparr>r_max := item\<rparr> in
          if i = ranges_len - 1 then Return (r' # rs) else Finish (r' # rs) (Some (i + 1)) None
        else scan_cons r (insert_loop item ranges_len (i + 1) rs)
      else
        if r_min r - item = 1 then Return (r\<lparr>r_min := item\<rparr> # rs)
        else Finish (r # rs) None (Some i))"

definition insert_ranges :: "u32 \<Rightarrow> range list \<Rightarrow> range list res" where
  "insert_ranges item rs =
     (case insert_loop item (length rs) 0 rs of
        Return rs' \<Rightarrow> Ok rs'
      | Finish rs' (Some i) _ \<Rightarrow>
          if i < length rs' then
            Ok (if r_min (rs' ! i) = item - 1 then take i rs' @ drop (Suc i) rs' else rs')
          else Panic
      | Finish rs' None (Some i) \<Rightarrow> Ok (take i rs' @ mk_range item item # drop i rs')
      | Finish rs' None None \<Rightarrow> Ok (rs' @ [mk_range item item]))"

definition rl_insert :: "range_list \<Rightarrow> u32 \<Rightarrow> range_list res" where
  "rl_insert l item = and_then (insert_ranges item (ranges l)) (\<lambda>rs. Ok (l\<lparr>ranges := rs\<rparr>))"

section \<open>Iteration\<close>

text \<open>\<open>RangeInclusive<u32>\<close>: the bounds still to yield and the flag that the last one was.\<close>

record range_inclusive =
  ri_start :: u32
  ri_end :: u32
  ri_exhausted :: bool

definition ri_next :: "range_inclusive \<Rightarrow> u32 option \<times> range_inclusive" where
  "ri_next it =
     (if ri_exhausted it \<or> ri_end it < ri_start it then (None, it)
      else if ri_start it < ri_end it
        then (Some (ri_start it), it\<lparr>ri_start := ri_start it + 1\<rparr>)
      else (Some (ri_start it), it\<lparr>ri_exhausted := True\<rparr>))"

record items =
  range_iter :: "range list"
  cur_range :: "range_inclusive option"

definition rl_into_iter :: "range_list \<Rightarrow> items" where
  "rl_into_iter l = \<lparr>range_iter = ranges l, cur_range = None\<rparr>"

function items_next :: "items \<Rightarrow> u32 option \<times> items" where
  "items_next it =
     (case cur_range it of
        None \<Rightarrow>
          (case range_iter it of
             [] \<Rightarrow> (None, it)
           | r # rs \<Rightarrow>
               items_next \<lparr>range_iter = rs,
                 cur_range = Some \<lparr>ri_start = r_min r, ri_end = r_max r, ri_exhausted = False\<rparr>\<rparr>)
      | Some ri \<Rightarrow>
          (case ri_next ri of
             (None, _) \<Rightarrow> items_next (it\<lparr>cur_range := None\<rparr>)
           | (Some x, ri') \<Rightarrow> (Some x, it\<lparr>cur_range := Some ri'\<rparr>)))"
  by pat_completeness auto
termination
  by (relation "measure (\<lambda>it. 2 * length (range_iter it) +
        (case cur_range it of None \<Rightarrow> 0 | Some _ \<Rightarrow> 1))")
    (auto split: option.splits)

declare items_next.simps [simp del]

section \<open>Wire format\<close>

fun write_ranges :: "'w bit_writer \<Rightarrow> range list \<Rightarrow> 'w \<Rightarrow> 'w res" where
  "write_ranges W [] w = Ok w"
| "write_ranges W (r # rs) w =
     and_then (bw_bit W (r_min r = r_max r) w) (\<lambda>w.
     and_then (bw_u32 W (r_min r) w) (\<lambda>w.
     and_then (if r_min r \<noteq> r_max r then bw_u32 W (r_max r) w else Ok w) (write_ranges W rs)))"

definition rl_write :: "'w bit_writer \<Rightarrow> range_list \<Rightarrow> 'w \<Rightarrow> 'w res" where
  "rl_write W l w =
     and_then (write_compressed_u16 W (of_nat (length (ranges l))) w) (write_ranges W (ranges l))"

fun read_ranges :: "'r bit_reader \<Rightarrow> nat \<Rightarrow> range list \<Rightarrow> 'r \<Rightarrow> (range list \<times> 'r) res" where
  "read_ranges R 0 rs r = Ok (rs, r)"
| "read_ranges R (Suc n) rs r =
     and_then (br_bit R r) (\<lambda>(same, r).
     and_then (br_u32 R r) (\<lambda>(lo, r).
     and_then (if same then Ok (lo, r) else br_u32 R r) (\<lambda>(hi, r).
       read_ranges R n (rs @ [mk_range lo hi]) r)))"

definition rl_read :: "'r bit_reader \<Rightarrow> 'r \<Rightarrow> (range_list \<times> 'r) res" where
  "rl_read R r =
     and_then (read_compressed_u16 R r) (\<lambda>(n, r).
     and_then (read_ranges R (unat n) [] r) (\<lambda>(rs, r). Ok (\<lparr>ranges = rs\<rparr>, r)))"

section \<open>A recursive reference for insert\<close>

fun ins :: "u32 \<Rightarrow> range list \<Rightarrow> range list" where
  "ins item [] = [mk_range item item]"
| "ins item (r # rs) =
     (if r_min r \<le> item then
        if item \<le> r_max r then r # rs
        else if r_max r = item - 1 then
          (case rs of
             [] \<Rightarrow> [r\<lparr>r_max := item\<rparr>]
           | s # ss \<Rightarrow> if r_min s = item - 1 then r\<lparr>r_max := item\<rparr> # ss
                       else r\<lparr>r_max := item\<rparr> # s # ss)
        else r # ins item rs
      else if r_min r - item = 1 then r\<lparr>r_min := item\<rparr> # rs
      else mk_range item item # r # rs)"

text \<open>What the loop reports, relative to the index \<open>i\<close> at which it starts.\<close>

definition scan_ok :: "u32 \<Rightarrow> nat \<Rightarrow> range list \<Rightarrow> scan \<Rightarrow> bool" where
  "scan_ok item i rs sc \<longleftrightarrow>
     (case sc of
        Return rs' \<Rightarrow> ins item rs = rs'
      | Finish rs' (Some k) _ \<Rightarrow> i < k \<and> k - i < length rs' \<and>
          ins item rs = (if r_min (rs' ! (k - i)) = item - 1
            then take (k - i) rs' @ drop (Suc (k - i)) rs' else rs')
      | Finish rs' None (Some k) \<Rightarrow> i \<le> k \<and> k - i \<le> length rs' \<and>
          ins item rs = take (k - i) rs' @ mk_range item item # drop (k - i) rs'
      | Finish rs' None None \<Rightarrow> ins item rs = rs' @ [mk_range item item])"

lemma scan_ok_cons:
  assumes "scan_ok item (Suc i) rs sc" and "ins item (r # rs) = r # ins item rs"
  shows "scan_ok item i (r # rs) (scan_cons r sc)"
proof (cases sc)
  case (Return rs')
  then show ?thesis using assms by (simp add: scan_ok_def del: ins.simps)
next
  case (Finish rs' a b)
  have k: "\<And>k. Suc i \<le> k \<Longrightarrow> k - i = Suc (k - Suc i)" by simp
  show ?thesis using assms Finish
    by (cases a; cases b) (auto simp: scan_ok_def k simp del: ins.simps)
qed

lemma insert_loop_ok:
  "n = i + length rs \<Longrightarrow> scan_ok item i rs (insert_loop item n i rs)"
proof (induction rs arbitrary: i)
  case Nil
  then show ?case by (simp add: scan_ok_def)
next
  case (Cons r rs)
  then have IH: "scan_ok item (Suc i) rs (insert_loop item n (Suc i) rs)" by simp
  show ?case
  proof (cases "r_min r \<le> item \<and> \<not> item \<le> r_max r \<and> r_max r \<noteq> item - 1")
    case True
    then show ?thesis using scan_ok_cons [OF IH, of r] by simp
  next
    case False
    then show ?thesis using Cons.prems
      by (cases rs) (auto simp: scan_ok_def Let_def)
  qed
qed

lemma insert_ranges_eq: "insert_ranges item rs = Ok (ins item rs)"
  using insert_loop_ok [of "length rs" 0 rs item]
  by (auto simp: insert_ranges_def scan_ok_def split: scan.splits option.splits)

section \<open>The set a list denotes\<close>

definition range_items :: "range \<Rightarrow> u32 set" where
  "range_items r = {r_min r..r_max r}"

definition ranges_items :: "range list \<Rightarrow> u32 set" where
  "ranges_items rs = (\<Union>r\<in>set rs. range_items r)"

definition rl_items :: "range_list \<Rightarrow> u32 set" where
  "rl_items l = ranges_items (ranges l)"

lemma ranges_items_Nil [simp]: "ranges_items [] = {}"
  and ranges_items_Cons [simp]: "ranges_items (r # rs) = range_items r \<union> ranges_items rs"
  by (simp_all add: ranges_items_def)

text \<open>Sorted, non-empty, pairwise disjoint ranges; \<open>separated\<close> ranges moreover do not touch.\<close>

fun wf_ranges :: "range list \<Rightarrow> bool" where
  "wf_ranges [] \<longleftrightarrow> True"
| "wf_ranges (r # rs) \<longleftrightarrow> r_min r \<le> r_max r \<and> (\<forall>s\<in>set rs. r_max r < r_min s) \<and> wf_ranges rs"

fun separated :: "range list \<Rightarrow> bool" where
  "separated [] \<longleftrightarrow> True"
| "separated (r # rs) \<longleftrightarrow> (\<forall>s\<in>set rs. unat (r_max r) + 1 < unat (r_min s)) \<and> separated rs"

lemma max_pred_iff: "(m :: u32) < x \<Longrightarrow> m = x - 1 \<longleftrightarrow> unat m + 1 = unat x"
  by unat_arith

lemma min_succ_iff: "(x :: u32) < m \<Longrightarrow> m - x = 1 \<longleftrightarrow> unat m = unat x + 1"
  by unat_arith

lemma interval_extend_right:
  "lo \<le> hi \<Longrightarrow> unat hi + 1 = unat x \<Longrightarrow> {lo..x :: u32} = insert x {lo..hi}"
  by (auto simp: word_le_nat_alt word_less_nat_alt unat_eq_nat_uint [symmetric] word_unat_eq_iff)

lemma interval_extend_left:
  "lo \<le> hi \<Longrightarrow> unat lo = unat x + 1 \<Longrightarrow> {x..hi :: u32} = insert x {lo..hi}"
  by (auto simp: word_le_nat_alt word_unat_eq_iff)

lemma wf_ranges_above:
  "wf_ranges (r # rs) \<Longrightarrow> x \<in> ranges_items rs \<Longrightarrow> r_max r < x"
  by (auto simp: ranges_items_def range_items_def)

lemma set_mins_ins:
  "s \<in> set (ins item rs) \<Longrightarrow> r_min s = item \<or> (\<exists>t\<in>set rs. r_min s = r_min t)"
  by (induction item rs rule: ins.induct) (auto simp: mk_range_def split: if_splits list.splits)

lemma ins_fresh:
  assumes "wf_ranges rs" and "item \<notin> ranges_items rs"
  shows "ranges_items (ins item rs) = insert item (ranges_items rs) \<and> wf_ranges (ins item rs)"
  using assms
proof (induction item rs rule: ins.induct)
  case (1 item)
  then show ?case by (simp add: range_items_def mk_range_def)
next
  case (2 item r rs)
  have r: "r_min r \<le> r_max r" using "2.prems" by simp
  consider (above) "r_max r < item" "r_max r \<noteq> item - 1"
    | (touch) "r_max r < item" "r_max r = item - 1"
    | (below) "item < r_min r"
    using "2.prems"(2) by (fastforce simp: range_items_def)
  then show ?case
  proof cases
    case above
    then have "r_min r \<le> item" using r by simp
    moreover have "r_max r < r_min s" if "s \<in> set (ins item rs)" for s
      using set_mins_ins [OF that] above "2.prems" by auto
    ultimately show ?thesis using above "2.IH" "2.prems" by (auto simp: not_le)
  next
    case touch
    then have "r_min r \<le> item" "unat (r_max r) + 1 = unat item"
      using r max_pred_iff [of "r_max r" item] by auto
    moreover have "item < r_min s" if "s \<in> set rs" for s
    proof -
      have "r_min s \<in> ranges_items rs" "r_max r < r_min s"
        using that "2.prems"(1) by (induction rs) (auto simp: range_items_def)
      then show ?thesis using \<open>unat (r_max r) + 1 = unat item\<close> "2.prems"(2)
        by (cases "item = r_min s") (auto simp: word_less_nat_alt word_unat_eq_iff)
    qed
    ultimately show ?thesis using touch r "2.prems"
      by (auto simp: range_items_def interval_extend_right not_le split: list.splits)
  next
    case below
    then show ?thesis using r "2.prems"
      by (auto simp: range_items_def mk_range_def not_le min_succ_iff interval_extend_left)
  qed
qed

lemma ins_present:
  assumes "wf_ranges rs" and "item \<in> ranges_items rs"
    and "\<forall>s\<in>set rs. r_max s < item \<longrightarrow> unat (r_max s) + 1 < unat item"
  shows "ins item rs = rs"
  using assms
proof (induction item rs rule: ins.induct)
  case (2 item r rs)
  show ?case
  proof (cases "item \<in> range_items r")
    case True
    then show ?thesis by (simp add: range_items_def)
  next
    case False
    then have "item \<in> ranges_items rs" using "2.prems"(2) by simp
    moreover from this have "r_max r < item" by (rule wf_ranges_above [OF "2.prems"(1)])
    moreover have "r_min r \<le> item" using "2.prems"(1) \<open>r_max r < item\<close> by auto
    moreover have "r_max r \<noteq> item - 1"
      using "2.prems"(3) \<open>r_max r < item\<close> max_pred_iff [of "r_max r" item] by simp
    ultimately show ?thesis using "2.IH" "2.prems" by (simp add: not_le)
  qed
qed simp

lemma separated_gap:
  assumes "wf_ranges rs" and "separated rs" and "item \<in> ranges_items rs"
    and "s \<in> set rs" and "r_max s < item"
  shows "unat (r_max s) + 1 < unat item"
  using assms
proof (induction rs)
  case (Cons r rs)
  show ?case
  proof (cases "s = r")
    case True
    then have "item \<in> ranges_items rs" using Cons.prems by (auto simp: range_items_def)
    then obtain t where "t \<in> set rs" "r_min t \<le> item" by (auto simp: ranges_items_def range_items_def)
    then show ?thesis using True Cons.prems(2) by (fastforce simp: word_le_nat_alt)
  next
    case False
    then have s: "s \<in> set rs" using Cons.prems by simp
    show ?thesis
    proof (cases "item \<in> ranges_items rs")
      case True
      then show ?thesis using Cons s by simp
    next
      case False
      then have "item \<le> r_max r" using Cons.prems by (simp add: range_items_def)
      moreover have "r_max r < r_min s" "r_min s \<le> r_max s"
        using Cons.prems(1) s by (auto, induction rs) auto
      ultimately show ?thesis using Cons.prems(5) by simp
    qed
  qed
qed simp

text \<open>An item that is held as the minimum of a range right after another one.\<close>

definition touched :: "range list \<Rightarrow> u32 \<Rightarrow> bool" where
  "touched rs item \<longleftrightarrow> item \<in> ranges_items rs \<and> (\<exists>r\<in>set rs. unat (r_max r) + 1 = unat item)"

lemma wf_ranges_min_max: "wf_ranges rs \<Longrightarrow> r \<in> set rs \<Longrightarrow> r_min r \<le> r_max r"
  by (induction rs) auto

lemma ins_touched:
  assumes "wf_ranges rs" and "touched rs item"
  shows "ranges_items (ins item rs) = ranges_items rs \<and> \<not> wf_ranges (ins item rs)"
  using assms
proof (induction item rs rule: ins.induct)
  case (2 item r rs)
  have r: "r_min r \<le> r_max r" using "2.prems"(1) by simp
  show ?case
  proof (cases "unat (r_max r) + 1 = unat item")
    case True
    then have lt: "r_max r < item" "\<not> item \<le> r_max r" "r_max r = item - 1"
      using max_pred_iff [of "r_max r" item] by (auto simp: word_less_nat_alt word_le_nat_alt)
    then have "item \<in> ranges_items rs"
      using "2.prems"(2) by (auto simp: touched_def range_items_def)
    then obtain s ss where rs: "rs = s # ss" by (cases rs) auto
    have s: "r_max r < r_min s" "r_min s \<le> r_max s" using "2.prems"(1) rs by simp_all
    then have "item \<le> r_min s" using True by (simp add: word_less_nat_alt word_le_nat_alt)
    moreover have "r_min s \<le> item"
      using \<open>item \<in> ranges_items rs\<close> wf_ranges_above [of s ss item] "2.prems"(1) s
      by (auto simp: rs range_items_def)
    ultimately have min: "r_min s = item" by (rule antisym [rotated])
    have "item \<noteq> item - 1" by simp
    moreover have "r_min r \<le> item" using r lt(1) by simp
    ultimately have "ins item (r # rs) = r\<lparr>r_max := item\<rparr> # s # ss"
      using lt min by (simp add: rs)
    moreover have "range_items (r\<lparr>r_max := item\<rparr>) = insert item (range_items r)"
      using interval_extend_right [OF r True] by (simp add: range_items_def)
    ultimately show ?thesis using \<open>item \<in> ranges_items rs\<close> min by (auto simp: rs)
  next
    case False
    then obtain t where t: "t \<in> set rs" "unat (r_max t) + 1 = unat item"
      using "2.prems"(2) by (auto simp: touched_def)
    have "r_max r < r_min t" "r_min t \<le> r_max t"
      using "2.prems"(1) t(1) wf_ranges_min_max [of rs t] by auto
    then have "r_max r < item" "r_max r \<noteq> item - 1" "\<not> item \<le> r_max r"
      using t(2) by (auto simp: word_less_nat_alt word_le_nat_alt max_pred_iff)
    moreover have "touched rs item"
      using "2.prems"(2) t calculation(3) by (auto simp: touched_def range_items_def)
    ultimately show ?thesis using "2.IH" "2.prems"(1) r by auto
  qed
qed (simp add: touched_def)

section \<open>Counting and enumerating\<close>

lemma finite_ranges_items [simp]: "finite (ranges_items rs)"
  by (simp add: ranges_items_def)

lemma unat_interval: "unat ` {lo..hi :: u32} = {unat lo..unat hi}"
proof (intro set_eqI iffI)
  fix n assume n: "n \<in> {unat lo..unat hi}"
  then have "n < 2 ^ 32" using unsigned_less [of hi, where 'a = nat] by auto
  then have "unat (of_nat n :: u32) = n" by (simp add: unat_of_nat take_bit_eq_mod)
  then show "n \<in> unat ` {lo..hi}"
    using n by (auto intro!: image_eqI [where x = "of_nat n"] simp: word_le_nat_alt)
qed (auto simp: word_le_nat_alt)

lemma card_word_interval: "lo \<le> hi \<Longrightarrow> card {lo..hi :: u32} = Suc (unat (hi - lo))"
proof -
  assume "lo \<le> hi"
  have "inj_on unat {lo..hi}" by (auto simp: inj_on_def word_unat_eq_iff)
  then have "card {lo..hi} = card {unat lo..unat hi}"
    using card_image [of unat "{lo..hi}"] by (simp add: unat_interval)
  also have "\<dots> = Suc (unat (hi - lo))"
    using \<open>lo \<le> hi\<close> by (simp add: unat_sub Suc_diff_le word_le_nat_alt)
  finally show ?thesis .
qed

lemma range_len_card:
  assumes "r_min r \<le> r_max r" and "range_items r \<noteq> UNIV"
  shows "range_len checks r = Ok (card (range_items r))"
proof -
  have n: "r_max r - r_min r \<noteq> - 1"
  proof
    assume "r_max r - r_min r = - 1"
    then have "unat (r_max r) - unat (r_min r) = unat (- 1 :: u32)"
      using assms(1) by (simp add: unat_sub [symmetric] word_le_nat_alt)
    moreover have "unat (- 1 :: u32) = 2 ^ 32 - 1" by (simp add: unsigned_minus_1_eq_mask mask_eq_exp_minus_1)
    ultimately have "unat (r_min r) = 0" "unat (r_max r) = unat (- 1 :: u32)"
      using unsigned_less [of "r_max r", where 'a = nat] by simp_all
    then have "r_min r = 0" "r_max r = - 1" by (simp_all add: word_unat_eq_iff)
    then show False using assms(2) by (auto simp: range_items_def)
  qed
  then have "1 + (r_max r - r_min r) \<noteq> 0" by (metis add_eq_0_iff minus_equation_iff)
  then have "unat (r_max r - r_min r + 1) = Suc (unat (r_max r - r_min r))"
    using unatSuc [of "r_max r - r_min r"] by (simp only: add.commute [of _ 1] simp_thms)
  then show ?thesis
    using assms(1) n by (auto simp: range_len_def range_items_def card_word_interval not_less)
qed

lemma len_loop_card:
  assumes "wf_ranges rs" and "\<forall>r\<in>set rs. range_items r \<noteq> UNIV"
  shows "len_loop checks n rs = Ok (n + card (ranges_items rs))"
  using assms
proof (induction rs arbitrary: n)
  case (Cons r rs)
  have "range_items r \<inter> ranges_items rs = {}"
    using wf_ranges_above [OF Cons.prems(1)] by (fastforce simp: range_items_def)
  moreover have "range_len checks r = Ok (card (range_items r))"
    using Cons.prems by (intro range_len_card) auto
  moreover have "finite (range_items r)" by (simp add: range_items_def)
  ultimately show ?case using Cons by (auto simp: card_Un_disjoint)
qed simp

text \<open>The numbers an iterator has still to yield.\<close>

definition up_to :: "u32 \<Rightarrow> u32 \<Rightarrow> u32 list" where
  "up_to lo hi = map of_nat [unat lo..<Suc (unat hi)]"

definition ri_list :: "range_inclusive \<Rightarrow> u32 list" where
  "ri_list ri = (if ri_exhausted ri then [] else up_to (ri_start ri) (ri_end ri))"

definition items_list :: "items \<Rightarrow> u32 list" where
  "items_list it =
     (case cur_range it of None \<Rightarrow> [] | Some ri \<Rightarrow> ri_list ri) @
     concat (map (\<lambda>r. up_to (r_min r) (r_max r)) (range_iter it))"

lemma up_to_empty: "hi < lo \<Longrightarrow> up_to lo hi = []"
  by (simp add: up_to_def word_less_nat_alt)

lemma up_to_single: "up_to lo lo = [lo]"
  by (simp add: up_to_def)

lemma up_to_Cons:
  assumes "lo < hi"
  shows "up_to lo hi = lo # up_to (lo + 1) hi"
proof -
  have "unat (lo + 1) = Suc (unat lo)" using assms by unat_arith
  then show ?thesis using assms
    by (simp add: up_to_def upt_conv_Cons word_less_nat_alt del: upt_Suc)
qed

lemma set_up_to: "set (up_to lo hi) = {lo..hi}"
proof -
  have "set (up_to lo hi) = of_nat ` unat ` {lo..hi}"
    by (simp only: up_to_def set_map set_upt unat_interval atLeastLessThanSuc_atLeastAtMost)
  then show ?thesis by (simp add: image_image)
qed

lemma ri_next_list:
  "ri_next ri = (None, ri') \<Longrightarrow> ri_list ri = []"
  "ri_next ri = (Some x, ri') \<Longrightarrow> ri_list ri = x # ri_list ri'"
  by (auto simp: ri_next_def ri_list_def up_to_empty up_to_Cons up_to_single not_less dest!: antisym split: if_splits)

lemma items_next_list:
  "(case items_next it of
      (None, _) \<Rightarrow> items_list it = []
    | (Some x, it') \<Rightarrow> items_list it = x # items_list it')"
proof (induction it rule: items_next.induct)
  case (1 it)
  show ?case
  proof (cases "cur_range it")
    case None
    show ?thesis
    proof (cases "range_iter it")
      case Nil
      then show ?thesis using None by (simp add: items_next.simps [of it] items_list_def)
    next
      case (Cons r rs)
      then show ?thesis using "1.IH"(1) [OF None Cons] None
        by (simp add: items_next.simps [of it] items_list_def ri_list_def split: prod.splits option.splits)
    qed
  next
    case (Some ri)
    obtain y ri' where n: "ri_next ri = (y, ri')" by fastforce
    show ?thesis
    proof (cases y)
      case None
      then show ?thesis
        using "1.IH"(2) [OF Some n [symmetric] None] Some n ri_next_list(1) [of ri ri']
        by (simp add: items_next.simps [of it] items_list_def split: prod.splits option.splits)
    next
      case (Some x)
      then show ?thesis using \<open>cur_range it = Some ri\<close> n ri_next_list(2) [of ri x ri']
        by (simp add: items_next.simps [of it] items_list_def)
    qed
  qed
qed

section \<open>Wire format of a list\<close>

definition range_wire :: "range \<Rightarrow> bool list" where
  "range_wire r = (r_min r = r_max r) # bytes_bits (u32_le (r_min r)) @
     (if r_min r = r_max r then [] else bytes_bits (u32_le (r_max r)))"

definition rl_wire :: "range_list \<Rightarrow> bool list" where
  "rl_wire l = compressed_u16_wire (of_nat (length (ranges l))) @ concat (map range_wire (ranges l))"

context writer_laws
begin

lemma write_ranges_wire:
  "map_res wbits (write_ranges W rs w) = Ok (wbits w @ concat (map range_wire rs))"
proof (induction rs arbitrary: w)
  case (Cons r rs)
  show ?case unfolding write_ranges.simps
    by (rule map_res_step [OF wr_bit], rule map_res_step [OF wr_u32])
      (cases "r_min r = r_max r";
       auto simp: Cons.IH range_wire_def intro: map_res_step [OF wr_u32])
qed simp

lemma encodes_rl: "encodes wbits (rl_write W l) (rl_wire l)"
  unfolding encodes_iff rl_write_def
  by (auto intro!: map_res_step [OF write_compressed_u16_wire] simp: write_ranges_wire rl_wire_def)

end

context reader_laws
begin

lemma sim_read_ranges [sim]:
  "map_state rbits (read_ranges R n rs r) = read_ranges bits_reader n rs (rbits r)"
  by (induction n arbitrary: rs r) (auto intro!: map_state_and_then sim)

lemma sim_rl_read [sim]: "map_state rbits (rl_read R r) = rl_read bits_reader (rbits r)"
  unfolding rl_read_def by (auto intro!: map_state_and_then sim)

end

lemma range_eta: "mk_range (r_min r) (r_max r) = r"
  by (simp add: mk_range_def)

lemma read_ranges_wire:
  "read_ranges bits_reader (length rs) done (concat (map range_wire rs) @ rest) = Ok (done @ rs, rest)"
proof (induction rs arbitrary: "done")
  case (Cons r rs)
  then show ?case
    using range_eta [of r] by (cases "r_min r = r_max r") (simp_all add: range_wire_def)
qed simp

lemma rl_read_wire:
  assumes "length (ranges l) < 2 ^ 16"
  shows "rl_read bits_reader (rl_wire l @ rest) = Ok (l, rest)"
proof -
  have "unat (of_nat (length (ranges l)) :: u16) = length (ranges l)"
    using assms by (simp add: unat_of_nat take_bit_eq_mod)
  then show ?thesis
    by (simp add: rl_read_def rl_wire_def read_compressed_u16_wire read_ranges_wire)
qed

context reader_laws
begin

lemma decodes_rl: "length (ranges l) < 2 ^ 16 \<Longrightarrow> decodes rbits (rl_read R) (rl_wire l) l"
  by (rule decodesI [where rd' = "rl_read bits_reader"]) (auto intro: sim_rl_read rl_read_wire)

end

section \<open>The interface the receiver relies on\<close>

text \<open>A store of message numbers: adding a number it does not hold adds exactly that number.\<close>

fun add_all :: "('s \<Rightarrow> u32 \<Rightarrow> 's res) \<Rightarrow> 's \<Rightarrow> u32 list \<Rightarrow> 's res" where
  "add_all add s [] = Ok s"
| "add_all add s (x # xs) = and_then (add s x) (\<lambda>s. add_all add s xs)"

locale ack_store =
  fixes fresh :: 's and add :: "'s \<Rightarrow> u32 \<Rightarrow> 's res"
    and held :: "'s \<Rightarrow> u32 set" and ok :: "'s \<Rightarrow> bool"
  assumes held_fresh: "held fresh = {}"
    and ok_fresh: "ok fresh"
    and add_new: "ok s \<Longrightarrow> x \<notin> held s \<Longrightarrow>
      \<exists>s'. add s x = Ok s' \<and> ok s' \<and> held s' = insert x (held s)"
begin

lemma add_all_held:
  "ok s \<Longrightarrow> distinct xs \<Longrightarrow> set xs \<inter> held s = {} \<Longrightarrow>
   \<exists>s'. add_all add s xs = Ok s' \<and> ok s' \<and> held s' = held s \<union> set xs"
proof (induction xs arbitrary: s)
  case (Cons x xs)
  then obtain s' where s': "add s x = Ok s'" "ok s'" "held s' = insert x (held s)"
    using add_new [of s x] by auto
  moreover have "set xs \<inter> held s' = {}" using Cons.prems s' by auto
  ultimately show ?case using Cons.IH [of s'] Cons.prems by auto
qed simp

lemma add_all_fresh:
  "distinct xs \<Longrightarrow> \<exists>s. add_all add fresh xs = Ok s \<and> ok s \<and> held s = set xs"
  using add_all_held [OF ok_fresh, of xs] by (simp add: held_fresh)

end

definition rl_ok :: "range_list \<Rightarrow> bool" where
  "rl_ok l \<longleftrightarrow> wf_ranges (ranges l)"

lemma rl_insert_eq: "rl_insert l item = Ok (l\<lparr>ranges := ins item (ranges l)\<rparr>)"
  by (simp add: rl_insert_def insert_ranges_eq)

interpretation acks: ack_store rl_new rl_insert rl_items rl_ok
proof
  show "rl_items rl_new = {}" "rl_ok rl_new"
    by (simp_all add: rl_items_def rl_new_def rl_ok_def)
next
  fix l x assume "rl_ok l" "x \<notin> rl_items l"
  then show "\<exists>l'. rl_insert l x = Ok l' \<and> rl_ok l' \<and> rl_items l' = insert x (rl_items l)"
    using ins_fresh [of "ranges l" x] by (simp add: rl_insert_eq rl_ok_def rl_items_def)
qed

section \<open>Runs of consecutive items\<close>

lemma add_all_append:
  "add_all add s (xs @ ys) = and_then (add_all add s xs) (\<lambda>s. add_all add s ys)"
  by (induction xs arbitrary: s) simp_all

lemma unat_of_nat_u32 [simp]: "n < 2 ^ 32 \<Longrightarrow> unat (of_nat n :: u32) = n"
  by (simp add: unat_of_nat take_bit_eq_mod)

lemma of_nat_u32_eq_iff: "m < 2 ^ 32 \<Longrightarrow> n < 2 ^ 32 \<Longrightarrow> (of_nat m :: u32) = of_nat n \<longleftrightarrow> m = n"
  by (metis unat_of_nat_u32)

lemma ins_next:
  assumes "Suc m < 2 ^ 32" and "a \<le> m"
  shows "ins (of_nat (Suc m)) [mk_range (of_nat a) (of_nat m)] = [mk_range (of_nat a) (of_nat (Suc m))]"
  using assms by (simp add: mk_range_def word_le_nat_alt del: of_nat_Suc) simp

lemma ins_later:
  assumes "r_min r \<le> item" and "unat (r_max r) + 1 < unat item"
  shows "ins item (r # rs) = r # ins item rs"
  using assms max_pred_iff [of "r_max r" item] by (auto simp: word_le_nat_alt word_less_nat_alt)

lemma ins_extend:
  assumes "r_min r \<le> item" and "unat (r_max r) + 1 = unat item"
  shows "ins item (r # s # ss) =
    (if unat (r_min s) + 1 = unat item then r\<lparr>r_max := item\<rparr> # ss else r\<lparr>r_max := item\<rparr> # s # ss)"
proof -
  have "r_max r = item - 1" "r_max r < item"
    using assms(2) max_pred_iff [of "r_max r" item] by (simp_all add: word_less_nat_alt)
  then have "r_min s = item - 1 \<longleftrightarrow> unat (r_min s) + 1 = unat item"
    using assms(2) by (auto simp: word_unat_eq_iff)
  then show ?thesis
    using assms(1) \<open>r_max r = item - 1\<close> \<open>r_max r < item\<close> by (simp add: not_le [symmetric])
qed

lemma mk_range_upd [simp]: "mk_range lo hi\<lparr>r_max := hi'\<rparr> = mk_range lo hi'"
  and mk_range_sel [simp]: "r_min (mk_range lo hi) = lo" "r_max (mk_range lo hi) = hi"
  by (simp_all add: mk_range_def)

lemma add_all_rl_insert: "add_all rl_insert l xs = Ok (l\<lparr>ranges := fold ins xs (ranges l)\<rparr>)"
  by (induction xs arbitrary: l) (simp_all add: rl_insert_eq)

lemma fold_ins_run:
  "a + n < 2 ^ 32 \<Longrightarrow>
   fold ins (map of_nat [a..<Suc (a + n)]) [] = [mk_range (of_nat a) (of_nat (a + n))]"
proof (induction n)
  case (Suc n)
  have "fold ins (map of_nat [a..<Suc (a + Suc n)]) [] =
    ins (of_nat (Suc (a + n))) (fold ins (map of_nat [a..<Suc (a + n)]) [])"
    by simp
  also have "\<dots> = ins (of_nat (Suc (a + n))) [mk_range (of_nat a) (of_nat (a + n))]"
    using Suc by (simp only:)
  also have "\<dots> = [mk_range (of_nat a) (of_nat (a + Suc n))]"
    using ins_next [of "a + n" a] Suc.prems by (simp only: add_Suc_right)
  finally show ?case .
qed simp

text \<open>A second run behind a first range that it does not touch.\<close>

lemma fold_ins_run_after:
  assumes "r_min r \<le> r_max r" and "unat (r_max r) + 1 < a" and "a + n < 2 ^ 32"
  shows "fold ins (map of_nat [a..<Suc (a + n)]) [r] = r # fold ins (map of_nat [a..<Suc (a + n)]) []"
proof -
  have "fold ins xs (r # rs) = r # fold ins xs rs"
    if "\<forall>x\<in>set xs. a \<le> unat x" for xs rs
    using that
  proof (induction xs arbitrary: rs)
    case (Cons x xs)
    then have "ins x (r # rs) = r # ins x rs"
      using assms by (intro ins_later) (auto simp: word_le_nat_alt)
    then show ?case using Cons by simp
  qed simp
  then show ?thesis using assms(3) by (auto simp del: upt_Suc)
qed

section \<open>Properties\<close>

text \<open>C26: into sorted disjoint ranges \<open>insert\<close> adds any item, and nothing else is added or lost.
  The ranges stay sorted and disjoint, and an insertion of an item that is held changes nothing,
  with one exception: when the item is held and another range ends right before it. The two ranges
  then overlap in the item.\<close>

theorem insert_adds_item:
  assumes "wf_ranges (ranges l)"
  shows "\<exists>l'. rl_insert l item = Ok l' \<and> rl_items l' = insert item (rl_items l) \<and>
    (wf_ranges (ranges l') \<longleftrightarrow>
      \<not> (item \<in> rl_items l \<and> (\<exists>r\<in>set (ranges l). unat (r_max r) + 1 = unat item))) \<and>
    (item \<in> rl_items l \<and> wf_ranges (ranges l') \<longrightarrow> l' = l)"
proof -
  let ?rs = "ranges l"
  have gap: "unat (r_max s) + 1 < unat item"
    if "\<not> touched ?rs item" "item \<in> ranges_items ?rs" "s \<in> set ?rs" "r_max s < item" for s
    using that by (fastforce simp: touched_def word_less_nat_alt)
  consider "item \<notin> ranges_items ?rs" | "touched ?rs item"
    | "item \<in> ranges_items ?rs" "\<not> touched ?rs item" by blast
  then show ?thesis
  proof cases
    case 1
    then show ?thesis using ins_fresh [OF assms 1] by (simp add: rl_insert_eq rl_items_def)
  next
    case 2
    then show ?thesis using ins_touched [OF assms 2]
      by (auto simp: rl_insert_eq rl_items_def touched_def)
  next
    case 3
    then show ?thesis using ins_present [OF assms 3(1)] gap assms
      by (auto simp: rl_insert_eq rl_items_def touched_def)
  qed
qed

theorem insert_adds_item_witness:
  "let l = \<lparr>ranges = [mk_range 1 3, mk_range 4 6]\<rparr> in
   \<exists>l'. rl_insert l 4 = Ok l' \<and> rl_items l' = insert 4 (rl_items l) \<and> \<not> wf_ranges (ranges l')"
proof -
  let ?l = "\<lparr>ranges = [mk_range 1 3, mk_range 4 6]\<rparr>"
  have "wf_ranges (ranges ?l)" by (simp add: mk_range_def)
  moreover have "4 \<in> rl_items ?l" "\<exists>r\<in>set (ranges ?l). unat (r_max r) + 1 = unat (4 :: u32)"
    by (simp_all add: rl_items_def range_items_def mk_range_def)
  ultimately show ?thesis using insert_adds_item [of ?l 4] unfolding Let_def by blast
qed

text \<open>C25: inserting pairwise distinct items into a new list, in any order, gives sorted disjoint
  ranges that hold exactly those items, and \<open>len\<close> counts them.\<close>

theorem insert_distinct_items:
  assumes "distinct xs" and "\<exists>x. x \<notin> set xs"
  shows "\<exists>l. add_all rl_insert rl_new xs = Ok l \<and> wf_ranges (ranges l) \<and>
    rl_items l = set xs \<and> rl_len checks l = Ok (length xs)"
proof -
  obtain l where l: "add_all rl_insert rl_new xs = Ok l" "wf_ranges (ranges l)" "rl_items l = set xs"
    using acks.add_all_fresh [OF assms(1)] by (auto simp: rl_ok_def)
  have "range_items r \<noteq> UNIV" if "r \<in> set (ranges l)" for r
    using assms(2) l(3) that by (auto simp: rl_items_def ranges_items_def)
  then have "rl_len checks l = Ok (card (ranges_items (ranges l)))"
    using len_loop_card [OF l(2)] by (simp add: rl_len_def)
  then show ?thesis using l assms(1) by (simp add: rl_items_def distinct_card)
qed

theorem insert_distinct_items_witness:
  "\<exists>l. add_all rl_insert rl_new [8, 2, 3, 1] = Ok l \<and> wf_ranges (ranges l) \<and>
     rl_items l = {8, 2, 3, 1} \<and> rl_len True l = Ok 4"
proof -
  have "distinct [8, 2, 3, 1 :: u32]" "\<exists>x :: u32. x \<notin> set [8, 2, 3, 1]"
    by (auto intro: exI [of _ 0])
  from insert_distinct_items [OF this, of True] show ?thesis by (simp add: eval_nat_numeral)
qed

text \<open>Inserting an item again is a no-op as long as no range ends right before it, in
  particular in every list whose ranges do not touch.\<close>

theorem insert_held_item:
  assumes "wf_ranges (ranges l)" and "separated (ranges l)" and "item \<in> rl_items l"
  shows "rl_insert l item = Ok l"
  using ins_present [of "ranges l" item] separated_gap [of "ranges l" item] assms
  by (auto simp: rl_insert_eq rl_items_def)

theorem insert_held_item_witness:
  "rl_insert \<lparr>ranges = [mk_range 1 3, mk_range 5 6]\<rparr> 5 = Ok \<lparr>ranges = [mk_range 1 3, mk_range 5 6]\<rparr>"
  by (rule insert_held_item)
    (simp_all add: mk_range_def rl_items_def ranges_items_def range_items_def)

text \<open>Consecutive message numbers, acknowledged in order, are kept as one range.\<close>

theorem insert_consecutive:
  assumes "a + n < 2 ^ 32"
  shows "add_all rl_insert rl_new (map of_nat [a..<Suc (a + n)]) =
    Ok \<lparr>ranges = [mk_range (of_nat a) (of_nat (a + n))]\<rparr>"
  using fold_ins_run [OF assms] by (simp add: add_all_rl_insert rl_new_def)

theorem insert_consecutive_witness:
  "add_all rl_insert rl_new (map of_nat [1..<Suc (1 + 3)]) = Ok \<lparr>ranges = [mk_range 1 4]\<rparr>"
  using insert_consecutive [of 1 3] by simp

text \<open>C30: an acknowledgement can be lost. After the numbers \<open>m\<close> and \<open>m + 2\<close> to \<open>b\<close>, the missing
  \<open>m + 1\<close> and then \<open>m + 2\<close> and \<open>m + 3\<close> once more, the list is the single range from \<open>m\<close> to
  \<open>m + 3\<close>: every number above \<open>m + 3\<close> that was inserted is gone. (Filling the gap does not merge
  the two ranges, because \<open>insert\<close> compares the next range's minimum with \<open>item - 1\<close> and not
  with \<open>item + 1\<close>, and a later insertion then removes that range.)\<close>

theorem insert_loses_items:
  assumes "m + 3 < b" and "b < 2 ^ 32"
  shows "add_all rl_insert rl_new (map of_nat ([m] @ [m + 2..<Suc b] @ [m + 1, m + 2, m + 3])) =
      Ok \<lparr>ranges = [mk_range (of_nat m) (of_nat (m + 3))]\<rparr> \<and>
    of_nat b \<notin> rl_items \<lparr>ranges = [mk_range (of_nat m) (of_nat (m + 3))]\<rparr>"
proof -
  have m: "m < 2 ^ 32" "m + 1 < 2 ^ 32" "m + 2 < 2 ^ 32" "m + 3 < 2 ^ 32" using assms by simp_all
  define n where "n = b - (m + 2)"
  have b: "b = m + 2 + n" using assms by (simp add: n_def)
  have run: "fold ins (map of_nat [m + 2..<Suc b]) [mk_range (of_nat m) (of_nat m)] =
      [mk_range (of_nat m) (of_nat m), mk_range (of_nat (m + 2)) (of_nat b)]"
    using fold_ins_run_after [of "mk_range (of_nat m) (of_nat m)" "m + 2" n] fold_ins_run [of "m + 2" n]
      assms m by (simp add: b del: of_nat_add upt_Suc)
  have 1: "ins (of_nat (m + 1)) [mk_range (of_nat m) (of_nat m), mk_range (of_nat (m + 2)) (of_nat b)] =
      [mk_range (of_nat m) (of_nat (m + 1)), mk_range (of_nat (m + 2)) (of_nat b)]"
    using m by (subst ins_extend) (simp_all add: word_le_nat_alt del: of_nat_add of_nat_Suc)
  have 2: "ins (of_nat (m + 2)) [mk_range (of_nat m) (of_nat (m + 1)), mk_range (of_nat (m + 2)) (of_nat b)] =
      [mk_range (of_nat m) (of_nat (m + 2)), mk_range (of_nat (m + 2)) (of_nat b)]"
    using m by (subst ins_extend) (simp_all add: word_le_nat_alt del: of_nat_add of_nat_Suc)
  have 3: "ins (of_nat (m + 3)) [mk_range (of_nat m) (of_nat (m + 2)), mk_range (of_nat (m + 2)) (of_nat b)] =
      [mk_range (of_nat m) (of_nat (m + 3))]"
    using m by (subst ins_extend) (simp_all add: word_le_nat_alt del: of_nat_add of_nat_Suc)
  have "fold ins (map of_nat ([m] @ [m + 2..<Suc b] @ [m + 1, m + 2, m + 3])) [] =
      [mk_range (of_nat m) (of_nat (m + 3))]"
    by (simp only: map_append fold_append comp_apply list.map fold_simps ins.simps(1) run 1 2 3)
  then have "add_all rl_insert rl_new (map of_nat ([m] @ [m + 2..<Suc b] @ [m + 1, m + 2, m + 3])) =
      Ok \<lparr>ranges = [mk_range (of_nat m) (of_nat (m + 3))]\<rparr>"
    by (simp only: add_all_rl_insert rl_new_def range_list.select_convs range_list.update_convs)
  moreover have "of_nat b \<notin> rl_items \<lparr>ranges = [mk_range (of_nat m) (of_nat (m + 3))]\<rparr>"
    using m assms by (simp add: rl_items_def range_items_def word_le_nat_alt del: of_nat_add)
  ultimately show ?thesis by (rule conjI)
qed

theorem insert_loses_items_witness:
  "add_all rl_insert rl_new [1, 3, 4, 5, 6, 2, 3, 4] = Ok \<lparr>ranges = [mk_range 1 4]\<rparr> \<and>
   6 \<notin> rl_items \<lparr>ranges = [mk_range 1 4]\<rparr>"
proof -
  have l: "map of_nat ([1] @ [1 + 2..<Suc 6] @ [1 + 1, 1 + 2, 1 + 3]) = [1, 3, 4, 5, 6, 2, 3, 4 :: u32]"
    by code_simp
  show ?thesis using insert_loses_items [of 1 6, unfolded l] by simp
qed

text \<open>An iterator over the list yields, call by call, exactly the numbers of the ranges in
  order, and \<open>None\<close> only when none is left; each call terminates.\<close>

theorem items_next_enumerates:
  "(case items_next it of
      (None, _) \<Rightarrow> items_list it = []
    | (Some x, it') \<Rightarrow> items_list it = x # items_list it') \<and>
   set (items_list (rl_into_iter l)) = rl_items l"
proof
  show "case items_next it of (None, _) \<Rightarrow> items_list it = []
      | (Some x, it') \<Rightarrow> items_list it = x # items_list it'"
    by (rule items_next_list)
  show "set (items_list (rl_into_iter l)) = rl_items l"
    by (simp add: items_list_def rl_into_iter_def rl_items_def ranges_items_def range_items_def
        set_up_to)
qed

text \<open>C27: a list of fewer than $2^{16}$ ranges is written as its wire format and read back from
  it unchanged, whatever follows in the stream.\<close>

theorem range_list_roundtrip:
  assumes "codec_laws R rbits W wbits" and "length (ranges l) < 2 ^ 16"
  shows "encodes wbits (rl_write W l) (rl_wire l) \<and> decodes rbits (rl_read R) (rl_wire l) l"
  using writer_laws.encodes_rl [OF codec_writer [OF assms(1)]]
    reader_laws.decodes_rl [OF codec_reader [OF assms(1)] assms(2)] by blast

theorem range_list_roundtrip_witness:
  "let l = \<lparr>ranges = [mk_range 1 3, mk_range 5 6, mk_range 8 8, mk_range 14 17]\<rparr> in
   encodes id (rl_write bits_writer l) (rl_wire l) \<and> decodes id (rl_read bits_reader) (rl_wire l) l"
  unfolding Let_def by (rule range_list_roundtrip [OF bits_codec]) simp

end
