(* ===== verification/Abstract_Packet.thy ===== *)
theory Abstract_Packet
  imports Prelude
begin

text \<open>
  The packet definitions of \<open>src/bridge.rs\<close> that both connection types exchange: the control
  message ids the program handles, the reliability modes, and a packet as its mode and bytes.
\<close>

datatype message_type =
    OpenConnectionRequest
  | OpenConnectionReply
  | NoFreeIncomingConnections
  | DisconnectNotification

text \<open>\<open>m as u8\<close>\<close>

fun message_id :: "message_type \<Rightarrow> u8" where
  "message_id OpenConnectionRequest = 9"
| "message_id OpenConnectionReply = 10"
| "message_id NoFreeIncomingConnections = 18"
| "message_id DisconnectNotification = 19"

datatype reliability =
    Unreliable
  | UnreliableSequenced
  | Reliable
  | ReliableOrdered

record packet =
  reliability :: reliability
  data :: "u8 list"

definition mk_packet :: "reliability \<Rightarrow> u8 list \<Rightarrow> packet" where
  "mk_packet rel bs = \<lparr>reliability = rel, data = bs\<rparr>"

lemma mk_packet_sel [simp]:
  "reliability (mk_packet rel bs) = rel" "data (mk_packet rel bs) = bs"
  by (simp_all add: mk_packet_def)

text \<open>A packet whose first byte is the disconnect id ends the connection when it arrives.\<close>

definition is_disconnect :: "u8 list \<Rightarrow> bool" where
  "is_disconnect bs \<longleftrightarrow> length bs \<ge> 1 \<and> bs ! 0 = message_id DisconnectNotification"

lemma is_disconnect_simps [simp]:
  "\<not> is_disconnect []"
  "is_disconnect (b # bs) \<longleftrightarrow> b = 19"
  by (simp_all add: is_disconnect_def)

end
