(* ===== verification/Packet.thy ===== *)
theory Packet
  imports Comp Abstract_Packet
begin

text \<open>
  \<open>src/raknet/packet.rs\<close>: a RakNet packet with its reliability header and split information,
  and its (de)serialisation. The lemmas give the bits written and what reading them yields.
\<close>

section \<open>Data\<close>

datatype reliability_data =
    UnreliableData
  | UnreliableSequencedData u32
  | ReliableData
  | ReliableOrderedData u32

fun reliability_of :: "reliability_data \<Rightarrow> reliability" where
  "reliability_of UnreliableData = Unreliable"
| "reliability_of (UnreliableSequencedData _) = UnreliableSequenced"
| "reliability_of ReliableData = Reliable"
| "reliability_of (ReliableOrderedData _) = ReliableOrdered"

record split_packet_info =
  split_id :: u16
  split_index :: u32
  split_count :: u32

record raknet_packet =
  message_number :: u32
  rel_data :: reliability_data
  split_info :: "split_packet_info option"
  rak_data :: "u8 list"

text \<open>\<open>impl From<RaknetPacket> for Packet\<close>\<close>

definition packet_of :: "raknet_packet \<Rightarrow> packet" where
  "packet_of p = mk_packet (reliability_of (rel_data p)) (rak_data p)"

text \<open>\<open>p\<close> is part \<open>i\<close> of the split packet \<open>sid\<close> made of \<open>ds\<close>.\<close>

definition is_part :: "u16 \<Rightarrow> u8 list list \<Rightarrow> nat \<Rightarrow> raknet_packet \<Rightarrow> bool" where
  "is_part sid ds i p \<longleftrightarrow> i < length ds \<and> rak_data p = ds ! i \<and>
     split_info p = Some \<lparr>split_id = sid, split_index = of_nat i, split_count = of_nat (length ds)\<rparr>"

section \<open>Deserialize\<close>

definition read_ordering_index :: "'r bit_reader \<Rightarrow> 'r \<Rightarrow> (u32 \<times> 'r) res" where
  "read_ordering_index R r =
     and_then (br_bits R 5 r) (\<lambda>(ordering_channel, r).
       if ordering_channel = 0 then br_u32 R r else Panic)"

definition read_reliability_data :: "'r bit_reader \<Rightarrow> 'r \<Rightarrow> (reliability_data \<times> 'r) res" where
  "read_reliability_data R r =
     and_then (br_bits R 3 r) (\<lambda>(id, r).
       if id = 0 then Ok (UnreliableData, r)
       else if id = 1 then
         and_then (read_ordering_index R r) (\<lambda>(ord, r). Ok (UnreliableSequencedData ord, r))
       else if id = 2 then Ok (ReliableData, r)
       else if id = 3 then
         and_then (read_ordering_index R r) (\<lambda>(ord, r). Ok (ReliableOrderedData ord, r))
       else Panic)"

definition read_split_info :: "'r bit_reader \<Rightarrow> 'r \<Rightarrow> (split_packet_info \<times> 'r) res" where
  "read_split_info R r =
     and_then (br_u16 R r) (\<lambda>(id, r).
     and_then (read_compressed_u32 R r) (\<lambda>(index, r).
     and_then (read_compressed_u32 R r) (\<lambda>(count, r).
       Ok (\<lparr>split_id = id, split_index = index, split_count = count\<rparr>, r))))"

definition read_raknet_packet :: "'r bit_reader \<Rightarrow> 'r \<Rightarrow> (raknet_packet \<times> 'r) res" where
  "read_raknet_packet R r =
     and_then (br_u32 R r) (\<lambda>(number, r).
     and_then (read_reliability_data R r) (\<lambda>(rel, r).
     and_then (br_bit R r) (\<lambda>(is_split, r).
     and_then (if is_split
               then and_then (read_split_info R r) (\<lambda>(info, r). Ok (Some info, r))
               else Ok (None, r)) (\<lambda>(split, r).
     and_then (read_compressed_u16 R r) (\<lambda>(bit_length, r).
     and_then (br_exact R (unat bit_length div 8) (br_align R r)) (\<lambda>(bs, r).
       Ok (\<lparr>message_number = number, rel_data = rel, split_info = split, rak_data = bs\<rparr>, r)))))))"

section \<open>Serialize\<close>

fun reliability_id :: "reliability_data \<Rightarrow> u8" where
  "reliability_id UnreliableData = 0"
| "reliability_id (UnreliableSequencedData _) = 1"
| "reliability_id ReliableData = 2"
| "reliability_id (ReliableOrderedData _) = 3"

definition write_ordering_index :: "'w bit_writer \<Rightarrow> u32 \<Rightarrow> 'w \<Rightarrow> 'w res" where
  "write_ordering_index W ord w = and_then (bw_bits W 0 5 w) (bw_u32 W ord)"

definition write_reliability_data :: "'w bit_writer \<Rightarrow> reliability_data \<Rightarrow> 'w \<Rightarrow> 'w res" where
  "write_reliability_data W rel w =
     and_then (bw_bits W (reliability_id rel) 3 w) (\<lambda>w.
       case rel of
         UnreliableSequencedData ord \<Rightarrow> write_ordering_index W ord w
       | ReliableOrderedData ord \<Rightarrow> write_ordering_index W ord w
       | _ \<Rightarrow> Ok w)"

definition write_split_info :: "'w bit_writer \<Rightarrow> split_packet_info \<Rightarrow> 'w \<Rightarrow> 'w res" where
  "write_split_info W info w =
     and_then (bw_u16 W (split_id info) w) (\<lambda>w.
     and_then (write_compressed_u32 W (split_index info) w) (\<lambda>w.
       write_compressed_u32 W (split_count info) w))"

text \<open>\<open>self.data.len() as u16 * 8\<close>: the cast truncates; the product panics on overflow in a build
  with overflow checks and wraps in one without.\<close>

definition data_bit_length :: "bool \<Rightarrow> u8 list \<Rightarrow> u16 res" where
  "data_bit_length checks bs =
     (let len = of_nat (length bs) :: u16
      in if checks \<and> unat len * 8 \<ge> 2 ^ 16 then Panic else Ok (len * 8))"

definition write_raknet_packet :: "bool \<Rightarrow> 'w bit_writer \<Rightarrow> raknet_packet \<Rightarrow> 'w \<Rightarrow> 'w res" where
  "write_raknet_packet checks W p w =
     and_then (bw_u32 W (message_number p) w) (\<lambda>w.
     and_then (write_reliability_data W (rel_data p) w) (\<lambda>w.
     and_then (bw_bit W (split_info p \<noteq> None) w) (\<lambda>w.
     and_then (case split_info p of Some info \<Rightarrow> write_split_info W info w | None \<Rightarrow> Ok w) (\<lambda>w.
     and_then (data_bit_length checks (rak_data p)) (\<lambda>n.
     and_then (write_compressed_u16 W n w) (\<lambda>w.
     and_then (bw_align W w) (bw_bytes W (rak_data p))))))))"

section \<open>The bits on the wire\<close>

definition ordering_wire :: "u32 \<Rightarrow> bool list" where
  "ordering_wire ord = low_bits 5 (0 :: u8) @ bytes_bits (u32_le ord)"

definition reliability_wire :: "reliability_data \<Rightarrow> bool list" where
  "reliability_wire rel = low_bits 3 (reliability_id rel) @
     (case rel of
        UnreliableSequencedData ord \<Rightarrow> ordering_wire ord
      | ReliableOrderedData ord \<Rightarrow> ordering_wire ord
      | _ \<Rightarrow> [])"

definition split_wire :: "split_packet_info \<Rightarrow> bool list" where
  "split_wire info = bytes_bits (u16_le (split_id info)) @
     compressed_u32_wire (split_index info) @ compressed_u32_wire (split_count info)"

definition header_wire :: "raknet_packet \<Rightarrow> bool list" where
  "header_wire p = bytes_bits (u32_le (message_number p)) @ reliability_wire (rel_data p) @
     (case split_info p of None \<Rightarrow> [False] | Some info \<Rightarrow> True # split_wire info) @
     compressed_u16_wire (of_nat (length (rak_data p) * 8))"

text \<open>What the reader sees of the split information, after the \<open>u32\<close> compression.\<close>

definition seen_split :: "split_packet_info \<Rightarrow> split_packet_info" where
  "seen_split info = info\<lparr>split_index := compressed_u32_seen (split_index info),
                          split_count := compressed_u32_seen (split_count info)\<rparr>"

definition seen_packet :: "raknet_packet \<Rightarrow> raknet_packet" where
  "seen_packet p = p\<lparr>split_info := map_option seen_split (split_info p)\<rparr>"

definition split_safe :: "split_packet_info \<Rightarrow> bool" where
  "split_safe info \<longleftrightarrow>
     compressed_u32_safe (split_index info) \<and> compressed_u32_safe (split_count info)"

lemma seen_split_id: "split_safe info \<Longrightarrow> seen_split info = info"
  by (simp add: seen_split_def split_safe_def compressed_u32_seen_iff [THEN iffD2])

lemma seen_packet_id: "pred_option split_safe (split_info p) \<Longrightarrow> seen_packet p = p"
  by (cases "split_info p") (simp_all add: seen_packet_def seen_split_id)

lemma data_bit_length_small:
  "length bs < 2 ^ 13 \<Longrightarrow> data_bit_length checks bs = Ok (of_nat (length bs * 8))"
  by (simp add: data_bit_length_def Let_def unat_of_nat take_bit_eq_mod mult.commute)

section \<open>Writing\<close>

context writer_laws
begin

lemma encodes_reliability: "encodes wbits (write_reliability_data W rel) (reliability_wire rel)"
  unfolding encodes_iff write_reliability_data_def
  by (cases rel; auto simp: reliability_wire_def ordering_wire_def write_ordering_index_def
      wr_u32 wr_bits intro!: map_res_step [OF wr_bits])

lemma encodes_split: "encodes wbits (write_split_info W info) (split_wire info)"
  unfolding encodes_iff write_split_info_def
  by (auto simp: split_wire_def write_compressed_u32_wire
      intro!: map_res_step [OF wr_u16] map_res_step [OF write_compressed_u32_wire])

lemma encodes_step:
  "encodes wbits wr bs \<Longrightarrow> (\<And>w'. wbits w' = wbits w @ bs \<Longrightarrow> map_res wbits (f w') = c) \<Longrightarrow>
   map_res wbits (and_then (wr w) f) = c"
  by (rule map_res_step) (auto simp: encodes_iff)

lemma write_packet_wire:
  assumes "length (rak_data p) < 2 ^ 13"
  shows "map_res wbits (write_raknet_packet checks W p w) =
    Ok (pad_bits (wbits w @ header_wire p) @ bytes_bits (rak_data p))"
  unfolding write_raknet_packet_def data_bit_length_small [OF assms] and_then.simps
  apply (rule map_res_step [OF wr_u32])
  apply (rule encodes_step [OF encodes_reliability])
  apply (rule map_res_step [OF wr_bit])
  apply (cases "split_info p"; simp)
  subgoal for w3 w2 w1
    by (rule map_res_step [OF write_compressed_u16_wire], rule map_res_step [OF wr_align])
      (simp add: wr_bytes header_wire_def)
  subgoal for w3 w2 w1 info
    by (rule encodes_step [OF encodes_split], rule map_res_step [OF write_compressed_u16_wire],
        rule map_res_step [OF wr_align])
      (simp add: wr_bytes header_wire_def)
  done

end

section \<open>Reading\<close>

context reader_laws
begin

lemma sim_read_ordering_index [sim]:
  "map_state rbits (read_ordering_index R r) = read_ordering_index bits_reader (rbits r)"
  unfolding read_ordering_index_def by (auto intro!: map_state_and_then rd_bits sim)

lemma sim_read_reliability_data [sim]:
  "map_state rbits (read_reliability_data R r) = read_reliability_data bits_reader (rbits r)"
  unfolding read_reliability_data_def by (auto intro!: map_state_and_then rd_bits sim)

lemma sim_read_split_info [sim]:
  "map_state rbits (read_split_info R r) = read_split_info bits_reader (rbits r)"
  unfolding read_split_info_def by (auto intro!: map_state_and_then sim)

lemma sim_exact_aligned [sim]:
  "map_state rbits (br_exact R k (br_align R r)) =
   br_exact bits_reader k (br_align bits_reader (rbits r))"
proof -
  have "length (rbits (br_align R r)) mod 8 = 0"
    by (simp add: rd_align bits_reader_align minus_mod_eq_mult_div)
  then show ?thesis by (simp add: rd_exact rd_align)
qed

lemma sim_read_raknet_packet [sim]:
  "map_state rbits (read_raknet_packet R r) = read_raknet_packet bits_reader (rbits r)"
  unfolding read_raknet_packet_def by (auto intro!: map_state_and_then sim)

end

lemma read_ordering_wire:
  "read_ordering_index bits_reader (ordering_wire ord @ rest) = Ok (ord, rest)"
  by (simp add: read_ordering_index_def ordering_wire_def)

lemma read_reliability_wire:
  "read_reliability_data bits_reader (reliability_wire rel @ rest) = Ok (rel, rest)"
proof -
  have "take_bit 3 (reliability_id rel) = reliability_id rel" by (cases rel) simp_all
  then show ?thesis
    by (cases rel) (simp_all add: read_reliability_data_def reliability_wire_def read_ordering_wire)
qed

lemma read_split_wire:
  "read_split_info bits_reader (split_wire info @ rest) = Ok (seen_split info, rest)"
  by (simp add: read_split_info_def split_wire_def read_compressed_u32_wire seen_split_def)

lemma align_padding:
  assumes "k < 8" and "length rest mod 8 = 0"
  shows "br_align bits_reader (replicate k False @ rest) = rest"
proof -
  have "length (replicate k False @ rest) mod 8 = k" using assms by (simp add: mod_add_eq [symmetric])
  then show ?thesis by (simp add: bits_reader_align)
qed

lemma read_packet_wire:
  assumes "length (rak_data p) < 2 ^ 13" and "k < 8" and "length rest mod 8 = 0"
  shows "read_raknet_packet bits_reader
      (header_wire p @ replicate k False @ bytes_bits (rak_data p) @ rest) = Ok (seen_packet p, rest)"
proof -
  have n: "unat (of_nat (length (rak_data p) * 8) :: u16) = length (rak_data p) * 8"
    using assms(1) by (simp add: unat_of_nat take_bit_eq_mod del: of_nat_mult)
  have al: "br_align bits_reader (replicate k False @ bytes_bits (rak_data p) @ rest) =
      bytes_bits (rak_data p) @ rest"
    using assms by (intro align_padding) (simp_all add: mod_add_eq [symmetric])
  show ?thesis
    by (cases "split_info p")
      (simp_all add: read_raknet_packet_def header_wire_def read_reliability_wire read_split_wire
        read_compressed_u16_wire al n seen_packet_def del: of_nat_mult)
qed

section \<open>Every packet read consumes input\<close>

definition shrinks :: "nat \<Rightarrow> ('a \<times> bool list) res \<Rightarrow> bool" where
  "shrinks n m \<longleftrightarrow> (\<forall>a bs. m = Ok (a, bs) \<longrightarrow> length bs \<le> n)"

lemma shrinks_and_then:
  "shrinks n m \<Longrightarrow> (\<And>a bs. length bs \<le> n \<Longrightarrow> shrinks n (f (a, bs))) \<Longrightarrow> shrinks n (and_then m f)"
  by (cases m) (auto simp: shrinks_def)

lemma shrinks_basic:
  "length bs \<le> n \<Longrightarrow> shrinks n (Ok (a, bs))" "shrinks n (Err e)" "shrinks n Panic"
  "length bs \<le> n \<Longrightarrow> shrinks n (take_read k conv bs)"
  by (auto simp: shrinks_def dest: take_read_OkD)

lemma shrinks_ops:
  assumes "length bs \<le> n"
  shows "shrinks n (br_bit bits_reader bs)" "shrinks n (br_bits bits_reader k bs)"
    "shrinks n (br_u8 bits_reader bs)" "shrinks n (br_u16 bits_reader bs)"
    "shrinks n (br_u32 bits_reader bs)" "shrinks n (br_exact bits_reader k (br_align bits_reader bs))"
  using assms by (auto simp: bits_reader_def intro!: shrinks_basic)

lemma shrinks_high_bytes: "length bs \<le> n \<Longrightarrow> shrinks n (read_high_bytes bits_reader js acc bs)"
  by (induction js arbitrary: acc bs)
    (auto simp: read_high_bytes.simps intro!: shrinks_and_then shrinks_ops shrinks_basic)

lemma shrinks_compressed: "length bs \<le> n \<Longrightarrow> shrinks n (compressed_read bits_reader sz idx bs)"
  by (induction idx arbitrary: bs)
    (auto simp: compressed_read.simps
      intro!: shrinks_and_then shrinks_ops shrinks_basic shrinks_high_bytes)

lemma read_packet_shrinks:
  assumes "read_raknet_packet bits_reader bs = Ok (p, bs')"
  shows "length bs' < length bs"
proof -
  obtain x bs1 where x: "br_u32 bits_reader bs = Ok (x, bs1)"
    using assms by (auto simp: read_raknet_packet_def and_then_eq_Ok)
  then have l: "length bs1 + 32 = length bs"
    by (auto simp: bits_reader_def dest: take_read_OkD)
  have "shrinks (length bs1) (read_raknet_packet bits_reader bs)"
    unfolding read_raknet_packet_def x and_then.simps prod.case read_reliability_data_def
      read_ordering_index_def read_split_info_def read_compressed_u16_def read_compressed_u32_def
    by (auto intro!: shrinks_and_then shrinks_ops shrinks_basic shrinks_compressed split: if_splits)
  then show ?thesis using assms l by (simp add: shrinks_def)
qed

section \<open>Sizes\<close>

definition is_ordered :: "reliability_data \<Rightarrow> bool" where
  "is_ordered rel \<longleftrightarrow> reliability_of rel \<in> {UnreliableSequenced, ReliableOrdered}"

lemma length_reliability_wire: "length (reliability_wire rel) = 3 + (if is_ordered rel then 37 else 0)"
  by (cases rel) (simp_all add: reliability_wire_def ordering_wire_def is_ordered_def)

lemma length_split_wire: "length (split_wire info) \<le> 82"
  using length_compressed_u32_wire [of "split_index info"]
    length_compressed_u32_wire [of "split_count info"]
  by (simp add: split_wire_def)

lemma length_header_wire:
  "length (header_wire p) \<le> 53 + (if is_ordered (rel_data p) then 37 else 0) +
     (if split_info p = None then 0 else 82)"
  using length_compressed_u16_wire [of "of_nat (length (rak_data p) * 8)"]
    length_split_wire [of "the (split_info p)"]
  by (cases "split_info p") (simp_all add: header_wire_def length_reliability_wire)

section \<open>Both directions, for any conforming reader and writer\<close>

context reader_laws
begin

lemma read_packet_bits:
  assumes "length (rak_data p) < 2 ^ 13" and "k < 8" and "length rest mod 8 = 0"
    and "rbits r = header_wire p @ replicate k False @ bytes_bits (rak_data p) @ rest"
  shows "\<exists>r'. read_raknet_packet R r = Ok (seen_packet p, r') \<and> rbits r' = rest"
  using sim_read_raknet_packet [of r] read_packet_wire [OF assms(1-3)] assms(4)
  by (simp add: map_state_eq_Ok)

lemma read_reliability_panics:
  assumes "rbits r = low_bits 3 (rid :: u8) @ rest" and "4 \<le> rid" and "rid < 8"
  shows "read_reliability_data R r = Panic"
proof -
  have t: "take_bit 3 rid = rid" using assms(3) by (intro take_bit_small) (simp add: word_less_nat_alt)
  have ne: "rid \<noteq> 0" "rid \<noteq> 1" "rid \<noteq> 2" "rid \<noteq> 3" using assms(2) by (auto simp: word_le_nat_alt)
  have "map_state rbits (read_reliability_data R r) = Panic"
    unfolding sim_read_reliability_data assms(1)
    by (simp add: read_reliability_data_def t ne)
  then show ?thesis by (simp add: map_state_eq_Panic)
qed

lemma read_ordering_panics:
  assumes "rbits r = low_bits 3 (rid :: u8) @ low_bits 5 (ch :: u8) @ rest"
    and "rid = 1 \<or> rid = 3" and "ch \<noteq> 0" and "ch < 32"
  shows "read_reliability_data R r = Panic"
proof -
  have t: "take_bit 5 ch = ch" using assms(4) by (intro take_bit_small) (simp add: word_less_nat_alt)
  have "map_state rbits (read_reliability_data R r) = Panic"
    using assms(2,3) unfolding sim_read_reliability_data assms(1)
    by (auto simp: read_reliability_data_def read_ordering_index_def t)
  then show ?thesis by (simp add: map_state_eq_Panic)
qed

end

section \<open>Properties\<close>

text \<open>C23: a packet with less than $2^{13}$ bytes of data is written, from any position in the
  stream, as its header bits, padding to the byte boundary and its data; reading those bits gives
  the packet back, except that split indices and counts come back as the \<open>u32\<close> compression sees
  them, so the packet is unchanged exactly when these survive it.\<close>

theorem raknet_packet_roundtrip:
  assumes "codec_laws R rbits W wbits" and "length (rak_data p) < 2 ^ 13"
  shows "\<exists>w'. write_raknet_packet checks W p w = Ok w' \<and>
    wbits w' = pad_bits (wbits w @ header_wire p) @ bytes_bits (rak_data p) \<and>
    (\<forall>r k rest. k < 8 \<longrightarrow> length rest mod 8 = 0 \<longrightarrow>
       rbits r = header_wire p @ replicate k False @ bytes_bits (rak_data p) @ rest \<longrightarrow>
       (\<exists>r'. read_raknet_packet R r = Ok (seen_packet p, r') \<and> rbits r' = rest)) \<and>
    (seen_packet p = p \<longleftrightarrow> (\<forall>info. split_info p = Some info \<longrightarrow>
       compressed_u32_safe (split_index info) \<and> compressed_u32_safe (split_count info)))"
proof -
  have "seen_packet p = p \<longleftrightarrow> pred_option split_safe (split_info p)"
    by (cases p; cases "split_info p")
      (auto simp: seen_packet_def seen_split_def split_safe_def compressed_u32_seen_iff [symmetric]
        dest: arg_cong [of _ _ split_index] arg_cong [of _ _ split_count])
  then show ?thesis
    using writer_laws.write_packet_wire [OF codec_writer [OF assms(1)] assms(2), of checks w]
      reader_laws.read_packet_bits [OF codec_reader [OF assms(1)] assms(2)]
    by (auto simp: map_res_eq_Ok split_safe_def pred_option_def)
qed

definition sample_packet :: raknet_packet where
  "sample_packet = \<lparr>message_number = 7, rel_data = ReliableOrderedData 5,
     split_info = Some \<lparr>split_id = 1, split_index = 0, split_count = 2\<rparr>, rak_data = [1, 2, 3]\<rparr>"

theorem raknet_packet_roundtrip_witness:
  "\<exists>w'. write_raknet_packet True bits_writer sample_packet [True] = Ok w' \<and>
     w' = pad_bits (True # header_wire sample_packet) @ bytes_bits [1, 2, 3] \<and>
     seen_packet sample_packet = sample_packet"
  using raknet_packet_roundtrip [OF bits_codec, of sample_packet True "[True]"]
  by (auto simp: sample_packet_def compressed_u32_safe_def)

text \<open>Data of $2^{13}$ to $2^{16} - 1$ bytes does not fit the 16-bit length in bits: a build
  with overflow checks panics, one without them writes the length modulo $2^{16}$.\<close>

theorem long_data_overflows:
  assumes "writer_laws W wbits" and "2 ^ 13 \<le> length (rak_data p)" and "length (rak_data p) < 2 ^ 16"
  shows "write_raknet_packet True W p w = Panic \<and>
    data_bit_length False (rak_data p) = Ok (of_nat (length (rak_data p) * 8 mod 2 ^ 16))"
proof
  have n: "unat (of_nat (length (rak_data p)) :: u16) = length (rak_data p)"
    using assms(3) by (simp add: unat_of_nat take_bit_eq_mod)
  then have "data_bit_length True (rak_data p) = Panic"
    using assms(2) by (simp add: data_bit_length_def Let_def)
  moreover obtain w1 where "bw_u32 W (message_number p) w = Ok w1"
    using writer_laws.wr_u32 [OF assms(1)] by (auto simp: map_res_eq_Ok)
  moreover obtain w2 where "write_reliability_data W (rel_data p) w1 = Ok w2"
    using writer_laws.encodes_reliability [OF assms(1)] by (auto simp: encodes_def)
  moreover obtain w3 where "bw_bit W (split_info p \<noteq> None) w2 = Ok w3"
    using writer_laws.wr_bit [OF assms(1), of "split_info p \<noteq> None" w2] by (auto simp: map_res_eq_Ok)
  moreover have "and_then (write_split_info W info w3) (\<lambda>w. Panic) = Panic" for info
    using writer_laws.encodes_split [OF assms(1), of info]
    by (metis (no_types) and_then.simps(1) encodes_def)
  ultimately show "write_raknet_packet True W p w = Panic"
    by (cases "split_info p") (auto simp: write_raknet_packet_def)
  show "data_bit_length False (rak_data p) = Ok (of_nat (length (rak_data p) * 8 mod 2 ^ 16))"
  proof -
    have "(of_nat (m mod 2 ^ 16) :: u16) = of_nat m" for m
      by (simp only: word_unat_eq_iff unat_of_nat take_bit_eq_mod) simp
    then show ?thesis by (simp only: data_bit_length_def Let_def) simp
  qed
qed

theorem long_data_overflows_witness:
  "write_raknet_packet True bits_writer (sample_packet\<lparr>rak_data := replicate 8192 0\<rparr>) [] = Panic \<and>
   data_bit_length False (replicate 8192 0) = Ok 0"
  using long_data_overflows [OF codec_writer [OF bits_codec],
      of "sample_packet\<lparr>rak_data := replicate 8192 0\<rparr>" "[]"] by simp

text \<open>A reliability id above 3, or a non-zero ordering channel, panics the reader; it is not
  reported as an error.\<close>

theorem malformed_reliability_panics:
  assumes "reader_laws R rbits"
    and "rbits r = low_bits 3 (rid :: u8) @ low_bits 5 (ch :: u8) @ rest" and "rid < 8" and "ch < 32"
    and "4 \<le> rid \<or> (rid = 1 \<or> rid = 3) \<and> ch \<noteq> 0"
  shows "read_reliability_data R r = Panic"
  using assms(5) reader_laws.read_reliability_panics [OF assms(1,2) _ assms(3)]
    reader_laws.read_ordering_panics [OF assms(1,2) _ _ assms(4)] by blast

theorem malformed_reliability_panics_witness:
  "read_reliability_data bits_reader (low_bits 3 (4 :: u8) @ low_bits 5 (0 :: u8) @ []) = Panic \<and>
   read_reliability_data bits_reader (low_bits 3 (3 :: u8) @ low_bits 5 (1 :: u8) @ []) = Panic"
  using malformed_reliability_panics [OF codec_reader [OF bits_codec], of _ 4 0 "[]"]
    malformed_reliability_panics [OF codec_reader [OF bits_codec], of _ 3 1 "[]"] by simp

end
