(* ===== verification/Recv.thy ===== *)
theory Recv
  imports RangeList Packet
begin

text \<open>
  \<open>src/raknet/recv.rs\<close>: the receiving half of a RakNet connection. Parsing a datagram into
  packets, recording acknowledgements, reassembling split packets, dropping outdated sequenced
  packets and releasing ordered packets in order.
\<close>

section \<open>State\<close>

text \<open>The two hash maps are association lists; the code never iterates over them.\<close>

record receive_part =
  unrel_seq_index :: u32
  rel_ord_index :: u32
  out_of_order_packets :: "(u32 \<times> packet) list"
  split_packet_queue :: "(u16 \<times> u8 list option list) list"

definition receive_part_default :: receive_part where
  "receive_part_default = \<lparr>unrel_seq_index = 0, rel_ord_index = 0, out_of_order_packets = [],
     split_packet_queue = []\<rparr>"

text \<open>The variables \<open>process_incoming_packets\<close> updates: \<open>self\<close>, \<open>acks\<close>, \<open>closed\<close> and the vector it
  returns.\<close>

record rx =
  rx_part :: receive_part
  rx_acks :: range_list
  rx_closed :: bool
  rx_out :: "packet list"

section \<open>Parsing\<close>

text \<open>\<open>parse_packets\<close> reads until the first error. With an arbitrary reader the loop need not
  end, which is the value \<open>None\<close>.\<close>

partial_function (option) parse_loop ::
  "'r bit_reader \<Rightarrow> raknet_packet list \<Rightarrow> 'r \<Rightarrow> raknet_packet list res option" where
  "parse_loop R acc r =
     (case read_raknet_packet R r of
        Ok (p, r') \<Rightarrow> parse_loop R (acc @ [p]) r'
      | Err _ \<Rightarrow> Some (Ok acc)
      | Panic \<Rightarrow> Some Panic)"

definition parse_packets :: "'r bit_reader \<Rightarrow> 'r \<Rightarrow> raknet_packet list res option" where
  "parse_packets R r = parse_loop R [] r"

section \<open>One packet\<close>

definition ack_packet :: "raknet_packet \<Rightarrow> range_list \<Rightarrow> range_list res" where
  "ack_packet p acks =
     (case rel_data p of
        ReliableData \<Rightarrow> rl_insert acks (message_number p)
      | ReliableOrderedData _ \<Rightarrow> rl_insert acks (message_number p)
      | _ \<Rightarrow> Ok acks)"

fun assemble :: "u8 list option list \<Rightarrow> u8 list" where
  "assemble [] = []"
| "assemble (Some x # parts) = x @ assemble parts"
| "assemble (None # parts) = assemble parts"

text \<open>The split packet block: \<open>None\<close> is \<open>continue\<close>, \<open>Some\<close> the packet to go on with.\<close>

definition take_split ::
  "raknet_packet \<Rightarrow> receive_part \<Rightarrow> (raknet_packet option \<times> receive_part) res" where
  "take_split p rp =
     (case split_info p of
        None \<Rightarrow> Ok (Some p, rp)
      | Some split \<Rightarrow>
          if \<not> split_count split > 1 then Panic
          else
            (case map_of (split_packet_queue rp) (split_id split) of
               None \<Rightarrow>
                 let parts = replicate (unat (split_count split)) None in
                 if unat (split_index split) < length parts then
                   let parts = parts[unat (split_index split) := Some (rak_data p)] in
                   Ok (None, rp\<lparr>split_packet_queue :=
                     AList.update (split_id split) parts (split_packet_queue rp)\<rparr>)
                 else Panic
             | Some parts \<Rightarrow>
                 if unat (split_index split) < length parts then
                   let parts = parts[unat (split_index split) := Some (rak_data p)] in
                   if list_all (\<lambda>part. part \<noteq> None) parts then
                     Ok (Some (p\<lparr>rak_data := assemble parts\<rparr>), rp\<lparr>split_packet_queue :=
                       AList.delete (split_id split) (split_packet_queue rp)\<rparr>)
                   else Ok (None, rp\<lparr>split_packet_queue :=
                     AList.update (split_id split) parts (split_packet_queue rp)\<rparr>)
                 else Panic))"

text \<open>Releasing the queued packets that follow directly.\<close>

lemma length_delete_less: "map_of q k = Some x \<Longrightarrow> length (AList.delete k q) < length q"
  unfolding AList.delete_eq by (rule length_filter_less [where x = "(k, x)"]) (auto dest: map_of_SomeD)

function drain ::
  "u32 \<Rightarrow> (u32 \<times> packet) list \<Rightarrow> packet list \<Rightarrow> u32 \<times> (u32 \<times> packet) list \<times> packet list" where
  "drain idx q out =
     (case map_of q idx of
        Some x \<Rightarrow> drain (idx + 1) (AList.delete idx q) (out @ [x])
      | None \<Rightarrow> (idx, q, out))"
  by pat_completeness auto
termination
  by (relation "measure (\<lambda>(idx, q, out). length q)") (auto intro: length_delete_less)

declare drain.simps [simp del]

text \<open>\<open>u32::max_value() / 2\<close>\<close>

definition half_range :: u32 where
  "half_range = (- 1) div 2"

lemma unat_half_range: "unat half_range = 2 ^ 31 - 1"
  by (simp add: half_range_def)

definition deliver :: "raknet_packet \<Rightarrow> receive_part \<Rightarrow> packet list \<Rightarrow> receive_part \<times> packet list" where
  "deliver p rp out =
     (case rel_data p of
        UnreliableSequencedData ord \<Rightarrow>
          if ord - unrel_seq_index rp < half_range
          then (rp\<lparr>unrel_seq_index := ord + 1\<rparr>, out @ [packet_of p])
          else (rp, out)
      | ReliableOrderedData ord \<Rightarrow>
          if ord = rel_ord_index rp then
            (case drain (rel_ord_index rp + 1) (out_of_order_packets rp) (out @ [packet_of p]) of
               (idx, q, out) \<Rightarrow> (rp\<lparr>rel_ord_index := idx, out_of_order_packets := q\<rparr>, out))
          else if ord - rel_ord_index rp < half_range then
            (rp\<lparr>out_of_order_packets := AList.update ord (packet_of p) (out_of_order_packets rp)\<rparr>, out)
          else (rp, out)
      | _ \<Rightarrow> (rp, out @ [packet_of p]))"

definition process_packet :: "raknet_packet \<Rightarrow> rx \<Rightarrow> rx res" where
  "process_packet p s =
     and_then (ack_packet p (rx_acks s)) (\<lambda>acks.
     and_then (take_split p (rx_part s)) (\<lambda>(q, rp).
       case q of
         None \<Rightarrow> Ok (s\<lparr>rx_acks := acks, rx_part := rp\<rparr>)
       | Some p \<Rightarrow>
           if is_disconnect (rak_data p)
           then Ok (s\<lparr>rx_acks := acks, rx_part := rp, rx_closed := True\<rparr>)
           else
             (case deliver p rp (rx_out s) of
                (rp, out) \<Rightarrow> Ok (s\<lparr>rx_acks := acks, rx_part := rp, rx_out := out\<rparr>))))"

section \<open>A list of packets\<close>

fun process_loop :: "raknet_packet list \<Rightarrow> rx \<Rightarrow> rx res" where
  "process_loop [] s = Ok s"
| "process_loop (p # ps) s = and_then (process_packet p s) (process_loop ps)"

definition process_incoming_packets ::
  "receive_part \<Rightarrow> raknet_packet list \<Rightarrow> range_list \<Rightarrow> bool \<Rightarrow> rx res" where
  "process_incoming_packets rp ps acks closed =
     process_loop ps \<lparr>rx_part = rp, rx_acks = acks, rx_closed = closed, rx_out = []\<rparr>"

lemma process_loop_append:
  "process_loop (ps @ qs) st = and_then (process_loop ps st) (process_loop qs)"
proof (induction ps arbitrary: st)
  case (Cons p ps)
  then have "process_loop (ps @ qs) = (\<lambda>st. and_then (process_loop ps st) (process_loop qs))" by blast
  then show ?case by simp
qed simp

section \<open>Parsing terminates\<close>

lemma bits_parse_loop_ends: "\<exists>res. parse_loop bits_reader acc bs = Some res"
proof (induction bs arbitrary: acc rule: length_induct)
  case (1 bs)
  show ?case
  proof (cases "read_raknet_packet bits_reader bs")
    case (Ok x)
    then obtain p bs' where x: "read_raknet_packet bits_reader bs = Ok (p, bs')" by (cases x) auto
    then show ?thesis
      using "1.IH" read_packet_shrinks [OF x] by (simp add: parse_loop.simps [of _ acc bs])
  qed (simp_all add: parse_loop.simps [of _ acc bs])
qed

context reader_laws
begin

lemma sim_parse_loop: "parse_loop R acc r = parse_loop bits_reader acc (rbits r)"
proof (induction "rbits r" arbitrary: acc r rule: length_induct)
  case (1 r)
  show ?case
  proof (cases "read_raknet_packet R r")
    case (Ok x)
    then obtain p r' where x: "read_raknet_packet R r = Ok (p, r')" by (cases x) auto
    then have y: "read_raknet_packet bits_reader (rbits r) = Ok (p, rbits r')"
      using sim_read_raknet_packet [of r] by simp
    from "1.hyps" read_packet_shrinks [OF y]
    have "parse_loop R (acc @ [p]) r' = parse_loop bits_reader (acc @ [p]) (rbits r')" by simp
    then show ?thesis using x y by (simp add: parse_loop.simps [of _ acc])
  next
    case (Err e)
    then have "read_raknet_packet bits_reader (rbits r) = Err e"
      using sim_read_raknet_packet [of r] by simp
    then show ?thesis using Err by (simp add: parse_loop.simps [of _ acc])
  next
    case Panic
    then have "read_raknet_packet bits_reader (rbits r) = Panic"
      using sim_read_raknet_packet [of r] by simp
    then show ?thesis using Panic by (simp add: parse_loop.simps [of _ acc])
  qed
qed

lemma sim_parse_packets: "parse_packets R r = parse_packets bits_reader (rbits r)"
  by (simp add: parse_packets_def sim_parse_loop)

lemma parse_packets_ends: "\<exists>res. parse_packets R r = Some res"
  using bits_parse_loop_ends by (simp add: sim_parse_packets) (simp add: parse_packets_def)

end

section \<open>Draining the queue\<close>

lemma drain_None: "map_of q idx = None \<Longrightarrow> drain idx q out = (idx, q, out)"
  by (simp add: drain.simps)

lemma drain_Some:
  "map_of q idx = Some x \<Longrightarrow> drain idx q out = drain (idx + 1) (AList.delete idx q) (out @ [x])"
  by (subst drain.simps) simp

text \<open>The queue holds exactly the messages whose positions are in \<open>P\<close>; message \<open>k\<close> of the
  stream has ordering index \<open>s + k\<close>.\<close>

definition queued :: "u32 \<Rightarrow> (nat \<Rightarrow> packet) \<Rightarrow> nat set \<Rightarrow> (u32 \<times> packet) list \<Rightarrow> bool" where
  "queued s src P q \<longleftrightarrow>
     (\<forall>w x. map_of q w = Some x \<longleftrightarrow> (\<exists>k\<in>P. w = s + of_nat k \<and> x = src k))"

definition window :: nat where
  "window = 2 ^ 31 - 1"

lemma of_nat_window_eq:
  assumes "m \<le> k" "k < m + 2 ^ 32" "m \<le> j" "j < m + 2 ^ 32" and "s + of_nat k = s + (of_nat j :: u32)"
  shows "k = j"
proof -
  have "(of_nat (k - m) :: u32) = of_nat (j - m)" using assms by (simp add: of_nat_diff)
  then have "k - m = j - m" using assms by (subst (asm) of_nat_u32_eq_iff) auto
  then show ?thesis using assms by simp
qed

lemma drain_queued:
  assumes "queued s src P q" and "\<forall>k\<in>P. m \<le> k \<and> k < m + window"
  shows "\<exists>m' q'. m \<le> m' \<and> {m..<m'} \<subseteq> P \<and> m' \<notin> P \<and> queued s src (P - {m..<m'}) q' \<and>
    drain (s + of_nat m) q out = (s + of_nat m', q', out @ map src [m..<m'])"
  using assms
proof (induction "length q" arbitrary: m P q out rule: less_induct)
  case less
  have inj: "k = m" if "k \<in> P" "(of_nat m :: u32) = of_nat k" for k
    using of_nat_window_eq [of m k m s] less.prems(2) that by (auto simp: window_def)
  show ?case
  proof (cases "m \<in> P")
    case False
    then have "map_of q (s + of_nat m) = None"
      using less.prems(1) inj by (auto simp: queued_def simp flip: not_Some_eq)
    then show ?thesis using False less.prems
      by (intro exI [of _ m] exI [of _ q]) (simp add: drain_None)
  next
    case True
    then have x: "map_of q (s + of_nat m) = Some (src m)" using less.prems(1) by (auto simp: queued_def)
    let ?q = "AList.delete (s + of_nat m) q"
    have "queued s src (P - {m}) ?q"
      using less.prems(1) inj by (fastforce simp: queued_def AList.delete_conv')
    moreover have "\<forall>k\<in>P - {m}. Suc m \<le> k \<and> k < Suc m + window" using less.prems(2) by fastforce
    ultimately obtain m' q' where *: "Suc m \<le> m'" "{Suc m..<m'} \<subseteq> P - {m}" "m' \<notin> P - {m}"
      "queued s src (P - {m} - {Suc m..<m'}) q'"
      "drain (s + of_nat (Suc m)) ?q (out @ [src m]) =
        (s + of_nat m', q', (out @ [src m]) @ map src [Suc m..<m'])"
      using less.hyps [OF length_delete_less [OF x], of "P - {m}" "Suc m" "out @ [src m]"] by blast
    have "{m..<m'} = insert m {Suc m..<m'}" "[m..<m'] = m # [Suc m..<m']"
      using *(1) by (auto simp: upt_conv_Cons)
    moreover from this have "P - {m..<m'} = P - {m} - {Suc m..<m'}" by auto
    moreover have "drain (s + of_nat m) q out = drain (s + of_nat (Suc m)) ?q (out @ [src m])"
      by (simp add: drain_Some [OF x] add.commute add.left_commute)
    ultimately show ?thesis using * True
      by (intro exI [of _ m'] exI [of _ q']) auto
  qed
qed

section \<open>Ordered delivery against its specification\<close>

text \<open>\<open>A\<close> is the set of stream positions that have arrived and \<open>n\<close> the first that has not: the
  receiver expects \<open>n\<close> next and has queued what arrived beyond it.\<close>

definition ordered_inv :: "u32 \<Rightarrow> (nat \<Rightarrow> packet) \<Rightarrow> nat set \<Rightarrow> nat \<Rightarrow> receive_part \<Rightarrow> bool" where
  "ordered_inv s src A n rp \<longleftrightarrow>
     {..<n} \<subseteq> A \<and> n \<notin> A \<and> A \<subseteq> {..<n + window} \<and>
     rel_ord_index rp = s + of_nat n \<and>
     queued s src (A - {..<n}) (out_of_order_packets rp)"

lemma ordered_inv_start:
  "rel_ord_index rp = s \<Longrightarrow> out_of_order_packets rp = [] \<Longrightarrow> ordered_inv s src {} 0 rp"
  by (simp add: ordered_inv_def queued_def)

lemma unat_ahead:
  "n \<le> k \<Longrightarrow> k - n < 2 ^ 32 \<Longrightarrow> unat (s + of_nat k - (s + of_nat n) :: u32) = k - n"
  by (simp flip: of_nat_diff)

lemma half_range_ahead:
  "n \<le> k \<Longrightarrow> k < n + window \<Longrightarrow> s + of_nat k - (s + of_nat n) < half_range"
  unfolding word_less_nat_alt unat_half_range window_def by (subst unat_ahead) simp_all

lemma half_range_behind:
  assumes "k < n" and "n \<le> k + 2 ^ 31"
  shows "\<not> s + of_nat k - (s + of_nat n) < half_range"
proof -
  have "s + of_nat k - (s + of_nat n) = (of_nat (2 ^ 32 - (n - k)) :: u32)"
    using assms by (simp add: of_nat_diff)
  then show ?thesis using assms
    by (simp add: word_less_nat_alt unat_half_range del: add_diff_cancel_left of_nat_diff)
qed

lemma queued_update:
  assumes "queued s src P q" and "\<forall>j\<in>P. n \<le> j \<and> j < n + window" and "n \<le> k" "k < n + window"
  shows "queued s src (insert k P) (AList.update (s + of_nat k) (src k) q)"
proof -
  have inj: "j = k" if "j \<in> P" "(of_nat k :: u32) = of_nat j" for j
    using of_nat_window_eq [of n j k s] assms that by (auto simp: window_def)
  show ?thesis using assms(1) inj by (fastforce simp: queued_def AList.update_conv')
qed

lemma deliver_early:
  assumes "ordered_inv s src A n rp" and "n < k" and "k < n + window"
    and "rel_data p = ReliableOrderedData (s + of_nat k)" and "packet_of p = src k"
  shows "\<exists>rp'. deliver p rp out = (rp', out) \<and> ordered_inv s src (insert k A) n rp'"
proof -
  have "s + of_nat k \<noteq> s + (of_nat n :: u32)"
    using of_nat_window_eq [of n k n s] assms(2,3) by (auto simp: window_def)
  moreover have "queued s src (insert k (A - {..<n}))
      (AList.update (s + of_nat k) (src k) (out_of_order_packets rp))"
    using assms by (intro queued_update [of _ _ _ _ n]) (auto simp: ordered_inv_def)
  moreover have "insert k A - {..<n} = insert k (A - {..<n})" using assms(2) by auto
  ultimately show ?thesis using assms half_range_ahead [of n k s]
    by (auto simp: deliver_def ordered_inv_def)
qed

lemma deliver_next:
  assumes inv: "ordered_inv s src A n rp"
    and "rel_data p = ReliableOrderedData (s + of_nat n)" and "packet_of p = src n"
  shows "\<exists>rp' n'. n < n' \<and> deliver p rp out = (rp', out @ map src [n..<n']) \<and>
    ordered_inv s src (insert n A) n' rp'"
proof -
  let ?P = "A - {..<n}"
  have P: "queued s src ?P (out_of_order_packets rp)" "\<forall>k\<in>?P. Suc n \<le> k \<and> k < Suc n + window"
  proof -
    show "queued s src ?P (out_of_order_packets rp)" using inv by (simp add: ordered_inv_def)
    have "n \<notin> A" "A \<subseteq> {..<n + window}" using inv by (simp_all add: ordered_inv_def)
    then have "Suc n \<le> k \<and> k < Suc n + window" if "k \<in> ?P" for k
      using that by (cases "k = n") auto
    then show "\<forall>k\<in>?P. Suc n \<le> k \<and> k < Suc n + window" by blast
  qed
  obtain n' q' where d: "Suc n \<le> n'" "{Suc n..<n'} \<subseteq> ?P" "n' \<notin> ?P"
    "queued s src (?P - {Suc n..<n'}) q'"
    "drain (s + of_nat (Suc n)) (out_of_order_packets rp) (out @ [src n]) =
      (s + of_nat n', q', (out @ [src n]) @ map src [Suc n..<n'])"
    using drain_queued [OF P, of "out @ [src n]"] by blast
  have low: "{..<n} \<subseteq> A" "n \<notin> A" "A \<subseteq> {..<n + window}" "rel_ord_index rp = s + of_nat n"
    using inv by (auto simp: ordered_inv_def)
  have split: "{..<n'} = {..<n} \<union> {n} \<union> {Suc n..<n'}" using d(1) by auto
  then have eq: "?P - {Suc n..<n'} = insert n A - {..<n'}" using low(2) by blast
  have "ordered_inv s src (insert n A) n'
      (rp\<lparr>rel_ord_index := s + of_nat n', out_of_order_packets := q'\<rparr>)"
    using d low split by (auto simp: ordered_inv_def eq window_def)
  moreover have "[n..<n'] = n # [Suc n..<n']" using d(1) by (simp add: upt_conv_Cons)
  moreover have "deliver p rp out = (rp\<lparr>rel_ord_index := s + of_nat n', out_of_order_packets := q'\<rparr>,
      out @ src n # map src [Suc n..<n'])"
    using d(5) assms(2,3) low(4) by (simp add: deliver_def add.commute add.left_commute)
  ultimately show ?thesis using d(1) by (metis Suc_le_eq list.simps(9))
qed

lemma deliver_ordered:
  assumes "ordered_inv s src A n rp" and "k < n + window" and "n \<le> k + 2 ^ 31"
    and "rel_data p = ReliableOrderedData (s + of_nat k)" and "packet_of p = src k"
  shows "\<exists>rp' n'. n \<le> n' \<and> deliver p rp out = (rp', out @ map src [n..<n']) \<and>
    ordered_inv s src (insert k A) n' rp'"
proof -
  consider "k < n" | "k = n" | "n < k" by linarith
  then show ?thesis
  proof cases
    case 1
    then have "s + of_nat k \<noteq> s + (of_nat n :: u32)"
      using of_nat_window_eq [of k n k s] assms(3) by auto
    moreover have "insert k A = A" using 1 assms(1) by (auto simp: ordered_inv_def)
    ultimately have "deliver p rp out = (rp, out @ map src [n..<n]) \<and> ordered_inv s src (insert k A) n rp"
      using half_range_behind [OF 1 assms(3), of s] assms(1,4)
      by (simp add: deliver_def ordered_inv_def del: add_diff_cancel_left)
    then show ?thesis by blast
  next
    case 2
    then show ?thesis using deliver_next [OF assms(1), of p out] assms(4,5)
      by (metis less_imp_le)
  next
    case 3
    then obtain rp' where "deliver p rp out = (rp', out)" "ordered_inv s src (insert k A) n rp'"
      using deliver_early [OF assms(1) _ assms(2,4,5), of out] by blast
    then show ?thesis by (intro exI [of _ rp'] exI [of _ n]) simp
  qed
qed

section \<open>Runs over a list of packets\<close>

lemma ack_packet_ok: "\<exists>acks'. ack_packet p acks = Ok acks'"
  by (cases "rel_data p") (simp_all add: ack_packet_def rl_insert_eq)

lemma process_plain:
  assumes "split_info p = None" and "\<not> is_disconnect (rak_data p)"
    and "deliver p (rx_part s) (rx_out s) = (rp, out)"
  shows "\<exists>acks. process_packet p s = Ok (s\<lparr>rx_acks := acks, rx_part := rp, rx_out := out\<rparr>)"
  using ack_packet_ok [of p "rx_acks s"] assms by (auto simp: process_packet_def take_split_def)

text \<open>\<open>p\<close> carries position \<open>k\<close> of a stream of reliable ordered messages that starts at index \<open>s\<close>.\<close>

definition carries :: "u32 \<Rightarrow> (nat \<Rightarrow> u8 list) \<Rightarrow> nat \<Rightarrow> raknet_packet \<Rightarrow> bool" where
  "carries s bytes k p \<longleftrightarrow> rel_data p = ReliableOrderedData (s + of_nat k) \<and>
     split_info p = None \<and> rak_data p = bytes k"

definition ordered_packet :: "(nat \<Rightarrow> u8 list) \<Rightarrow> nat \<Rightarrow> packet" where
  "ordered_packet bytes k = mk_packet ReliableOrdered (bytes k)"

lemma process_ordered_loop:
  assumes "list_all2 (carries s bytes) ks ps" and "\<forall>p\<in>set ps. \<not> is_disconnect (rak_data p)"
    and "\<forall>k\<in>set ks. k < window"
    and "ordered_inv s (ordered_packet bytes) A n (rx_part st)" and "A \<subseteq> {..<window}"
  shows "\<exists>st' n'. process_loop ps st = Ok st' \<and> n \<le> n' \<and>
    rx_out st' = rx_out st @ map (ordered_packet bytes) [n..<n'] \<and> rx_closed st' = rx_closed st \<and>
    ordered_inv s (ordered_packet bytes) (A \<union> set ks) n' (rx_part st')"
  using assms
proof (induction ks ps arbitrary: A n st rule: list_all2_induct)
  case Nil
  then show ?case by (intro exI [of _ st] exI [of _ n]) simp
next
  case (Cons k ks p ps)
  have p: "rel_data p = ReliableOrderedData (s + of_nat k)" "split_info p = None"
    "rak_data p = bytes k" "packet_of p = ordered_packet bytes k"
    using Cons.hyps(1) by (auto simp: carries_def packet_of_def ordered_packet_def)
  have "{..<n} \<subseteq> A" using Cons.prems(3) by (simp add: ordered_inv_def)
  then have "{..<n} \<subseteq> {..<window}" using Cons.prems(4) by (rule order_trans)
  then have "k < n + window" "n \<le> k + 2 ^ 31"
    using Cons.prems(2) by (auto simp: window_def)
  then obtain rp n1 where d: "n \<le> n1"
    "deliver p (rx_part st) (rx_out st) = (rp, rx_out st @ map (ordered_packet bytes) [n..<n1])"
    "ordered_inv s (ordered_packet bytes) (insert k A) n1 rp"
    using deliver_ordered [OF Cons.prems(3) _ _ p(1,4)] by blast
  obtain acks where step: "process_packet p st = Ok (st\<lparr>rx_acks := acks, rx_part := rp,
      rx_out := rx_out st @ map (ordered_packet bytes) [n..<n1]\<rparr>)" (is "_ = Ok ?st")
    using process_plain [OF p(2) _ d(2)] Cons.prems(1) p(3) by auto
  obtain st' n' where r: "process_loop ps ?st = Ok st'" "n1 \<le> n'"
    "rx_out st' = rx_out ?st @ map (ordered_packet bytes) [n1..<n']" "rx_closed st' = rx_closed ?st"
    "ordered_inv s (ordered_packet bytes) (insert k A \<union> set ks) n' (rx_part st')"
    using Cons.IH [of "insert k A" n1 ?st] Cons.prems d(3) by auto
  have "map (ordered_packet bytes) [n..<n1] @ map (ordered_packet bytes) [n1..<n'] =
      map (ordered_packet bytes) [n..<n']"
    using d(1) r(2) by (metis le_add_diff_inverse map_append upt_add_eq_append)
  then show ?case using step r d(1)
    by (intro exI [of _ st'] exI [of _ n']) simp
qed

section \<open>Sequenced packets\<close>

text \<open>The positions a receiver that expects at least \<open>n\<close> accepts: each new maximum.\<close>

fun newest :: "nat \<Rightarrow> nat list \<Rightarrow> nat list" where
  "newest n [] = []"
| "newest n (k # ks) = (if n \<le> k then k # newest (Suc k) ks else newest n ks)"

lemma newest_bounds: "j \<in> set (newest n ks) \<Longrightarrow> n \<le> j \<and> j \<in> set ks"
  by (induction n ks rule: newest.induct) (auto split: if_splits)

lemma sorted_newest: "sorted_wrt (<) (newest n ks)"
  by (induction n ks rule: newest.induct) (auto dest: newest_bounds)

lemma Max_insert_less: "j \<in> set ks \<Longrightarrow> k \<le> j \<Longrightarrow> Max (insert k (set ks)) = Max (set (ks :: nat list))"
  by (subst Max_insert) (auto intro!: max_absorb2 intro: order_trans [OF _ Max_ge])

lemma newest_Max: "\<exists>k\<in>set ks. n \<le> k \<Longrightarrow> newest n ks \<noteq> [] \<and> last (newest n ks) = Max (set ks)"
proof (induction n ks rule: newest.induct)
  case (2 n k ks)
  show ?case
  proof (cases "\<exists>j\<in>set ks. (if n \<le> k then Suc k else n) \<le> j")
    case True
    then obtain j where j: "j \<in> set ks" "k \<le> j" by (auto split: if_splits)
    show ?thesis using "2.IH" True by (auto simp: Max_insert_less [OF j] split: if_splits)
  next
    case False
    then have "n \<le> k" using "2.prems" by (auto split: if_splits)
    then have "newest (Suc k) ks = []"
      using False newest_bounds [of _ "Suc k" ks] by (cases "newest (Suc k) ks") auto
    moreover have "Max (insert k (set ks)) = k"
      using False \<open>n \<le> k\<close> by (intro Max_eqI) (auto simp: not_le less_Suc_eq_le)
    ultimately show ?thesis using \<open>n \<le> k\<close> by simp
  qed
qed simp

text \<open>These are the elements greater than every one before them.\<close>

lemma newest_filter:
  "newest n ks = map ((!) ks) (filter (\<lambda>i. n \<le> ks ! i \<and> (\<forall>j<i. ks ! j < ks ! i)) [0..<length ks])"
proof (induction n ks rule: newest.induct)
  case (2 n k ks)
  have upt: "[0..<length (k # ks)] = 0 # map Suc [0..<length ks]"
    by (simp add: upt_conv_Cons map_Suc_upt del: upt_Suc)
  have all: "n \<le> (k # ks) ! Suc i \<and> (\<forall>j<Suc i. (k # ks) ! j < (k # ks) ! Suc i) \<longleftrightarrow>
      (if n \<le> k then Suc k else n) \<le> ks ! i \<and> (\<forall>j<i. ks ! j < ks ! i)" for i
    by (auto simp: All_less_Suc2)
  show ?case unfolding upt filter.simps filter_map comp_def all using "2.IH" by (simp add: comp_def)
qed simp

definition carries_seq :: "u32 \<Rightarrow> (nat \<Rightarrow> u8 list) \<Rightarrow> nat \<Rightarrow> raknet_packet \<Rightarrow> bool" where
  "carries_seq s bytes k p \<longleftrightarrow> rel_data p = UnreliableSequencedData (s + of_nat k) \<and>
     split_info p = None \<and> rak_data p = bytes k"

definition sequenced_packet :: "(nat \<Rightarrow> u8 list) \<Rightarrow> nat \<Rightarrow> packet" where
  "sequenced_packet bytes k = mk_packet UnreliableSequenced (bytes k)"

lemma deliver_sequenced:
  assumes "unrel_seq_index rp = s + of_nat n" and "k < n + window" and "n \<le> k + 2 ^ 31"
    and "rel_data p = UnreliableSequencedData (s + of_nat k)"
  shows "deliver p rp out =
    (if n \<le> k then (rp\<lparr>unrel_seq_index := s + of_nat (Suc k)\<rparr>, out @ [packet_of p]) else (rp, out))"
  using assms half_range_ahead [of n k s] half_range_behind [of k n s]
  by (auto simp: deliver_def add.commute add.left_commute not_le simp del: add_diff_cancel_left)

lemma process_sequenced_loop:
  assumes "list_all2 (carries_seq s bytes) ks ps" and "\<forall>p\<in>set ps. \<not> is_disconnect (rak_data p)"
    and "\<forall>k\<in>set ks. k < window" and "unrel_seq_index (rx_part st) = s + of_nat n" and "n \<le> window"
  shows "\<exists>st'. process_loop ps st = Ok st' \<and> rx_closed st' = rx_closed st \<and>
    rx_out st' = rx_out st @ map (sequenced_packet bytes) (newest n ks)"
  using assms
proof (induction ks ps arbitrary: n st rule: list_all2_induct)
  case Nil
  then show ?case by simp
next
  case (Cons k ks p ps)
  have p: "rel_data p = UnreliableSequencedData (s + of_nat k)" "split_info p = None"
    "rak_data p = bytes k" "packet_of p = sequenced_packet bytes k"
    using Cons.hyps(1) by (auto simp: carries_seq_def packet_of_def sequenced_packet_def)
  have "k < n + window" "n \<le> k + 2 ^ 31" using Cons.prems by (auto simp: window_def)
  note d = deliver_sequenced [OF Cons.prems(3) this p(1), of "rx_out st"]
  show ?case
  proof (cases "n \<le> k")
    case True
    then obtain acks where "process_packet p st = Ok (st\<lparr>rx_acks := acks,
        rx_part := rx_part st\<lparr>unrel_seq_index := s + of_nat (Suc k)\<rparr>,
        rx_out := rx_out st @ [sequenced_packet bytes k]\<rparr>)" (is "_ = Ok ?st")
      using process_plain [OF p(2) _ d [unfolded if_P [OF True]]] Cons.prems(1) p(3,4) by auto
    then show ?thesis using Cons.IH [of ?st "Suc k"] Cons.prems True by (auto simp: Suc_le_eq)
  next
    case False
    then obtain acks where "process_packet p st = Ok (st\<lparr>rx_acks := acks, rx_part := rx_part st,
        rx_out := rx_out st\<rparr>)" (is "_ = Ok ?st")
      using process_plain [OF p(2) _ d [unfolded if_not_P [OF False]]] Cons.prems(1) p(3) by auto
    then show ?thesis using Cons.IH [of ?st n] Cons.prems False by auto
  qed
qed

section \<open>Reassembly\<close>

text \<open>The parts of \<open>ds\<close> whose indices are in \<open>I\<close>.\<close>

definition collected :: "u8 list list \<Rightarrow> nat set \<Rightarrow> u8 list option list" where
  "collected ds I = map (\<lambda>i. if i \<in> I then Some (ds ! i) else None) [0..<length ds]"

lemma length_collected [simp]: "length (collected ds I) = length ds"
  by (simp add: collected_def)

lemma collected_empty: "collected ds {} = replicate (length ds) None"
  by (simp add: collected_def map_replicate_const)

lemma collected_insert:
  "i < length ds \<Longrightarrow> (collected ds I)[i := Some (ds ! i)] = collected ds (insert i I)"
  by (rule nth_equalityI) (auto simp: collected_def nth_list_update)

lemma collected_ready:
  "list_all (\<lambda>part. part \<noteq> None) (collected ds I) \<longleftrightarrow> {..<length ds} \<subseteq> I"
  by (auto simp: collected_def list_all_iff split: if_splits)

lemma assemble_Some: "assemble (map Some ds) = concat ds"
  by (induction ds) simp_all

lemma collected_all: "{..<length ds} \<subseteq> I \<Longrightarrow> collected ds I = map Some ds"
  by (rule nth_equalityI) (auto simp: collected_def subset_iff)

text \<open>The queue entry of \<open>sid\<close> when the parts in \<open>I\<close> have arrived.\<close>

definition collecting :: "u16 \<Rightarrow> u8 list list \<Rightarrow> nat set \<Rightarrow> (u16 \<times> u8 list option list) list \<Rightarrow> bool" where
  "collecting sid ds I q \<longleftrightarrow> map_of q sid = (if I = {} then None else Some (collected ds I))"

lemma take_split_part:
  assumes "is_part sid ds i p" and "collecting sid ds I (split_packet_queue rp)"
    and "1 < length ds" and "length ds < 2 ^ 32"
  shows "\<exists>q. (if {..<length ds} \<subseteq> insert i I
      then take_split p rp = Ok (Some (p\<lparr>rak_data := concat ds\<rparr>), rp\<lparr>split_packet_queue := q\<rparr>) \<and>
        collecting sid ds {} q
      else take_split p rp = Ok (None, rp\<lparr>split_packet_queue := q\<rparr>) \<and>
        collecting sid ds (insert i I) q) \<and>
    (\<forall>j. j \<noteq> sid \<longrightarrow> map_of q j = map_of (split_packet_queue rp) j)"
proof -
  have i: "i < length ds" "unat (of_nat i :: u32) = i" "unat (of_nat (length ds) :: u32) = length ds"
    using assms by (auto simp: is_part_def)
  have c: "(of_nat (length ds) :: u32) > 1" using i assms(3) by (simp add: word_less_nat_alt)
  show ?thesis
  proof (cases "I = {}")
    case True
    have "\<not> {..<length ds} \<subseteq> {i}"
    proof
      assume "{..<length ds} \<subseteq> {i}"
      then have "0 \<in> {i}" "1 \<in> {i}" using assms(3) by fastforce+
      then show False by simp
    qed
    then show ?thesis
      using assms(1,2) i c True collected_insert [of i ds "{}"]
      by (auto simp: take_split_def is_part_def collecting_def collected_empty Let_def
          AList.update_conv')
  next
    case False
    have ins: "(collected ds I)[i := Some (ds ! i)] = collected ds (insert i I)"
      using i(1) by (rule collected_insert)
    show ?thesis
    proof (cases "{..<length ds} \<subseteq> insert i I")
      case True
      then have "list_all (\<lambda>part. part \<noteq> None) (collected ds (insert i I))"
        "assemble (collected ds (insert i I)) = concat ds"
        by (rule collected_ready [THEN iffD2]) (simp add: collected_all [OF True] assemble_Some)
      then show ?thesis using assms(1,2) i c False ins True
        by (intro exI [of _ "AList.delete sid (split_packet_queue rp)"])
          (simp add: take_split_def is_part_def collecting_def Let_def AList.delete_conv' del: not_None_eq)
    next
      case nf: False
      then have "\<not> list_all (\<lambda>part. part \<noteq> None) (collected ds (insert i I))"
        by (simp add: collected_ready del: not_None_eq)
      then show ?thesis using assms(1,2) i c False ins nf
        by (intro exI [of _ "AList.update sid (collected ds (insert i I)) (split_packet_queue rp)"])
          (simp add: take_split_def is_part_def collecting_def Let_def AList.update_conv' del: not_None_eq)
    qed
  qed
qed

lemma process_part:
  assumes "is_part sid ds i p" and "collecting sid ds I (split_packet_queue (rx_part st))"
    and "1 < length ds" and "length ds < 2 ^ 32" and "\<not> {..<length ds} \<subseteq> insert i I"
  shows "\<exists>acks q. process_packet p st =
      Ok (st\<lparr>rx_acks := acks, rx_part := rx_part st\<lparr>split_packet_queue := q\<rparr>\<rparr>) \<and>
    collecting sid ds (insert i I) q \<and>
    (\<forall>j. j \<noteq> sid \<longrightarrow> map_of q j = map_of (split_packet_queue (rx_part st)) j)"
proof -
  obtain q where q: "take_split p (rx_part st) = Ok (None, rx_part st\<lparr>split_packet_queue := q\<rparr>)"
    "collecting sid ds (insert i I) q"
    "\<forall>j. j \<noteq> sid \<longrightarrow> map_of q j = map_of (split_packet_queue (rx_part st)) j"
    using take_split_part [OF assms(1-4)] assms(5) by auto
  obtain acks where "ack_packet p (rx_acks st) = Ok acks" using ack_packet_ok by blast
  then show ?thesis using q
    by (intro exI [of _ acks] exI [of _ q]) (simp add: process_packet_def)
qed

lemma process_last_part:
  assumes "is_part sid ds i p" and "collecting sid ds I (split_packet_queue (rx_part st))"
    and "1 < length ds" and "length ds < 2 ^ 32" and "{..<length ds} \<subseteq> insert i I"
    and "\<not> is_disconnect (concat ds)"
  shows "\<exists>acks q. process_packet p st =
      Ok (case deliver (p\<lparr>rak_data := concat ds\<rparr>) (rx_part st\<lparr>split_packet_queue := q\<rparr>) (rx_out st) of
        (rp, out) \<Rightarrow> st\<lparr>rx_acks := acks, rx_part := rp, rx_out := out\<rparr>) \<and>
    collecting sid ds {} q \<and>
    (\<forall>j. j \<noteq> sid \<longrightarrow> map_of q j = map_of (split_packet_queue (rx_part st)) j)"
proof -
  obtain q where q: "take_split p (rx_part st) =
      Ok (Some (p\<lparr>rak_data := concat ds\<rparr>), rx_part st\<lparr>split_packet_queue := q\<rparr>)"
    "collecting sid ds {} q" "\<forall>j. j \<noteq> sid \<longrightarrow> map_of q j = map_of (split_packet_queue (rx_part st)) j"
    using take_split_part [OF assms(1-4)] assms(5) by auto
  obtain acks where "ack_packet p (rx_acks st) = Ok acks" using ack_packet_ok by blast
  then show ?thesis using q assms(6)
    by (intro exI [of _ acks] exI [of _ q]) (simp add: process_packet_def split: prod.splits)
qed

lemma process_parts:
  assumes "list_all2 (is_part sid ds) ixs ps" and "ixs \<noteq> []"
    and "collecting sid ds I (split_packet_queue (rx_part st))"
    and "distinct ixs" and "set ixs = {..<length ds} - I"
    and "1 < length ds" and "length ds < 2 ^ 32" and "\<not> is_disconnect (concat ds)"
  shows "\<exists>acks q. process_loop ps st =
      Ok (case deliver ((last ps)\<lparr>rak_data := concat ds\<rparr>) (rx_part st\<lparr>split_packet_queue := q\<rparr>)
            (rx_out st) of
        (rp, out) \<Rightarrow> st\<lparr>rx_acks := acks, rx_part := rp, rx_out := out\<rparr>) \<and>
    map_of q sid = None \<and>
    (\<forall>j. j \<noteq> sid \<longrightarrow> map_of q j = map_of (split_packet_queue (rx_part st)) j)"
  using assms
proof (induction ixs ps arbitrary: I st rule: list_all2_induct)
  case (Cons i ixs p ps)
  note c = Cons.prems(5,6)
  show ?case
  proof (cases "ixs = []")
    case True
    then have "ps = []" "{..<length ds} \<subseteq> insert i I" using Cons.hyps(2) Cons.prems(4) by auto
    then show ?thesis
      using process_last_part [OF Cons.hyps(1) Cons.prems(2) c _ Cons.prems(7)]
      by (fastforce simp: collecting_def)
  next
    case False
    then obtain j where "j \<in> set ixs" by (cases ixs) auto
    then have "\<not> {..<length ds} \<subseteq> insert i I" using Cons.prems(3,4) by auto
    then obtain acks q where s: "process_packet p st =
        Ok (st\<lparr>rx_acks := acks, rx_part := rx_part st\<lparr>split_packet_queue := q\<rparr>\<rparr>)" (is "_ = Ok ?st")
      "collecting sid ds (insert i I) q"
      "\<forall>j. j \<noteq> sid \<longrightarrow> map_of q j = map_of (split_packet_queue (rx_part st)) j"
      using process_part [OF Cons.hyps(1) Cons.prems(2) c] by blast
    have "set ixs = {..<length ds} - insert i I" "distinct ixs" using Cons.prems(3,4) by auto
    then obtain acks' q' where "process_loop ps ?st =
        Ok (case deliver ((last ps)\<lparr>rak_data := concat ds\<rparr>)
            (rx_part ?st\<lparr>split_packet_queue := q'\<rparr>) (rx_out ?st) of
          (rp, out) \<Rightarrow> ?st\<lparr>rx_acks := acks', rx_part := rp, rx_out := out\<rparr>)"
      and q': "map_of q' sid = None" "\<forall>j. j \<noteq> sid \<longrightarrow> map_of q' j = map_of q j"
      using Cons.IH [of "insert i I" ?st] False s(2) c Cons.prems(7) by auto
    moreover have "ps \<noteq> []" using False Cons.hyps(2) by auto
    ultimately show ?thesis using s(1,3)
      by (intro exI [of _ acks'] exI [of _ q']) (simp split: prod.splits)
  qed
qed simp

text \<open>For packets sent as reliable the delivery only appends the whole.\<close>

lemma process_parts_reliable:
  assumes "list_all2 (is_part sid ds) ixs ps" and "ixs \<noteq> []" and "distinct ixs"
    and "collecting sid ds I (split_packet_queue (rx_part st))" and "set ixs = {..<length ds} - I"
    and "1 < length ds" and "length ds < 2 ^ 32" and "\<not> is_disconnect (concat ds)"
    and "rel_data (last ps) = ReliableData"
  shows "\<exists>st'. process_loop ps st = Ok st' \<and>
    rx_out st' = rx_out st @ [mk_packet Reliable (concat ds)] \<and>
    map_of (split_packet_queue (rx_part st')) sid = None"
  using process_parts [OF assms(1,2,4,3,5-8)] assms(9)
  by (auto simp: deliver_def packet_of_def)

section \<open>When a packet is accepted without a panic\<close>

text \<open>Packets agree with \<open>cnt\<close> on the number of parts of each split id.\<close>

definition split_ok :: "(u16 \<Rightarrow> u32) \<Rightarrow> raknet_packet \<Rightarrow> bool" where
  "split_ok cnt p \<longleftrightarrow>
     (case split_info p of None \<Rightarrow> True
      | Some i \<Rightarrow> 1 < split_count i \<and> split_index i < split_count i \<and>
          split_count i = cnt (split_id i))"

definition queue_ok :: "(u16 \<Rightarrow> u32) \<Rightarrow> (u16 \<times> u8 list option list) list \<Rightarrow> bool" where
  "queue_ok cnt q \<longleftrightarrow> (\<forall>sid parts. map_of q sid = Some parts \<longrightarrow> length parts = unat (cnt sid))"

lemma queue_ok_update:
  "queue_ok cnt q \<Longrightarrow> length parts = unat (cnt sid) \<Longrightarrow> queue_ok cnt (AList.update sid parts q)"
  by (auto simp: queue_ok_def AList.update_conv')

lemma queue_ok_delete: "queue_ok cnt q \<Longrightarrow> queue_ok cnt (AList.delete sid q)"
  by (auto simp: queue_ok_def AList.delete_conv' split: if_splits)

lemma take_split_total:
  assumes "split_ok cnt p" and "queue_ok cnt (split_packet_queue rp)"
  shows "\<exists>x rp'. take_split p rp = Ok (x, rp') \<and> queue_ok cnt (split_packet_queue rp')"
proof (cases "split_info p")
  case None
  then show ?thesis using assms by (simp add: take_split_def)
next
  case (Some i)
  then have i: "1 < split_count i" "unat (split_index i) < unat (split_count i)"
    "split_count i = cnt (split_id i)"
    using assms(1) by (auto simp: split_ok_def word_less_nat_alt)
  show ?thesis
  proof (cases "map_of (split_packet_queue rp) (split_id i)")
    case None
    then show ?thesis using Some i assms(2)
      by (auto simp: take_split_def Let_def intro!: queue_ok_update)
  next
    case (Some parts)
    then have "length parts = unat (cnt (split_id i))" using assms(2) by (simp add: queue_ok_def)
    then show ?thesis using Some \<open>split_info p = Some i\<close> i assms(2)
      by (auto simp: take_split_def Let_def intro!: queue_ok_update queue_ok_delete)
  qed
qed

lemma deliver_split_queue: "split_packet_queue (fst (deliver p rp out)) = split_packet_queue rp"
  by (auto simp: deliver_def split: reliability_data.split prod.split)

lemma process_packet_total:
  assumes "split_ok cnt p" and "queue_ok cnt (split_packet_queue (rx_part st))"
  shows "\<exists>st'. process_packet p st = Ok st' \<and> queue_ok cnt (split_packet_queue (rx_part st'))"
proof -
  obtain x rp' where x: "take_split p (rx_part st) = Ok (x, rp')" "queue_ok cnt (split_packet_queue rp')"
    using take_split_total [OF assms] by blast
  obtain acks where a: "ack_packet p (rx_acks st) = Ok acks" using ack_packet_ok by blast
  show ?thesis
  proof (cases x)
    case None
    then show ?thesis using x a by (simp add: process_packet_def)
  next
    case (Some p')
    then show ?thesis using x a deliver_split_queue [of p' rp' "rx_out st"]
      by (cases "deliver p' rp' (rx_out st)") (simp add: process_packet_def)
  qed
qed

lemma process_loop_total:
  "\<forall>p\<in>set ps. split_ok cnt p \<Longrightarrow> queue_ok cnt (split_packet_queue (rx_part st)) \<Longrightarrow>
   \<exists>st'. process_loop ps st = Ok st' \<and> queue_ok cnt (split_packet_queue (rx_part st'))"
proof (induction ps arbitrary: st)
  case (Cons p ps)
  then show ?case using process_packet_total [of cnt p st] by auto
qed simp

section \<open>Acknowledgements\<close>

definition is_reliable :: "raknet_packet \<Rightarrow> bool" where
  "is_reliable p \<longleftrightarrow> reliability_of (rel_data p) \<in> {Reliable, ReliableOrdered}"

lemma ack_packet_eq:
  "ack_packet p acks = (if is_reliable p then rl_insert acks (message_number p) else Ok acks)"
  by (cases "rel_data p") (simp_all add: ack_packet_def is_reliable_def)

lemma process_packet_acks:
  "process_packet p st = Ok st' \<Longrightarrow> ack_packet p (rx_acks st) = Ok (rx_acks st')"
proof -
  assume ok: "process_packet p st = Ok st'"
  then obtain acks q rp where a: "ack_packet p (rx_acks st) = Ok acks"
    and t: "take_split p (rx_part st) = Ok (q, rp)"
    by (auto simp: process_packet_def and_then_eq_Ok)
  show ?thesis
  proof (cases q)
    case None
    then show ?thesis using ok a t by (auto simp: process_packet_def)
  next
    case (Some p')
    then show ?thesis using ok a t
      by (cases "deliver p' rp (rx_out st)") (auto simp: process_packet_def split: if_splits)
  qed
qed

lemma process_loop_acks:
  "process_loop ps st = Ok st' \<Longrightarrow>
   add_all rl_insert (rx_acks st) (map message_number (filter is_reliable ps)) = Ok (rx_acks st')"
proof (induction ps arbitrary: st)
  case (Cons p ps)
  then obtain st1 where "process_packet p st = Ok st1" "process_loop ps st1 = Ok st'"
    by (auto simp: and_then_eq_Ok)
  then show ?case using Cons.IH [of st1] process_packet_acks [of p st st1]
    by (auto simp: ack_packet_eq split: if_splits)
qed simp

section \<open>Closing\<close>

lemma process_disconnect:
  assumes "split_info p = None" and "is_disconnect (rak_data p)"
  shows "\<exists>acks. process_packet p st = Ok (st\<lparr>rx_acks := acks, rx_closed := True\<rparr>)"
  using ack_packet_ok [of p "rx_acks st"] assms by (auto simp: process_packet_def take_split_def)

lemma process_packet_closed: "process_packet p st = Ok st' \<Longrightarrow> rx_closed st \<Longrightarrow> rx_closed st'"
proof -
  assume ok: "process_packet p st = Ok st'" and c: "rx_closed st"
  then obtain acks q rp where a: "ack_packet p (rx_acks st) = Ok acks"
    and t: "take_split p (rx_part st) = Ok (q, rp)"
    by (auto simp: process_packet_def and_then_eq_Ok)
  show ?thesis
  proof (cases q)
    case None
    then show ?thesis using ok a t c by (auto simp: process_packet_def)
  next
    case (Some p')
    then show ?thesis using ok a t c
      by (cases "deliver p' rp (rx_out st)") (auto simp: process_packet_def split: if_splits)
  qed
qed

lemma process_loop_closed: "process_loop ps st = Ok st' \<Longrightarrow> rx_closed st \<Longrightarrow> rx_closed st'"
  by (induction ps arbitrary: st) (auto simp: and_then_eq_Ok dest: process_packet_closed)

section \<open>Properties\<close>

text \<open>C8: reliable ordered messages are delivered in order, each once and without gaps, whatever
  the order and repetition of their arrival: after the positions \<open>ks\<close> of a stream (starting at
  the index the receiver expects, which may wrap around) have arrived, the packets returned are
  those of the positions before the first one that is missing.\<close>

theorem reliable_ordered_delivery:
  assumes "list_all2 (carries s bytes) ks ps" and "\<forall>k\<in>set ks. k < 2 ^ 31 - 1"
    and "\<forall>p\<in>set ps. \<not> is_disconnect (rak_data p)"
    and "rel_ord_index rp = s" and "out_of_order_packets rp = []"
  shows "\<exists>rx n. process_incoming_packets rp ps acks closed = Ok rx \<and>
    {..<n} \<subseteq> set ks \<and> n \<notin> set ks \<and>
    rx_out rx = map (ordered_packet bytes) [0..<n] \<and>
    rel_ord_index (rx_part rx) = s + of_nat n \<and> rx_closed rx = closed"
proof -
  let ?st = "\<lparr>rx_part = rp, rx_acks = acks, rx_closed = closed, rx_out = []\<rparr>"
  obtain rx n where "process_loop ps ?st = Ok rx"
    "rx_out rx = rx_out ?st @ map (ordered_packet bytes) [0..<n]" "rx_closed rx = rx_closed ?st"
    "ordered_inv s (ordered_packet bytes) ({} \<union> set ks) n (rx_part rx)"
    using process_ordered_loop [OF assms(1,3), of "{}" 0 ?st] assms(2)
      ordered_inv_start [OF assms(4,5)] by (auto simp: window_def)
  then show ?thesis
    by (intro exI [of _ rx] exI [of _ n]) (simp add: process_incoming_packets_def ordered_inv_def)
qed

definition rel_ord_sample :: "nat \<Rightarrow> raknet_packet" where
  "rel_ord_sample k = \<lparr>message_number = of_nat k, rel_data = ReliableOrderedData (of_nat k - 1),
     split_info = None, rak_data = [of_nat k]\<rparr>"

theorem reliable_ordered_delivery_witness:
  "\<exists>rx n. process_incoming_packets (receive_part_default\<lparr>rel_ord_index := - 1\<rparr>)
      (map rel_ord_sample [2, 0, 1, 0, 4]) rl_new False = Ok rx \<and>
    {..<n} \<subseteq> set [2, 0, 1, 0, 4] \<and> n \<notin> set [2, 0, 1, 0, 4] \<and>
    rx_out rx = map (ordered_packet (\<lambda>k. [of_nat k])) [0..<n] \<and>
    rel_ord_index (rx_part rx) = - 1 + of_nat n \<and> rx_closed rx = False"
  by (rule reliable_ordered_delivery)
    (simp_all add: carries_def rel_ord_sample_def receive_part_default_def)

text \<open>C11: of unreliable sequenced packets exactly those are delivered that are newer than every
  one before them, in the order of their arrival: of the positions \<open>ks\<close> of a stream (which may wrap
  around), in the order they arrive, those greater than all the earlier ones. Old and repeated
  packets are dropped, and the newest position that arrived is the last one delivered.\<close>

theorem sequenced_delivery:
  assumes "list_all2 (carries_seq s bytes) ks ps" and "\<forall>k\<in>set ks. k < 2 ^ 31 - 1"
    and "\<forall>p\<in>set ps. \<not> is_disconnect (rak_data p)" and "unrel_seq_index rp = s" and "ks \<noteq> []"
  shows "\<exists>rx js. process_incoming_packets rp ps acks closed = Ok rx \<and>
    rx_out rx = map (sequenced_packet bytes) js \<and>
    js = map ((!) ks) (filter (\<lambda>i. \<forall>j<i. ks ! j < ks ! i) [0..<length ks]) \<and>
    sorted_wrt (<) js \<and> js \<noteq> [] \<and> last js = Max (set ks)"
proof -
  let ?st = "\<lparr>rx_part = rp, rx_acks = acks, rx_closed = closed, rx_out = []\<rparr>"
  obtain rx where rx: "process_loop ps ?st = Ok rx"
    "rx_out rx = map (sequenced_packet bytes) (newest 0 ks)"
    using process_sequenced_loop [OF assms(1,3), of ?st 0] assms(2,4) by (auto simp: window_def)
  have "\<exists>k\<in>set ks. 0 \<le> k" using assms(5) by (cases ks) auto
  from newest_Max [OF this] have "newest 0 ks \<noteq> []" "last (newest 0 ks) = Max (set ks)" by simp_all
  moreover have "newest 0 ks = map ((!) ks) (filter (\<lambda>i. \<forall>j<i. ks ! j < ks ! i) [0..<length ks])"
    unfolding newest_filter by simp
  ultimately show ?thesis using rx sorted_newest [of 0 ks]
    unfolding process_incoming_packets_def by blast
qed

definition unrel_seq_sample :: "nat \<Rightarrow> raknet_packet" where
  "unrel_seq_sample k = \<lparr>message_number = of_nat k, rel_data = UnreliableSequencedData (of_nat k),
     split_info = None, rak_data = [of_nat k]\<rparr>"

theorem sequenced_delivery_witness:
  "\<exists>rx. process_incoming_packets receive_part_default
      (map unrel_seq_sample [1, 0, 3, 3, 2]) rl_new False = Ok rx \<and>
    rx_out rx = map (sequenced_packet (\<lambda>k. [of_nat k])) [1, 3]"
proof -
  let ?ks = "[1, 0, 3, 3, 2 :: nat]"
  have "list_all2 (carries_seq 0 (\<lambda>k. [of_nat k])) ?ks (map unrel_seq_sample ?ks)"
    "\<forall>p\<in>set (map unrel_seq_sample ?ks). \<not> is_disconnect (rak_data p)"
    by (simp_all add: carries_seq_def unrel_seq_sample_def)
  moreover have "map ((!) ?ks) (filter (\<lambda>i. \<forall>j<i. ?ks ! j < ?ks ! i) [0..<length ?ks]) = [1, 3]"
    using newest_filter [of 0 ?ks] by simp
  ultimately show ?thesis
    using sequenced_delivery [of 0 "\<lambda>k. [of_nat k]" ?ks "map unrel_seq_sample ?ks"
        receive_part_default rl_new False]
    by (simp add: receive_part_default_def del: list.map nth_Cons_numeral)
qed

text \<open>C10: the parts of a split packet, each arriving once and in any order, are put together in
  index order, and the whole is delivered once, when the last part arrives, under that part's
  reliability; the queue keeps nothing of it and the entries of other split ids are untouched.\<close>

theorem split_packet_reassembled:
  assumes "list_all2 (is_part sid ds) ixs ps" and "distinct ixs" and "set ixs = {..<length ds}"
    and "1 < length ds" and "length ds < 2 ^ 32" and "\<not> is_disconnect (concat ds)"
    and "map_of (split_packet_queue (rx_part st)) sid = None"
  shows "\<exists>acks q. process_loop ps st =
      Ok (case deliver ((last ps)\<lparr>rak_data := concat ds\<rparr>) (rx_part st\<lparr>split_packet_queue := q\<rparr>)
            (rx_out st) of
        (rp, out) \<Rightarrow> st\<lparr>rx_acks := acks, rx_part := rp, rx_out := out\<rparr>) \<and>
    map_of q sid = None \<and>
    (\<forall>j. j \<noteq> sid \<longrightarrow> map_of q j = map_of (split_packet_queue (rx_part st)) j)"
proof -
  have "0 \<in> {..<length ds}" using assms(4) unfolding lessThan_iff by linarith
  then have "ixs \<noteq> []" unfolding assms(3) [symmetric] by (cases ixs) simp_all
  moreover have "collecting sid ds {} (split_packet_queue (rx_part st))"
    using assms(7) by (simp add: collecting_def)
  moreover have "set ixs = {..<length ds} - {}" using assms(3) by simp
  ultimately show ?thesis
    by (rule process_parts [OF assms(1) _ _ assms(2) _ assms(4-6)])
qed

definition part_sample :: "u8 list list \<Rightarrow> nat \<Rightarrow> raknet_packet" where
  "part_sample ds i = \<lparr>message_number = of_nat i, rel_data = ReliableData,
     split_info = Some \<lparr>split_id = 4, split_index = of_nat i, split_count = of_nat (length ds)\<rparr>,
     rak_data = ds ! i\<rparr>"

definition rx_start :: rx where
  "rx_start = \<lparr>rx_part = receive_part_default, rx_acks = rl_new, rx_closed = False, rx_out = []\<rparr>"

theorem split_packet_reassembled_witness:
  "\<exists>acks q. process_loop (map (part_sample [[0, 1], [2], [3, 4]]) [2, 0, 1]) rx_start =
     Ok (rx_start\<lparr>rx_acks := acks, rx_part := receive_part_default\<lparr>split_packet_queue := q\<rparr>,
       rx_out := [mk_packet Reliable [0, 1, 2, 3, 4]]\<rparr>) \<and> map_of q 4 = None"
proof -
  let ?ds = "[[0, 1], [2], [3, 4 :: u8]]"
  have "list_all2 (is_part 4 ?ds) [2, 0, 1] (map (part_sample ?ds) [2, 0, 1])"
    by (simp add: is_part_def part_sample_def)
  moreover have "set [2, 0, 1] = {..<length ?ds}" by auto
  ultimately show ?thesis
    using split_packet_reassembled [of 4 ?ds "[2, 0, 1]" "map (part_sample ?ds) [2, 0, 1]" rx_start]
    by (auto simp: rx_start_def receive_part_default_def part_sample_def deliver_def packet_of_def)
qed

text \<open>C36: a part that arrives once more after its packet was delivered is kept as a new queue
  entry. When the split id is used again for a packet of as many parts and its other parts arrive
  before its part of that index, this packet is delivered with the old part's bytes in place of its
  own, and its own part in turn is kept as a stale entry.\<close>

theorem stale_part_mixes_in:
  assumes "list_all2 (is_part sid ds) ixs ps" and "distinct ixs" and "set ixs = {..<length ds}"
    and "is_part sid ds i p"
    and "list_all2 (is_part sid es) js qs" and "distinct js" and "set js = {..<length es} - {i}"
    and "is_part sid es i q"
    and "length ds = length es" and "1 < length es" and "length es < 2 ^ 32"
    and "\<forall>r\<in>set (ps @ p # qs @ [q]). rel_data r = ReliableData"
    and "\<not> is_disconnect (concat ds)" and "\<not> is_disconnect (concat (es[i := ds ! i]))"
    and "map_of (split_packet_queue (rx_part st)) sid = None"
  shows "\<exists>st'. process_loop (ps @ [p] @ qs @ [q]) st = Ok st' \<and>
    rx_out st' = rx_out st @ [mk_packet Reliable (concat ds),
      mk_packet Reliable (concat (es[i := ds ! i]))] \<and>
    map_of (split_packet_queue (rx_part st')) sid =
      Some ((replicate (length es) None)[i := Some (es ! i)])"
proof -
  have i: "i < length es" using assms(8) by (simp add: is_part_def)
  have "0 \<in> set ixs" unfolding assms(3,9) lessThan_iff using assms(10) by linarith
  then have "ixs \<noteq> []" by (cases ixs) simp_all
  then have ps: "ps \<noteq> []" using assms(1) by auto
  have "\<exists>k<n. k \<noteq> i" if "1 < n" for n :: nat using that by presburger
  from this [OF assms(10)] have ne: "{..<length es} - {i} \<noteq> {}" by blast
  then have nf: "\<not> {..<length es} \<subseteq> {i}" by blast
  have js: "js \<noteq> []" using ne assms(7) by force
  then have qs: "qs \<noteq> []" using assms(5) by auto
  have r: "rel_data (last ps) = ReliableData" "rel_data (last qs) = ReliableData"
    using assms(12) ps qs by simp_all
  have c: "1 < length ds" "length ds < 2 ^ 32" using assms(9-11) by simp_all
  have s: "set ixs = {..<length ds} - {}" using assms(3) by simp
  have "collecting sid ds {} (split_packet_queue (rx_part st))"
    using assms(15) by (simp add: collecting_def)
  from process_parts_reliable [OF assms(1) \<open>ixs \<noteq> []\<close> assms(2) this s c assms(13) r(1)]
  obtain st1 where 1: "process_loop ps st = Ok st1"
    "rx_out st1 = rx_out st @ [mk_packet Reliable (concat ds)]"
    "map_of (split_packet_queue (rx_part st1)) sid = None" by (elim exE conjE)
  have "collecting sid ds {} (split_packet_queue (rx_part st1))" using 1(3) by (simp add: collecting_def)
  then obtain st2 where 2: "process_packet p st1 = Ok st2" "rx_out st2 = rx_out st1"
    "collecting sid ds {i} (split_packet_queue (rx_part st2))"
    using process_part [OF assms(4) _ c, of "{}" st1] nf assms(9) by fastforce
  let ?fs = "es[i := ds ! i]"
  have "collected ?fs {i} = collected ds {i}"
    using i assms(9) by (auto simp: collected_def)
  then have "collecting sid ?fs {i} (split_packet_queue (rx_part st2))"
    using 2(3) by (simp add: collecting_def)
  moreover have "list_all2 (is_part sid ?fs) js qs"
    using assms(5,7) by (auto simp: list_all2_conv_all_nth is_part_def in_set_conv_nth)
      (metis DiffE nth_list_update_neq nth_mem singletonI)
  moreover have "set js = {..<length ?fs} - {i}" "1 < length ?fs" "length ?fs < 2 ^ 32"
    using assms(7,10,11) by simp_all
  ultimately obtain st3 where 3: "process_loop qs st2 = Ok st3"
    "rx_out st3 = rx_out st2 @ [mk_packet Reliable (concat ?fs)]"
    "map_of (split_packet_queue (rx_part st3)) sid = None"
    using process_parts_reliable [of sid ?fs js qs "{i}" st2] js assms(6,14) r(2) by blast
  have "collecting sid es {} (split_packet_queue (rx_part st3))" using 3(3) by (simp add: collecting_def)
  then obtain st4 where 4: "process_packet q st3 = Ok st4" "rx_out st4 = rx_out st3"
    "collecting sid es {i} (split_packet_queue (rx_part st4))"
    using process_part [OF assms(8) _ assms(10,11), of "{}" st3] nf by fastforce
  have "collected es {i} = (replicate (length es) None)[i := Some (es ! i)]"
    using collected_insert [OF i, of "{}"] by (simp add: collected_empty)
  then show ?thesis using 1(1,2) 2(1,2) 3(1,2) 4
    by (intro exI [of _ st4]) (simp add: process_loop_append collecting_def)
qed

theorem stale_part_mixes_in_witness:
  "\<exists>st'. process_loop (map (part_sample [[7], [8]]) [1, 0] @ [part_sample [[7], [8]] 0] @
      [part_sample [[1], [2]] 1] @ [part_sample [[1], [2]] 0]) rx_start = Ok st' \<and>
    rx_out st' = [mk_packet Reliable [7, 8], mk_packet Reliable [7, 2]] \<and>
    map_of (split_packet_queue (rx_part st')) 4 = Some [Some [1], None]"
proof -
  have "list_all2 (is_part 4 [[7], [8]]) [1, 0] (map (part_sample [[7], [8]]) [1, 0])"
    "list_all2 (is_part 4 [[1], [2]]) [1] [part_sample [[1], [2]] 1]"
    "is_part 4 [[7], [8]] 0 (part_sample [[7], [8]] 0)"
    "is_part 4 [[1], [2]] 0 (part_sample [[1], [2]] 0)"
    by (simp_all add: is_part_def part_sample_def)
  moreover have "set [1, 0] = {..<length [[7], [8 :: u8]]}" "set [1] = {..<length [[1], [2 :: u8]]} - {0}"
    by auto
  moreover have "\<forall>r\<in>set (map (part_sample [[7], [8]]) [1, 0] @ part_sample [[7], [8]] 0 #
      [part_sample [[1], [2]] 1] @ [part_sample [[1], [2]] 0]). rel_data r = ReliableData"
    by (simp add: part_sample_def)
  moreover have "map_of (split_packet_queue (rx_part rx_start)) 4 = None"
    by (simp add: rx_start_def receive_part_default_def)
  ultimately show ?thesis
    using stale_part_mixes_in [of 4 "[[7], [8]]" "[1, 0]" "map (part_sample [[7], [8]]) [1, 0]" 0
        "part_sample [[7], [8]] 0" "[[1], [2]]" "[1]" "[part_sample [[1], [2]] 1]"
        "part_sample [[1], [2]] 0" rx_start]
    by (simp add: rx_start_def del: process_loop.simps list.map set_append)
qed

text \<open>Processing never panics on packets whose split information is well formed (more than one
  part, index below the count, one count per split id, in agreement with the queue), and the queue
  stays in agreement.\<close>

theorem process_incoming_total:
  assumes "\<forall>p\<in>set ps. split_ok cnt p" and "queue_ok cnt (split_packet_queue rp)"
  shows "\<exists>rx. process_incoming_packets rp ps acks closed = Ok rx \<and>
    queue_ok cnt (split_packet_queue (rx_part rx))"
  using process_loop_total [of ps cnt "\<lparr>rx_part = rp, rx_acks = acks, rx_closed = closed, rx_out = []\<rparr>"]
    assms by (simp add: process_incoming_packets_def)

theorem process_incoming_total_witness:
  "\<exists>rx. process_incoming_packets receive_part_default
      (map (part_sample [[0, 1], [2], [3, 4]]) [2, 0, 2]) rl_new False = Ok rx \<and>
    queue_ok (\<lambda>_. 3) (split_packet_queue (rx_part rx))"
  by (rule process_incoming_total)
    (simp_all add: split_ok_def part_sample_def queue_ok_def receive_part_default_def)

text \<open>C38: processing a packet panics exactly when its split information is not well formed: the
  count is at most one, or the index is not below the number of parts, which is the count for a new
  split id and the length of the entry for one that is being collected. A packet without split
  information never panics.\<close>

theorem malformed_split_panics:
  "process_packet p st = Panic \<longleftrightarrow>
    (\<exists>i. split_info p = Some i \<and>
      (split_count i \<le> 1 \<or>
       (case map_of (split_packet_queue (rx_part st)) (split_id i) of
          None \<Rightarrow> split_count i \<le> split_index i
        | Some parts \<Rightarrow> length parts \<le> unat (split_index i))))"
proof -
  have "process_packet p st = Panic \<longleftrightarrow> take_split p (rx_part st) = Panic"
    using ack_packet_ok [of p "rx_acks st"]
    by (cases "take_split p (rx_part st)")
      (auto simp: process_packet_def split: option.splits prod.splits if_splits)
  also have "\<dots> \<longleftrightarrow> (\<exists>i. split_info p = Some i \<and>
      (split_count i \<le> 1 \<or>
       (case map_of (split_packet_queue (rx_part st)) (split_id i) of
          None \<Rightarrow> split_count i \<le> split_index i
        | Some parts \<Rightarrow> length parts \<le> unat (split_index i))))"
    by (auto simp: take_split_def word_le_nat_alt word_less_nat_alt Let_def split: option.splits)
  finally show ?thesis .
qed

text \<open>C28: the list of acknowledgements gains exactly the message numbers of the reliable packets,
  as long as none of these arrives twice or is already held.\<close>

theorem reliable_packets_acknowledged:
  assumes "process_incoming_packets rp ps acks closed = Ok rx" and "wf_ranges (ranges acks)"
    and "distinct (map message_number (filter is_reliable ps))"
    and "set (map message_number (filter is_reliable ps)) \<inter> rl_items acks = {}"
  shows "wf_ranges (ranges (rx_acks rx)) \<and>
    rl_items (rx_acks rx) = rl_items acks \<union> message_number ` {p \<in> set ps. is_reliable p}"
proof -
  have "add_all rl_insert acks (map message_number (filter is_reliable ps)) = Ok (rx_acks rx)"
    using process_loop_acks [OF assms(1) [unfolded process_incoming_packets_def]] by simp
  then show ?thesis using acks.add_all_held [of acks, OF _ assms(3,4)] assms(2)
    by (auto simp: rl_ok_def)
qed

theorem reliable_packets_acknowledged_witness:
  "\<exists>rx. process_incoming_packets receive_part_default (map rel_ord_sample [1, 2, 4]) rl_new False = Ok rx \<and>
     wf_ranges (ranges (rx_acks rx)) \<and> rl_items (rx_acks rx) = {1, 2, 4}"
proof -
  let ?ps = "map rel_ord_sample [1, 2, 4]"
  have f: "filter is_reliable ?ps = ?ps" by (simp add: is_reliable_def rel_ord_sample_def)
  have "\<forall>p\<in>set ?ps. split_ok (\<lambda>_. 0) p" by (simp add: split_ok_def rel_ord_sample_def)
  then obtain rx where rx: "process_incoming_packets receive_part_default ?ps rl_new False = Ok rx"
    using process_loop_total [of ?ps "\<lambda>_. 0" rx_start]
    by (auto simp: process_incoming_packets_def rx_start_def queue_ok_def receive_part_default_def)
  have "wf_ranges (ranges (rx_acks rx)) \<and>
      rl_items (rx_acks rx) = rl_items rl_new \<union> message_number ` {p \<in> set ?ps. is_reliable p}"
    by (rule reliable_packets_acknowledged [OF rx]) (unfold f, simp_all add: rl_new_def rl_items_def
        rel_ord_sample_def)
  moreover have "{p \<in> set ?ps. is_reliable p} = set ?ps" by (simp only: set_filter [symmetric] f)
  ultimately show ?thesis using rx by (intro exI [of _ rx]) (simp add: rl_new_def rl_items_def rel_ord_sample_def)
qed

text \<open>A disconnect notification is not delivered; it marks the connection as closed, and no
  later packet opens it again.\<close>

theorem disconnect_closes:
  assumes "split_info p = None" and "is_disconnect (rak_data p)"
  shows "(\<exists>acks. process_packet p st = Ok (st\<lparr>rx_acks := acks, rx_closed := True\<rparr>)) \<and>
    (\<forall>ps st'. process_loop (p # ps) st = Ok st' \<longrightarrow> rx_closed st')"
  using process_disconnect [OF assms, of st] by (auto dest!: process_loop_closed)

theorem disconnect_closes_witness:
  "\<exists>acks. process_packet (rel_ord_sample 19) rx_start = Ok (rx_start\<lparr>rx_acks := acks, rx_closed := True\<rparr>)"
  using disconnect_closes [of "rel_ord_sample 19" rx_start] by (simp add: rel_ord_sample_def)

text \<open>With a reader that obeys its laws, parsing a datagram into packets always ends, with the
  packets or with a panic, and depends only on the bits left to read.\<close>

theorem parse_packets_terminates:
  assumes "reader_laws R rbits"
  shows "(\<exists>res. parse_packets R r = Some res) \<and>
    parse_packets R r = parse_packets bits_reader (rbits r)"
  using reader_laws.parse_packets_ends [OF assms] reader_laws.sim_parse_packets [OF assms] by blast

theorem parse_packets_terminates_witness:
  "\<exists>res. parse_packets bits_reader [True, False, True] = Some res"
  using parse_packets_terminates [OF codec_reader [OF bits_codec]] by blast

end
