(* ===== verification/Net.thy ===== *)
theory Net
  imports Prelude
begin

text \<open>
  What the program uses of \<open>std::net\<close>: socket addresses, and a non-blocking UDP socket as the
  datagrams it has sent, a script of the outcomes of the sends to come (an empty script means that
  sends succeed), the results that receiving will give in order (an empty list means
  \<open>WouldBlock\<close>) and the local address it is bound to. The scripts stand for the operating system: a theorem that does not mention them
  holds for every behaviour of the network.
\<close>

datatype ip_addr = IPv4 u8 u8 u8 u8 | IPv6 "u16 list"

record sock_addr =
  addr_ip :: ip_addr
  addr_port :: u16

definition localhost :: "u16 \<Rightarrow> sock_addr" where
  "localhost p = \<lparr>addr_ip = IPv4 127 0 0 1, addr_port = p\<rparr>"

record udp_socket =
  udp_sent :: "(sock_addr \<times> u8 list) list"
  udp_script :: "io_error option list"
  udp_inbox :: "(u8 list \<times> sock_addr) res list"
  udp_local :: sock_addr

text \<open>\<open>send_to\<close>\<close>

definition udp_send_to :: "u8 list \<Rightarrow> sock_addr \<Rightarrow> udp_socket \<Rightarrow> nat res \<times> udp_socket" where
  "udp_send_to bs a u =
     (case udp_script u of
        Some e # script \<Rightarrow> (Err e, u\<lparr>udp_script := script\<rparr>)
      | script \<Rightarrow> (Ok (length bs),
          u\<lparr>udp_sent := udp_sent u @ [(a, bs)], udp_script := tl script\<rparr>))"

text \<open>\<open>recv_from\<close> into a buffer: a longer datagram is cut to the buffer's length. The result is
  the datagram's bytes in the buffer and the address it came from.\<close>

definition udp_recv_from :: "nat \<Rightarrow> udp_socket \<Rightarrow> (u8 list \<times> sock_addr) res \<times> udp_socket" where
  "udp_recv_from n u =
     (case udp_inbox u of
        [] \<Rightarrow> (Err WouldBlock, u)
      | Ok (bs, a) # rest \<Rightarrow> (Ok (take n bs, a), u\<lparr>udp_inbox := rest\<rparr>)
      | r # rest \<Rightarrow> (r, u\<lparr>udp_inbox := rest\<rparr>))"

text \<open>A socket on which every send succeeds.\<close>

definition udp_reliable :: "udp_socket \<Rightarrow> bool" where
  "udp_reliable u \<longleftrightarrow> udp_script u = []"

lemma udp_send_to_reliable:
  "udp_reliable u \<Longrightarrow> udp_send_to bs a u = (Ok (length bs), u\<lparr>udp_sent := udp_sent u @ [(a, bs)]\<rparr>)"
  by (simp add: udp_send_to_def udp_reliable_def)

lemma udp_reliable_sent [simp]: "udp_reliable (u\<lparr>udp_sent := xs\<rparr>) = udp_reliable u"
  by (simp add: udp_reliable_def)

text \<open>An operation that may fail and whose state survives the failure: run the rest only after a
  success.\<close>

fun then_do :: "'a res \<times> 's \<Rightarrow> ('a \<Rightarrow> 's \<Rightarrow> 'b res \<times> 's) \<Rightarrow> 'b res \<times> 's" where
  "then_do (Ok a, s) f = f a s"
| "then_do (Err e, s) f = (Err e, s)"
| "then_do (Panic, s) f = (Panic, s)"

lemma then_do_cong [fundef_cong]:
  "m = m' \<Longrightarrow> (\<And>a s. m' = (Ok a, s) \<Longrightarrow> f a s = g a s) \<Longrightarrow> then_do m f = then_do m' g"
  by (cases "(m', f)" rule: then_do.cases) auto

end
