(* ===== verification/Send.thy ===== *)
theory Send
  imports RangeList Packet Net
begin

text \<open>
  \<open>src/raknet/send.rs\<close>: the sending half of a RakNet connection. Numbering packets, splitting
  those that do not fit a datagram, and building datagrams that carry the pending
  acknowledgements. The socket is the state \<open>udp_socket\<close> that the operations pass on.
\<close>

section \<open>State\<close>

definition MTU_SIZE :: nat where
  "MTU_SIZE = 1228"

definition UDP_HEADER_SIZE :: nat where
  "UDP_HEADER_SIZE = 28"

definition MAX_PACKET_SIZE :: nat where
  "MAX_PACKET_SIZE = MTU_SIZE - UDP_HEADER_SIZE"

record send_part =
  sp_address :: sock_addr
  sp_message_number :: u32
  sp_split_packet_index :: u16
  sp_unrel_seq_index :: u32
  sp_rel_ord_index :: u32

definition send_part_new :: "sock_addr \<Rightarrow> send_part" where
  "send_part_new a = \<lparr>sp_address = a, sp_message_number = 0, sp_split_packet_index = 0,
     sp_unrel_seq_index = 0, sp_rel_ord_index = 0\<rparr>"

section \<open>Numbering\<close>

definition next_message_number :: "send_part \<Rightarrow> u32 \<times> send_part" where
  "next_message_number sp =
     (sp_message_number sp, sp\<lparr>sp_message_number := sp_message_number sp + 1\<rparr>)"

definition next_split_packet_index :: "send_part \<Rightarrow> u16 \<times> send_part" where
  "next_split_packet_index sp =
     (sp_split_packet_index sp, sp\<lparr>sp_split_packet_index := sp_split_packet_index sp + 1\<rparr>)"

definition next_rel_data :: "reliability \<Rightarrow> send_part \<Rightarrow> reliability_data \<times> send_part" where
  "next_rel_data rel sp =
     (case rel of
        Unreliable \<Rightarrow> (UnreliableData, sp)
      | UnreliableSequenced \<Rightarrow>
          (UnreliableSequencedData (sp_unrel_seq_index sp),
           sp\<lparr>sp_unrel_seq_index := sp_unrel_seq_index sp + 1\<rparr>)
      | Reliable \<Rightarrow> (ReliableData, sp)
      | ReliableOrdered \<Rightarrow>
          (ReliableOrderedData (sp_rel_ord_index sp),
           sp\<lparr>sp_rel_ord_index := sp_rel_ord_index sp + 1\<rparr>))"

section \<open>Splitting\<close>

definition header_len :: "reliability \<Rightarrow> bool \<Rightarrow> nat" where
  "header_len rel is_split_packet =
     (let len = 32;
          len = len + 3;
          len = (if rel = UnreliableSequenced \<or> rel = ReliableOrdered then len + 5 + 32 else len);
          len = len + 1;
          len = (if is_split_packet then len + 16 + 32 + 32 + 16 else len)
      in len div 8 + 1)"

text \<open>\<open>slice::chunks\<close>, for a positive chunk size.\<close>

function chunks :: "nat \<Rightarrow> 'a list \<Rightarrow> 'a list list" where
  "chunks n xs = (if xs = [] \<or> n = 0 then [] else take n xs # chunks n (drop n xs))"
  by pat_completeness auto
termination
  by (relation "measure (\<lambda>(n, xs). length xs)") auto

declare chunks.simps [simp del]

text \<open>\<open>for (i, chunk) in chunks.enumerate()\<close>, from index \<open>i\<close> on.\<close>

fun split_loop ::
  "u16 \<Rightarrow> u32 \<Rightarrow> reliability_data \<Rightarrow> nat \<Rightarrow> u8 list list \<Rightarrow> send_part \<Rightarrow> raknet_packet list \<times> send_part" where
  "split_loop sid count rel i [] sp = ([], sp)"
| "split_loop sid count rel i (chunk # rest) sp =
     (let (number, sp) = next_message_number sp;
          (ps, sp) = split_loop sid count rel (Suc i) rest sp
      in (\<lparr>message_number = number, rel_data = rel,
           split_info = Some \<lparr>split_id = sid, split_index = of_nat i, split_count = count\<rparr>,
           rak_data = chunk\<rparr> # ps, sp))"

definition process_outgoing_packet :: "packet \<Rightarrow> send_part \<Rightarrow> raknet_packet list \<times> send_part" where
  "process_outgoing_packet p sp =
     (let (rel, sp) = next_rel_data (reliability p) sp
      in if header_len (reliability p) False + length (data p) > MAX_PACKET_SIZE then
           let (sid, sp) = next_split_packet_index sp;
               chunk_size = MAX_PACKET_SIZE - header_len (reliability p) True;
               cs = chunks chunk_size (data p)
           in split_loop sid (of_nat (length cs)) rel 0 cs sp
         else
           let (number, sp) = next_message_number sp
           in ([\<lparr>message_number = number, rel_data = rel, split_info = None, rak_data = data p\<rparr>], sp))"

fun process_outgoing_packets :: "packet list \<Rightarrow> send_part \<Rightarrow> raknet_packet list \<times> send_part" where
  "process_outgoing_packets [] sp = ([], sp)"
| "process_outgoing_packets (p # ps) sp =
     (let (qs, sp) = process_outgoing_packet p sp;
          (rs, sp) = process_outgoing_packets ps sp
      in (qs @ rs, sp))"

section \<open>Datagrams\<close>

text \<open>\<open>write_acks\<close> clears the list once it is written; a failed write leaves it.\<close>

definition write_acks :: "'w bit_writer \<Rightarrow> u32 \<Rightarrow> 'w \<times> range_list \<Rightarrow> 'w res \<times> range_list" where
  "write_acks W remote_system_time wl =
     (case wl of (w, acks) \<Rightarrow>
       let has_acks = (\<not> rl_is_empty acks) in
       case and_then (bw_bit W has_acks w) (\<lambda>w.
              if has_acks
              then and_then (bw_u32 W remote_system_time w) (rl_write W acks) else Ok w) of
         Ok w \<Rightarrow> (Ok w, rl_clear acks)
       | r \<Rightarrow> (r, acks))"

definition send_datagram ::
  "send_part \<Rightarrow> u8 list \<Rightarrow> range_list \<times> udp_socket \<Rightarrow> unit res \<times> range_list \<times> udp_socket" where
  "send_datagram sp bs s =
     (case s of (acks, udp) \<Rightarrow>
       case udp_send_to bs (sp_address sp) udp of (r, udp) \<Rightarrow> (map_res (\<lambda>_. ()) r, acks, udp))"

definition send_packet ::
  "bool \<Rightarrow> 'w bit_writer \<Rightarrow> send_part \<Rightarrow> u32 \<Rightarrow> raknet_packet \<Rightarrow> range_list \<times> udp_socket \<Rightarrow>
   unit res \<times> range_list \<times> udp_socket" where
  "send_packet checks W sp remote_system_time p s =
     (case s of (acks, udp) \<Rightarrow>
       case write_acks W remote_system_time (bw_new W, acks) of (r, acks) \<Rightarrow>
       then_do (and_then r (\<lambda>w. and_then (bw_bit W False w) (write_raknet_packet checks W p)), acks, udp)
         (\<lambda>w. send_datagram sp (bw_finish W w)))"

definition send_acks ::
  "'w bit_writer \<Rightarrow> send_part \<Rightarrow> u32 \<Rightarrow> range_list \<times> udp_socket \<Rightarrow> unit res \<times> range_list \<times> udp_socket" where
  "send_acks W sp remote_system_time s =
     (case s of (acks, udp) \<Rightarrow>
       if rl_is_empty acks then (Ok (), acks, udp)
       else case write_acks W remote_system_time (bw_new W, acks) of (r, acks) \<Rightarrow>
         then_do (r, acks, udp) (\<lambda>w. send_datagram sp (bw_finish W w)))"

fun send_loop ::
  "bool \<Rightarrow> 'w bit_writer \<Rightarrow> send_part \<Rightarrow> u32 \<Rightarrow> raknet_packet list \<Rightarrow> range_list \<times> udp_socket \<Rightarrow>
   unit res \<times> range_list \<times> udp_socket" where
  "send_loop checks W sp t [] s = (Ok (), s)"
| "send_loop checks W sp t (p # ps) s =
     then_do (send_packet checks W sp t p s) (\<lambda>_. send_loop checks W sp t ps)"

definition send_packets ::
  "bool \<Rightarrow> 'w bit_writer \<Rightarrow> packet list \<Rightarrow> u32 \<Rightarrow> send_part \<times> range_list \<times> udp_socket \<Rightarrow>
   unit res \<times> send_part \<times> range_list \<times> udp_socket" where
  "send_packets checks W packets remote_system_time s =
     (case s of (sp, s) \<Rightarrow>
       case process_outgoing_packets packets sp of (ps, sp) \<Rightarrow>
       case then_do (if ps = [] then send_acks W sp remote_system_time s else (Ok (), s))
              (\<lambda>_. send_loop checks W sp remote_system_time ps) of
         (r, s) \<Rightarrow> (r, sp, s))"

section \<open>Chunks\<close>

lemma chunks_Nil [simp]: "chunks n [] = []"
  by (simp add: chunks.simps)

lemma chunks_step: "xs \<noteq> [] \<Longrightarrow> 0 < n \<Longrightarrow> chunks n xs = take n xs # chunks n (drop n xs)"
  by (subst chunks.simps) simp

lemma concat_chunks: "0 < n \<Longrightarrow> concat (chunks n xs) = xs"
proof (induction n xs rule: chunks.induct)
  case (1 n xs)
  then show ?case by (cases "xs = []") (simp_all add: chunks_step)
qed

lemma set_chunks: "0 < n \<Longrightarrow> c \<in> set (chunks n xs) \<Longrightarrow> 0 < length c \<and> length c \<le> n"
proof (induction n xs rule: chunks.induct)
  case (1 n xs)
  then show ?case by (cases "xs = []") (auto simp: chunks_step)
qed

lemma length_chunks: "0 < n \<Longrightarrow> length (chunks n xs) = (length xs + n - 1) div n"
proof (induction n xs rule: chunks.induct)
  case (1 n xs)
  show ?case
  proof (cases "length xs \<le> n")
    case True
    then have "(length xs + n - 1) div n = (if xs = [] then 0 else 1)"
      using "1.prems" by (cases "length xs") (auto intro!: div_nat_eqI)
    then show ?thesis using True "1.prems" by (cases "xs = []") (simp_all add: chunks_step)
  next
    case False
    then have "xs \<noteq> []" and e: "length xs + n - 1 = length (drop n xs) + n - 1 + n" by auto
    have "(length xs + n - 1) div n = Suc ((length (drop n xs) + n - 1) div n)"
      unfolding e by (rule div_add_self2 [THEN trans]) (use "1.prems" in simp_all)
    then show ?thesis using "1.IH" "1.prems" \<open>xs \<noteq> []\<close> by (simp add: chunks_step)
  qed
qed

lemma length_chunks_bounds:
  assumes "0 < n"
  shows "n < length xs \<Longrightarrow> 2 \<le> length (chunks n xs)" and "length (chunks n xs) \<le> length xs"
proof -
  show "2 \<le> length (chunks n xs)" if "n < length xs"
  proof -
    have "2 * n div n \<le> (length xs + n - 1) div n" using that by (intro div_le_mono) simp
    then show ?thesis using assms by (simp add: length_chunks)
  qed
  show "length (chunks n xs) \<le> length xs"
  proof -
    obtain b where n: "n = Suc b" using assms by (cases n) auto
    have "(length xs + n - 1) div n \<le> length xs * n div n"
      by (cases "length xs") (simp_all add: n div_le_mono)
    then show ?thesis using assms by (simp add: length_chunks)
  qed
qed

section \<open>The packets made from one packet\<close>

lemma split_loop_eq:
  "split_loop sid count rel i cs sp =
    (map (\<lambda>k. \<lparr>message_number = sp_message_number sp + of_nat k, rel_data = rel,
       split_info = Some \<lparr>split_id = sid, split_index = of_nat (i + k), split_count = count\<rparr>,
       rak_data = cs ! k\<rparr>) [0..<length cs],
     sp\<lparr>sp_message_number := sp_message_number sp + of_nat (length cs)\<rparr>)"
proof (induction cs arbitrary: i sp)
  case (Cons c cs)
  have u: "[0..<length (c # cs)] = 0 # map Suc [0..<length cs]"
    by (simp add: upt_conv_Cons map_Suc_upt del: upt_Suc)
  show ?case
    unfolding split_loop.simps Cons.IH next_message_number_def u
    by (simp add: o_def ac_simps)
qed simp

lemma header_len_simps [simp]:
  "header_len Unreliable False = 5" "header_len Reliable False = 5"
  "header_len UnreliableSequenced False = 10" "header_len ReliableOrdered False = 10"
  "header_len Unreliable True = 17" "header_len Reliable True = 17"
  "header_len UnreliableSequenced True = 22" "header_len ReliableOrdered True = 22"
  by (simp_all add: header_len_def)

lemma MAX_PACKET_SIZE_simp [simp]: "MAX_PACKET_SIZE = 1200"
  by (simp add: MAX_PACKET_SIZE_def MTU_SIZE_def UDP_HEADER_SIZE_def)

lemma next_rel_data_simps [simp]:
  "sp_message_number (snd (next_rel_data rel sp)) = sp_message_number sp"
  "sp_split_packet_index (snd (next_rel_data rel sp)) = sp_split_packet_index sp"
  "reliability_of (fst (next_rel_data rel sp)) = rel"
  by (cases rel; simp add: next_rel_data_def)+

text \<open>\<open>p\<close> goes out as one packet.\<close>

definition fits :: "packet \<Rightarrow> bool" where
  "fits p \<longleftrightarrow> header_len (reliability p) False + length (data p) \<le> MAX_PACKET_SIZE"

definition chunk_size :: "packet \<Rightarrow> nat" where
  "chunk_size p = MAX_PACKET_SIZE - header_len (reliability p) True"

lemma chunk_size_bounds: "0 < chunk_size p" "chunk_size p \<le> 1183" "\<not> fits p \<Longrightarrow> chunk_size p < length (data p)"
  by (cases "reliability p"; simp add: chunk_size_def fits_def)+

lemma outgoing_fits:
  assumes "fits p" and "next_rel_data (reliability p) sp = (rel, sp')"
  shows "process_outgoing_packet p sp =
    ([\<lparr>message_number = sp_message_number sp, rel_data = rel, split_info = None, rak_data = data p\<rparr>],
     sp'\<lparr>sp_message_number := sp_message_number sp + 1\<rparr>)"
  using assms next_rel_data_simps(1) [of "reliability p" sp]
  by (simp add: process_outgoing_packet_def fits_def next_message_number_def)

lemma outgoing_split:
  assumes "\<not> fits p" and "next_rel_data (reliability p) sp = (rel, sp')"
    and "cs = chunks (chunk_size p) (data p)"
  shows "process_outgoing_packet p sp =
    (map (\<lambda>k. \<lparr>message_number = sp_message_number sp + of_nat k, rel_data = rel,
       split_info = Some \<lparr>split_id = sp_split_packet_index sp, split_index = of_nat k,
         split_count = of_nat (length cs)\<rparr>,
       rak_data = cs ! k\<rparr>) [0..<length cs],
     sp'\<lparr>sp_split_packet_index := sp_split_packet_index sp + 1,
         sp_message_number := sp_message_number sp + of_nat (length cs)\<rparr>)"
  using assms next_rel_data_simps(1,2) [of "reliability p" sp]
  by (simp add: process_outgoing_packet_def fits_def next_split_packet_index_def split_loop_eq
      chunk_size_def Let_def)

lemma outgoing_one:
  assumes "process_outgoing_packet p sp = (qs, sp')"
  shows "map message_number qs = map (\<lambda>k. sp_message_number sp + of_nat k) [0..<length qs]"
    and "sp_message_number sp' = sp_message_number sp + of_nat (length qs)"
    and "qs \<noteq> []"
    and "concat (map rak_data qs) = data p"
    and "\<forall>q\<in>set qs. rel_data q = fst (next_rel_data (reliability p) sp)"
    and "\<forall>q\<in>set qs. header_len (reliability p) (split_info q \<noteq> None) + length (rak_data q) \<le> 1200"
    and "fits p \<longleftrightarrow> (\<exists>q. qs = [q] \<and> split_info q = None)"
    and "\<not> fits p \<Longrightarrow> 2 \<le> length qs \<and> length qs \<le> length (data p) \<and>
      list_all2 (is_part (sp_split_packet_index sp) (map rak_data qs)) [0..<length qs] qs"
proof -
  obtain rel sp1 where r: "next_rel_data (reliability p) sp = (rel, sp1)" by fastforce
  define cs where "cs = chunks (chunk_size p) (data p)"
  note c = chunk_size_bounds
  have s: "set cs \<subseteq> {c. length c \<le> chunk_size p}" "concat cs = data p"
    using set_chunks [OF c(1), of _ p "data p"] concat_chunks [OF c(1)] by (auto simp: cs_def)
  have l: "\<not> fits p \<Longrightarrow> 2 \<le> length cs" "length cs \<le> length (data p)"
    unfolding cs_def using length_chunks_bounds [OF c(1)] c(3) by blast+
  have h: "header_len (reliability p) True + chunk_size p = 1200"
    by (cases "reliability p") (simp_all add: chunk_size_def)
  note e = outgoing_fits [OF _ r] outgoing_split [OF _ r cs_def] assms
  show "map message_number qs = map (\<lambda>k. sp_message_number sp + of_nat k) [0..<length qs]"
    "sp_message_number sp' = sp_message_number sp + of_nat (length qs)"
    using e by (cases "fits p"; auto)+
  show "qs \<noteq> []" "fits p \<longleftrightarrow> (\<exists>q. qs = [q] \<and> split_info q = None)"
    using e l by (cases "fits p"; auto)+
  show "concat (map rak_data qs) = data p" using e s(2) by (cases "fits p") (auto simp: o_def map_nth)
  show "\<forall>q\<in>set qs. rel_data q = fst (next_rel_data (reliability p) sp)"
    using e r by (cases "fits p") auto
  show "\<forall>q\<in>set qs. header_len (reliability p) (split_info q \<noteq> None) + length (rak_data q) \<le> 1200"
    using e s(1) h by (cases "fits p") (auto simp: fits_def dest!: nth_mem)
  show "2 \<le> length qs \<and> length qs \<le> length (data p) \<and>
      list_all2 (is_part (sp_split_packet_index sp) (map rak_data qs)) [0..<length qs] qs"
    if "\<not> fits p"
    using that e l by (auto simp: is_part_def list_all2_conv_all_nth o_def map_nth)
qed

lemma upt_append_shift: "[0..<a + b] = [0..<a] @ map (\<lambda>k. a + k) [0..<b]"
  by (induction b) simp_all

lemma outgoing_numbers:
  "process_outgoing_packets ps sp = (qs, sp') \<Longrightarrow>
   map message_number qs = map (\<lambda>k. sp_message_number sp + of_nat k) [0..<length qs] \<and>
   sp_message_number sp' = sp_message_number sp + of_nat (length qs)"
proof (induction ps arbitrary: sp qs sp')
  case (Cons p ps)
  obtain qs1 sp1 where 1: "process_outgoing_packet p sp = (qs1, sp1)" by fastforce
  obtain qs2 sp2 where 2: "process_outgoing_packets ps sp1 = (qs2, sp2)" by fastforce
  have q: "qs = qs1 @ qs2" "sp' = sp2" using Cons.prems 1 2 by auto
  show ?case
    unfolding q length_append upt_append_shift using outgoing_one(1,2) [OF 1] Cons.IH [OF 2]
    by (simp add: o_def add.assoc)
qed simp

lemma outgoing_data_small:
  assumes "process_outgoing_packets ps sp = (qs, sp')" and "q \<in> set qs"
  shows "header_len (reliability_of (rel_data q)) (split_info q \<noteq> None) + length (rak_data q) \<le> 1200"
  using assms
proof (induction ps arbitrary: sp qs)
  case (Cons p ps)
  obtain qs1 sp1 where 1: "process_outgoing_packet p sp = (qs1, sp1)" by fastforce
  obtain qs2 sp2 where 2: "process_outgoing_packets ps sp1 = (qs2, sp2)" by fastforce
  have "reliability_of (rel_data r) = reliability p" if "r \<in> set qs1" for r
    using outgoing_one(5) [OF 1] that by simp
  then show ?case using Cons.prems Cons.IH [of sp1 qs2] outgoing_one(6) [OF 1] 1 2 by auto
qed simp

section \<open>Datagrams on the wire\<close>

definition acks_wire :: "range_list \<Rightarrow> u32 \<Rightarrow> bool list" where
  "acks_wire acks t =
     (if rl_is_empty acks then [False] else True # bytes_bits (u32_le t) @ rl_wire acks)"

definition datagram :: "range_list \<Rightarrow> u32 \<Rightarrow> raknet_packet \<Rightarrow> u8 list" where
  "datagram acks t p = bytes_of_bits (acks_wire acks t @ False # header_wire p) @ rak_data p"

text \<open>The datagrams of one call of \<open>send_packets\<close>: the acknowledgements go with the first.\<close>

fun datagrams :: "range_list \<Rightarrow> u32 \<Rightarrow> raknet_packet list \<Rightarrow> u8 list list" where
  "datagrams acks t [] = (if rl_is_empty acks then [] else [bytes_of_bits (acks_wire acks t)])"
| "datagrams acks t (p # ps) = datagram acks t p # map (datagram rl_new t) ps"

lemma rl_clear_eq [simp]: "rl_clear acks = rl_new"
  by (cases acks) (simp add: rl_clear_def rl_new_def)

lemma rl_is_empty_new [simp]: "rl_is_empty rl_new"
  by (simp add: rl_is_empty_def rl_new_def)

lemma rl_is_empty_eq: "rl_is_empty acks \<longleftrightarrow> acks = rl_new"
  by (cases acks) (simp add: rl_is_empty_def rl_new_def)

lemma bytes_of_bits_append:
  "length bs mod 8 = 0 \<Longrightarrow> bytes_of_bits (bs @ bytes_bits d) = bytes_of_bits bs @ d"
proof -
  assume a: "length bs mod 8 = 0"
  then have "bytes_bits (bytes_of_bits (bs @ bytes_bits d)) = bytes_bits (bytes_of_bits bs @ d)"
    by (simp add: mod_add_eq [symmetric])
  then show ?thesis by (metis take_bytes_bytes_bits_self length_bytes_bits mult_cancel1 zero_neq_numeral)
qed

lemma bytes_of_bits_pad [simp]: "bytes_of_bits (pad_bits bs) = bytes_of_bits bs"
  by (simp add: bytes_of_bits_def)

text \<open>On a socket whose sends may fail, some of these datagrams are sent and nothing else; all of
  them if no error is returned.\<close>

definition sends :: "unit res \<Rightarrow> udp_socket \<Rightarrow> u8 list set \<Rightarrow> udp_socket \<Rightarrow> bool" where
  "sends r udp ds udp' \<longleftrightarrow> snd ` set (udp_sent udp') \<subseteq> ds \<union> snd ` set (udp_sent udp) \<and>
     (r = Ok () \<longrightarrow> snd ` set (udp_sent udp') = ds \<union> snd ` set (udp_sent udp))"

lemma sends_trans:
  "sends (Ok ()) udp ds udp1 \<Longrightarrow> sends r udp1 es udp' \<Longrightarrow> sends r udp (ds \<union> es) udp'"
  by (auto simp: sends_def)

lemma sends_Err: "sends r udp ds udp' \<Longrightarrow> r \<noteq> Ok () \<Longrightarrow> sends r udp (ds \<union> es) udp'"
  by (auto simp: sends_def)

lemma send_datagram_sends:
  assumes "send_datagram sp d (acks, udp) = (r, acks', udp')"
  shows "acks' = acks \<and> sends r udp {d} udp'"
proof -
  consider (fails) e where "r = Err e" "acks' = acks" "udp_sent udp' = udp_sent udp"
    | (sent) a where "r = Ok ()" "acks' = acks" "udp_sent udp' = udp_sent udp @ [(a, d)]"
    using assms by (cases "udp_script udp"; cases "hd (udp_script udp)")
      (auto simp: send_datagram_def udp_send_to_def)
  then show ?thesis by cases (auto simp: sends_def)
qed

context writer_laws
begin

lemma write_acks_wire:
  "\<exists>w'. write_acks W t (w, acks) = (Ok w', rl_new) \<and> wbits w' = wbits w @ acks_wire acks t"
proof -
  have "map_res wbits (and_then (bw_bit W (\<not> rl_is_empty acks) w) (\<lambda>w.
      if \<not> rl_is_empty acks then and_then (bw_u32 W t w) (rl_write W acks) else Ok w)) =
      Ok (wbits w @ acks_wire acks t)"
    by (rule map_res_step [OF wr_bit])
      (auto simp: acks_wire_def encodes_rl [unfolded encodes_iff] intro!: map_res_step [OF wr_u32])
  then show ?thesis by (auto simp: write_acks_def Let_def map_res_eq_Ok)
qed

lemma send_packet_eq:
  assumes "length (rak_data p) < 2 ^ 13"
  shows "send_packet checks W sp t p (acks, udp) = send_datagram sp (datagram acks t p) (rl_new, udp)"
proof -
  obtain w1 where w1: "write_acks W t (bw_new W, acks) = (Ok w1, rl_new)"
    "wbits w1 = acks_wire acks t"
    using write_acks_wire [of t "bw_new W" acks] by (auto simp: wr_new)
  have "map_res wbits (and_then (bw_bit W False w1) (write_raknet_packet checks W p)) =
      Ok (pad_bits (acks_wire acks t @ False # header_wire p) @ bytes_bits (rak_data p))"
    by (rule map_res_step [OF wr_bit]) (simp add: write_packet_wire [OF assms(1)] w1(2))
  then obtain w2 where w2: "and_then (bw_bit W False w1) (write_raknet_packet checks W p) = Ok w2"
    "bw_finish W w2 = datagram acks t p"
    by (auto simp: map_res_eq_Ok wr_finish datagram_def bytes_of_bits_append)
  show ?thesis by (simp add: send_packet_def w1 w2)
qed

lemma send_packet_datagram:
  assumes "length (rak_data p) < 2 ^ 13" and "udp_reliable udp"
  shows "send_packet checks W sp t p (acks, udp) =
    (Ok (), rl_new, udp\<lparr>udp_sent := udp_sent udp @ [(sp_address sp, datagram acks t p)]\<rparr>)"
  by (simp add: send_packet_eq [OF assms(1)] send_datagram_def udp_send_to_reliable [OF assms(2)])

lemma send_acks_eq:
  "send_acks W sp t (acks, udp) =
    (if rl_is_empty acks then (Ok (), acks, udp)
     else send_datagram sp (bytes_of_bits (acks_wire acks t)) (rl_new, udp))"
proof -
  obtain w1 where w1: "write_acks W t (bw_new W, acks) = (Ok w1, rl_new)"
    "bw_finish W w1 = bytes_of_bits (acks_wire acks t)"
    using write_acks_wire [of t "bw_new W" acks] by (auto simp: wr_new wr_finish)
  then show ?thesis by (simp add: send_acks_def)
qed

lemma send_acks_datagram:
  assumes "udp_reliable udp"
  shows "send_acks W sp t (acks, udp) =
    (Ok (), rl_new, udp\<lparr>udp_sent := udp_sent udp @ map (Pair (sp_address sp)) (datagrams acks t [])\<rparr>)"
  by (simp add: send_acks_eq send_datagram_def udp_send_to_reliable [OF assms] rl_is_empty_eq)

lemma send_loop_sends:
  assumes "\<forall>p\<in>set ps. length (rak_data p) < 2 ^ 13" and "ps = [] \<Longrightarrow> acks = rl_new"
    and "send_loop checks W sp t ps (acks, udp) = (r, acks', udp')"
  shows "sends r udp (set (datagrams acks t ps)) udp'"
  using assms
proof (induction ps arbitrary: acks udp)
  case Nil
  then show ?case by (auto simp: sends_def)
next
  case (Cons p ps)
  obtain r1 acks1 udp1 where 1: "send_datagram sp (datagram acks t p) (rl_new, udp) = (r1, acks1, udp1)"
    by (cases "send_datagram sp (datagram acks t p) (rl_new, udp)") auto
  note s = send_datagram_sends [OF 1]
  have "datagrams rl_new t ps = map (datagram rl_new t) ps" by (cases ps) simp_all
  then have d: "set (datagrams acks t (p # ps)) = {datagram acks t p} \<union> set (datagrams rl_new t ps)" by simp
  have p: "length (rak_data p) < 2 ^ 13" "\<forall>p\<in>set ps. length (rak_data p) < 2 ^ 13" using Cons.prems(1) by auto
  show ?case
  proof (cases "r1 = Ok ()")
    case True
    then have "send_loop checks W sp t ps (rl_new, udp1) = (r, acks', udp')"
      using Cons.prems(3) s 1 by (simp add: send_packet_eq [OF p(1)])
    from Cons.IH [OF p(2) _ this] show ?thesis unfolding d using s True by (intro sends_trans) auto
  next
    case False
    then have "r = r1 \<and> udp' = udp1"
      using Cons.prems(3) 1 by (cases r1) (auto simp: send_packet_eq [OF p(1)])
    then show ?thesis unfolding d by (intro sends_Err) (use s False in simp_all)
  qed
qed

lemma send_packets_sends:
  assumes "process_outgoing_packets ps sp = (qs, sp1)"
    and "send_packets checks W ps t (sp, acks, udp) = (r, sp', acks', udp')"
  shows "sp' = sp1 \<and> sends r udp (set (datagrams acks t qs)) udp'"
proof (cases "qs = []")
  case True
  obtain r1 acks1 udp1 where 1: "send_acks W sp1 t (acks, udp) = (r1, acks1, udp1)"
    by (cases "send_acks W sp1 t (acks, udp)") auto
  then have "sp' = sp1 \<and> udp' = udp1 \<and> r = r1"
    using assms True by (cases r1) (auto simp: send_packets_def)
  then show ?thesis using 1 True
    by (auto simp: send_acks_eq sends_def [of _ udp "{}"] split: if_splits dest: send_datagram_sends)
next
  case False
  have "\<forall>q\<in>set qs. length (rak_data q) < 2 ^ 13"
    using outgoing_data_small [OF assms(1)] by fastforce
  moreover have "sp' = sp1 \<and> send_loop checks W sp1 t qs (acks, udp) = (r, acks', udp')"
    using assms False by (auto simp: send_packets_def split: prod.splits)
  ultimately show ?thesis using send_loop_sends False by blast
qed

lemma send_loop_datagrams:
  assumes "\<forall>p\<in>set ps. length (rak_data p) < 2 ^ 13" and "udp_reliable udp" and "ps = [] \<Longrightarrow> acks = rl_new"
  shows "send_loop checks W sp t ps (acks, udp) =
    (Ok (), rl_new, udp\<lparr>udp_sent := udp_sent udp @ map (Pair (sp_address sp)) (datagrams acks t ps)\<rparr>)"
  using assms
proof (induction ps arbitrary: acks udp)
  case (Cons p ps)
  have "datagrams rl_new t ps = map (datagram rl_new t) ps" by (cases ps) simp_all
  then show ?case using Cons.IH [of _ rl_new] Cons.prems(1,2)
    by (simp add: send_packet_datagram)
qed simp

lemma send_packets_datagrams:
  assumes "udp_reliable udp" and "process_outgoing_packets ps sp = (qs, sp')"
  shows "send_packets checks W ps t (sp, acks, udp) =
    (Ok (), sp', rl_new, udp\<lparr>udp_sent := udp_sent udp @ map (Pair (sp_address sp')) (datagrams acks t qs)\<rparr>)"
proof -
  have "\<forall>q\<in>set qs. length (rak_data q) < 2 ^ 13"
    using outgoing_data_small [OF assms(2)] by fastforce
  then show ?thesis
    using send_loop_datagrams [of qs udp acks checks sp' t] send_acks_datagram [OF assms(1), of sp' t acks]
    by (cases qs) (simp_all add: send_packets_def assms)
qed

end

section \<open>Sizes of datagrams\<close>

lemma length_bytes_of_bits_eq: "length (bytes_of_bits bs) = (length bs + 7) div 8"
proof -
  let ?L = "length (bytes_of_bits bs)"
  have "8 * ?L \<le> length bs + 7" "length bs + 7 < 8 * ?L + 8"
    using length_bytes_of_bits [of bs] pad_len_less [of "length bs"] by linarith+
  then show ?thesis by linarith
qed

lemma length_datagram:
  "length (datagram acks t p) =
    (length (acks_wire acks t) + length (header_wire p) + 8) div 8 + length (rak_data p)"
  by (simp add: datagram_def length_bytes_of_bits_eq)

lemma acks_wire_new [simp]: "acks_wire rl_new t = [False]"
  by (simp add: acks_wire_def)

lemma is_ordered_iff: "is_ordered rel \<longleftrightarrow> reliability_of rel \<in> {UnreliableSequenced, ReliableOrdered}"
  by (simp add: is_ordered_def)

lemma header_len_eq:
  "header_len rel split = (if rel \<in> {UnreliableSequenced, ReliableOrdered} then 10 else 5) +
     (if split then 12 else 0)"
  by (cases rel; cases split) simp_all

lemma length_header_unsplit:
  assumes "split_info p = None" and "32 \<le> length (rak_data p)" and "length (rak_data p) < 2 ^ 13"
  shows "length (header_wire p) = 53 + (if is_ordered (rel_data p) then 37 else 0)"
proof -
  have "unat (of_nat (length (rak_data p) * 8) :: u16) = length (rak_data p) * 8"
    using assms(3) by (simp add: unat_of_nat take_bit_eq_mod del: of_nat_mult)
  then have "\<not> (of_nat (length (rak_data p) * 8) :: u16) < 2 ^ 8"
    using assms(2) by (simp add: word_less_nat_alt del: of_nat_mult)
  then show ?thesis
    using assms(1) by (simp add: header_wire_def length_reliability_wire compressed_u16_wire_def)
qed

lemma datagram_size:
  assumes "header_len (reliability_of (rel_data p)) (split_info p \<noteq> None) + length (rak_data p) \<le> 1200"
  shows "length (datagram rl_new t p) \<le> 1202"
  using length_header_wire [of p] assms
  by (auto simp: length_datagram header_len_eq is_ordered_iff split: if_splits)

section \<open>Properties\<close>

text \<open>C24: a packet that fits goes out as one packet; any other as at least two parts, in index order,
  with one split id and the common count. The pieces concatenate to the packet's data, all carry
  the reliability data assigned to the packet, and each keeps the header estimate plus its data
  within the maximum.\<close>

theorem outgoing_packet_parts:
  assumes "process_outgoing_packet p sp = (qs, sp')"
  shows "concat (map rak_data qs) = data p \<and>
    (\<forall>q\<in>set qs. rel_data q = fst (next_rel_data (reliability p) sp) \<and>
      header_len (reliability p) (split_info q \<noteq> None) + length (rak_data q) \<le> MAX_PACKET_SIZE) \<and>
    (if header_len (reliability p) False + length (data p) \<le> MAX_PACKET_SIZE
     then \<exists>q. qs = [q] \<and> split_info q = None
     else 2 \<le> length qs \<and>
       list_all2 (is_part (sp_split_packet_index sp) (map rak_data qs)) [0..<length qs] qs)"
  using outgoing_one(4-8) [OF assms] by (auto simp: fits_def)

theorem outgoing_packet_parts_witness:
  "concat (map rak_data (fst (process_outgoing_packet (mk_packet ReliableOrdered (replicate 3600 1))
      (send_part_new (localhost 1))))) = replicate 3600 1"
  using outgoing_packet_parts [of "mk_packet ReliableOrdered (replicate 3600 1)" "send_part_new (localhost 1)"]
  by (cases "process_outgoing_packet (mk_packet ReliableOrdered (replicate 3600 1)) (send_part_new (localhost 1))")
    simp

text \<open>The packets made from a list of packets are numbered consecutively modulo $2^{32}$ from
  the next message number, across packets and split parts; fewer than $2^{32}$ of them have
  distinct numbers, which the acknowledgements rely on.\<close>

theorem message_numbers_consecutive:
  assumes "process_outgoing_packets ps sp = (qs, sp')"
  shows "map message_number qs = map (\<lambda>k. sp_message_number sp + of_nat k) [0..<length qs] \<and>
    sp_message_number sp' = sp_message_number sp + of_nat (length qs) \<and>
    (length qs \<le> 2 ^ 32 \<longrightarrow> distinct (map message_number qs))"
  using outgoing_numbers [OF assms]
  by (auto simp: distinct_map of_nat_u32_eq_iff intro!: inj_onI)

theorem message_numbers_consecutive_witness:
  "map message_number (fst (process_outgoing_packets
      (replicate 3 (mk_packet Unreliable [])) (send_part_new (localhost 1)\<lparr>sp_message_number := - 1\<rparr>))) =
    map (\<lambda>k. - 1 + of_nat k) [0..<length (fst (process_outgoing_packets
      (replicate 3 (mk_packet Unreliable [])) (send_part_new (localhost 1)\<lparr>sp_message_number := - 1\<rparr>)))]"
  using message_numbers_consecutive [of "replicate 3 (mk_packet Unreliable [])"
      "send_part_new (localhost 1)\<lparr>sp_message_number := - 1\<rparr>"]
  by (cases "process_outgoing_packets (replicate 3 (mk_packet Unreliable []))
      (send_part_new (localhost 1)\<lparr>sp_message_number := - 1\<rparr>)") (simp add: send_part_new_def)

text \<open>When no send fails, \<open>send_packets\<close> sends the datagram of each packet in order to the peer,
  the first one with the pending acknowledgements and the later ones without; with no packet it
  sends the acknowledgements alone, if there are any. The list of acknowledgements is empty
  afterwards and no build panics on a length.\<close>

theorem send_packets_sends_datagrams:
  assumes "writer_laws W wbits" and "udp_reliable udp"
    and "process_outgoing_packets ps sp = (qs, sp')"
  shows "send_packets checks W ps t (sp, acks, udp) =
    (Ok (), sp', rl_new, udp\<lparr>udp_sent := udp_sent udp @ map (Pair (sp_address sp')) (datagrams acks t qs)\<rparr>)"
  using writer_laws.send_packets_datagrams [OF assms] .

definition udp_idle :: udp_socket where
  "udp_idle = \<lparr>udp_sent = [], udp_script = [], udp_inbox = [], udp_local = localhost 2000\<rparr>"

theorem send_packets_sends_datagrams_witness:
  "send_packets True bits_writer [] 7 (send_part_new (localhost 1), \<lparr>ranges = [mk_range 3 4]\<rparr>, udp_idle) =
    (Ok (), send_part_new (localhost 1), rl_new,
     udp_idle\<lparr>udp_sent := [(localhost 1, bytes_of_bits (acks_wire \<lparr>ranges = [mk_range 3 4]\<rparr> 7))]\<rparr>)"
  using send_packets_sends_datagrams [OF codec_writer [OF bits_codec], of udp_idle "[]"
      "send_part_new (localhost 1)" "[]" "send_part_new (localhost 1)"]
  by (simp add: udp_idle_def udp_reliable_def rl_is_empty_def send_part_new_def)

text \<open>A datagram that carries a packet and no acknowledgements exceeds the maximum size by at
  most two bytes.\<close>

theorem datagram_size_bound:
  assumes "process_outgoing_packets ps sp = (qs, sp')" and "q \<in> set qs"
  shows "length (datagram rl_new t q) \<le> MAX_PACKET_SIZE + 2"
  using datagram_size [OF outgoing_data_small [OF assms]] by simp

text \<open>C35: the bound is reached. \<open>header_len\<close> leaves out the length field of a packet that is not
  split, so an unsplit packet of at least 32 bytes needs two bytes more than the estimate, and the
  largest ones exceed the maximum datagram size.\<close>

theorem largest_unsplit_exceeds_limit:
  assumes "process_outgoing_packet p sp = ([q], sp')" and "32 \<le> length (data p)"
    and "MAX_PACKET_SIZE - 2 < header_len (reliability p) False + length (data p)"
  shows "length (datagram rl_new t q) = header_len (reliability p) False + length (data p) + 2 \<and>
    MAX_PACKET_SIZE < length (datagram rl_new t q)"
proof -
  note o = outgoing_one [OF assms(1)]
  have f: "fits p" using o(8) by auto
  then have q: "split_info q = None" "rak_data q = data p" "reliability_of (rel_data q) = reliability p"
    using o(4,5,7) by auto
  have "length (datagram rl_new t q) = header_len (reliability p) False + length (data p) + 2"
    using length_header_unsplit [OF q(1)] q f assms(2)
    by (auto simp: length_datagram header_len_eq is_ordered_iff fits_def split: if_splits)
  then show ?thesis using assms(3) by simp
qed

definition big_packet :: packet where
  "big_packet = mk_packet Reliable (replicate 1195 7)"

lemma big_packet_outgoing:
  "process_outgoing_packet big_packet (send_part_new (localhost 1)) =
    ([\<lparr>message_number = 0, rel_data = ReliableData, split_info = None, rak_data = replicate 1195 7\<rparr>],
     (send_part_new (localhost 1))\<lparr>sp_message_number := 1\<rparr>)"
  using outgoing_fits [of big_packet "send_part_new (localhost 1)" ReliableData "send_part_new (localhost 1)"]
  by (simp add: big_packet_def fits_def next_rel_data_def send_part_new_def)

theorem largest_unsplit_exceeds_limit_witness:
  "MAX_PACKET_SIZE < length (datagram rl_new 0 \<lparr>message_number = 0, rel_data = ReliableData,
     split_info = None, rak_data = replicate 1195 7\<rparr>)"
  using largest_unsplit_exceeds_limit [OF big_packet_outgoing, of 0] by (simp add: big_packet_def)

theorem datagram_size_bound_witness:
  "length (datagram rl_new 0 \<lparr>message_number = 0, rel_data = ReliableData,
     split_info = None, rak_data = replicate 1195 7\<rparr>) \<le> MAX_PACKET_SIZE + 2"
  using datagram_size_bound [of "[big_packet]" "send_part_new (localhost 1)" _ _ _ 0]
  by (simp add: big_packet_outgoing)

end
