(* ===== verification/Connection.thy ===== *)
theory Connection
  imports Recv Send
begin

text \<open>
  \<open>src/raknet/connection.rs\<close>: a RakNet connection as the composition of its receiving and its
  sending half, with the acknowledgements one collects and the other sends. The lemmas connect
  both halves: what one connection sends, another delivers.
\<close>

section \<open>State\<close>

record connection =
  conn_closed :: bool
  conn_time :: u32
  conn_acks :: range_list
  conn_recv :: receive_part
  conn_send :: send_part

definition connection_new :: "sock_addr \<Rightarrow> connection" where
  "connection_new a = \<lparr>conn_closed = False, conn_time = 0, conn_acks = rl_new,
     conn_recv = receive_part_default, conn_send = send_part_new a\<rparr>"

section \<open>Receiving\<close>

text \<open>\<open>handle_header\<close>: the time and acknowledgements of the peer are read and dropped. The result is
  the new value of \<open>remote_system_time\<close>, the field \<open>conn_time\<close>.\<close>

definition handle_header :: "'r bit_reader \<Rightarrow> u32 \<Rightarrow> 'r \<Rightarrow> (u32 \<times> 'r) res" where
  "handle_header R time r =
     and_then (br_bit R r) (\<lambda>(has_acks, r).
     and_then (if has_acks
               then and_then (br_u32 R r) (\<lambda>(old_time, r).
                    and_then (rl_read R r) (\<lambda>(acks, r). Ok ((), r)))
               else Ok ((), r)) (\<lambda>(_, r).
     and_then (br_bit R r) (\<lambda>(has_remote_system_time, r).
       if has_remote_system_time then br_u32 R r else Ok (time, r))))"

text \<open>\<open>handle_datagram\<close>. \<open>None\<close> is a reader with which parsing does not end. A failed header leaves
  the connection as it was: the one assignment in it follows the last read that can fail.\<close>

definition handle_datagram ::
  "'r bit_reader \<Rightarrow> u8 list \<Rightarrow> connection \<Rightarrow> (packet list res \<times> connection) option" where
  "handle_datagram R bs c =
     (case handle_header R (conn_time c) (br_new R bs) of
        Err e \<Rightarrow> Some (Err e, c)
      | Panic \<Rightarrow> Some (Panic, c)
      | Ok (time, r) \<Rightarrow>
          let c = c\<lparr>conn_time := time\<rparr> in
          (case parse_packets R r of
             None \<Rightarrow> None
           | Some (Ok rak_packets) \<Rightarrow>
               Some (case process_incoming_packets (conn_recv c) rak_packets (conn_acks c) (conn_closed c) of
                  Ok rx \<Rightarrow> (Ok (rx_out rx),
                    c\<lparr>conn_recv := rx_part rx, conn_acks := rx_acks rx, conn_closed := rx_closed rx\<rparr>)
                | Err e \<Rightarrow> (Err e, c)
                | Panic \<Rightarrow> (Panic, c))
           | Some (Err e) \<Rightarrow> Some (Err e, c)
           | Some Panic \<Rightarrow> Some (Panic, c)))"

section \<open>Sending\<close>

definition connection_send ::
  "bool \<Rightarrow> 'w bit_writer \<Rightarrow> packet list \<Rightarrow> connection \<times> udp_socket \<Rightarrow> unit res \<times> connection \<times> udp_socket" where
  "connection_send checks W packets s =
     (case s of (c, udp) \<Rightarrow>
        if conn_closed c then (Err ConnectionAborted, c, udp)
        else case send_packets checks W packets (conn_time c) (conn_send c, conn_acks c, udp) of
          (r, sp, acks, udp) \<Rightarrow> (r, c\<lparr>conn_send := sp, conn_acks := acks\<rparr>, udp))"

text \<open>\<open>impl Drop\<close>: the result of the last send is ignored.\<close>

definition connection_drop ::
  "bool \<Rightarrow> 'w bit_writer \<Rightarrow> connection \<times> udp_socket \<Rightarrow> connection \<times> udp_socket" where
  "connection_drop checks W s =
     snd (connection_send checks W [mk_packet Unreliable [message_id DisconnectNotification]] s)"

section \<open>What one connection makes of a packet the other delivers\<close>

text \<open>The receiver expects the indices the sender assigns next and has nothing queued.\<close>

definition synced :: "send_part \<Rightarrow> receive_part \<Rightarrow> bool" where
  "synced sp rp \<longleftrightarrow> rel_ord_index rp = sp_rel_ord_index sp \<and>
     unrel_seq_index rp = sp_unrel_seq_index sp \<and>
     out_of_order_packets rp = [] \<and> split_packet_queue rp = []"

lemma synced_new: "synced (send_part_new a) receive_part_default"
  by (simp add: synced_def send_part_new_def receive_part_default_def)

lemma deliver_synced:
  assumes "synced sp rp" and "next_rel_data rel sp = (rd, sp')" and "rel_data q = rd"
  shows "\<exists>rp'. deliver q rp out = (rp', out @ [mk_packet rel (rak_data q)]) \<and> synced sp' rp'"
  using assms(1,2) unat_half_range
  by (cases rel) (auto simp: deliver_def synced_def next_rel_data_def drain_None packet_of_def
      word_less_nat_alt assms(3))

lemma synced_irrelevant [simp]:
  "synced (sp\<lparr>sp_message_number := n\<rparr>) rp = synced sp rp"
  "synced (sp\<lparr>sp_split_packet_index := i\<rparr>) rp = synced sp rp"
  by (simp_all add: synced_def)

lemma synced_split_queue:
  "synced sp rp \<Longrightarrow> q = [] \<Longrightarrow> synced sp (rp\<lparr>split_packet_queue := q\<rparr>)"
  by (simp add: synced_def)

lemma outgoing_delivered:
  assumes "process_outgoing_packet p sp = (qs, sp')" and "synced sp (rx_part st)"
    and "\<not> is_disconnect (data p)" and "length (data p) < 2 ^ 32"
  shows "\<exists>st'. process_loop qs st = Ok st' \<and> rx_out st' = rx_out st @ [p] \<and>
    rx_closed st' = rx_closed st \<and> synced sp' (rx_part st')"
proof -
  obtain rel sp1 where r: "next_rel_data (reliability p) sp = (rel, sp1)" by fastforce
  note o = outgoing_one [OF assms(1)]
  have p: "mk_packet (reliability p) (data p) = p" by (cases p) (simp add: mk_packet_def)
  show ?thesis
  proof (cases "fits p")
    case True
    let ?q = "\<lparr>message_number = sp_message_number sp, rel_data = rel, split_info = None, rak_data = data p\<rparr>"
    have q: "qs = [?q]" "sp' = sp1\<lparr>sp_message_number := sp_message_number sp + 1\<rparr>"
      using outgoing_fits [OF True r] assms(1) by auto
    obtain rp where rp: "deliver ?q (rx_part st) (rx_out st) = (rp, rx_out st @ [p])" "synced sp1 rp"
      using deliver_synced [OF assms(2) r, of ?q "rx_out st"] p by auto
    then show ?thesis using process_plain [of ?q st] assms(3) q by auto
  next
    case False
    let ?ds = "map rak_data qs"
    note o8 = o(8) [OF False]
    have q: "sp' = sp1\<lparr>sp_split_packet_index := sp_split_packet_index sp + 1,
        sp_message_number := sp_message_number sp + of_nat (length qs)\<rparr>"
      using outgoing_split [OF False r refl] assms(1) by auto
    have "list_all2 (is_part (sp_split_packet_index sp) ?ds) [0..<length qs] qs"
      "1 < length ?ds" "length ?ds < 2 ^ 32" using o8 assms(4) by auto
    moreover have "set [0..<length qs] = {..<length ?ds} - {}" by auto
    moreover have "collecting (sp_split_packet_index sp) ?ds {} (split_packet_queue (rx_part st))"
      using assms(2) by (simp add: collecting_def synced_def)
    moreover have "[0..<length qs] \<noteq> []" using o(3) by simp
    ultimately obtain acks' queue where l: "process_loop qs st =
        Ok (case deliver ((last qs)\<lparr>rak_data := concat ?ds\<rparr>)
            (rx_part st\<lparr>split_packet_queue := queue\<rparr>) (rx_out st) of
          (rp, out) \<Rightarrow> st\<lparr>rx_acks := acks', rx_part := rp, rx_out := out\<rparr>)"
      and e: "map_of queue (sp_split_packet_index sp) = None"
        "\<forall>j. j \<noteq> sp_split_packet_index sp \<longrightarrow> map_of queue j = map_of (split_packet_queue (rx_part st)) j"
      using process_parts [of "sp_split_packet_index sp" ?ds "[0..<length qs]" qs "{}" st] o(4) assms(3)
      by (metis distinct_upt)
    have "map_of queue = Map.empty"
    proof
      fix j show "map_of queue j = None"
        using e assms(2) by (cases "j = sp_split_packet_index sp") (simp_all add: synced_def)
    qed
    then have s: "synced sp (rx_part st\<lparr>split_packet_queue := queue\<rparr>)"
      by (intro synced_split_queue assms(2)) simp
    have "rel_data ((last qs)\<lparr>rak_data := concat ?ds\<rparr>) = rel" using o(3,5) r by simp
    from deliver_synced [OF s r this, of "rx_out st"] show ?thesis
      using l o(4) p q by auto
  qed
qed

lemma outgoing_all_delivered:
  assumes "process_outgoing_packets ps sp = (qs, sp')" and "synced sp (rx_part st)"
    and "\<forall>p\<in>set ps. \<not> is_disconnect (data p) \<and> length (data p) < 2 ^ 32"
  shows "\<exists>st'. process_loop qs st = Ok st' \<and> rx_out st' = rx_out st @ ps \<and>
    rx_closed st' = rx_closed st \<and> synced sp' (rx_part st')"
  using assms
proof (induction ps arbitrary: sp qs sp' st)
  case (Cons p ps)
  obtain qs1 sp1 where 1: "process_outgoing_packet p sp = (qs1, sp1)" by fastforce
  obtain qs2 sp2 where 2: "process_outgoing_packets ps sp1 = (qs2, sp2)" by fastforce
  obtain st1 where st1: "process_loop qs1 st = Ok st1" "rx_out st1 = rx_out st @ [p]"
      "rx_closed st1 = rx_closed st" "synced sp1 (rx_part st1)"
    using outgoing_delivered [OF 1 Cons.prems(2)] Cons.prems(3) by auto
  then show ?case using Cons.IH [OF 2 st1(4)] Cons.prems(1,3) 1 2
    by (auto simp: process_loop_append)
qed simp

section \<open>Processing only appends to the packets returned\<close>

definition prefix_out :: "packet list \<Rightarrow> rx \<Rightarrow> rx" where
  "prefix_out pre s = s\<lparr>rx_out := pre @ rx_out s\<rparr>"

lemma prefix_out_sel [simp]:
  "rx_part (prefix_out pre s) = rx_part s" "rx_acks (prefix_out pre s) = rx_acks s"
  "rx_closed (prefix_out pre s) = rx_closed s" "rx_out (prefix_out pre s) = pre @ rx_out s"
  by (simp_all add: prefix_out_def)

lemma drain_prefix:
  "drain idx q (pre @ out) = (case drain idx q out of (i, q', out') \<Rightarrow> (i, q', pre @ out'))"
proof (induction idx q out rule: drain.induct)
  case (1 idx q out)
  then show ?case by (cases "map_of q idx") (simp_all add: drain_None drain_Some)
qed

lemma deliver_prefix:
  "deliver p rp (pre @ out) = (case deliver p rp out of (rp', out') \<Rightarrow> (rp', pre @ out'))"
  by (auto simp: deliver_def drain_prefix split: reliability_data.split prod.split)

lemma process_packet_prefix:
  "process_packet p (prefix_out pre s) = map_res (prefix_out pre) (process_packet p s)"
proof -
  obtain acks where "ack_packet p (rx_acks s) = Ok acks" using ack_packet_ok by blast
  then show ?thesis
    by (cases "take_split p (rx_part s)")
      (auto simp: process_packet_def deliver_prefix prefix_out_def split: option.split prod.split)
qed

lemma process_loop_prefix:
  "process_loop ps (prefix_out pre s) = map_res (prefix_out pre) (process_loop ps s)"
proof (induction ps arbitrary: s)
  case (Cons p ps)
  then show ?case by (cases "process_packet p s") (simp_all add: process_packet_prefix)
qed simp

section \<open>Reading a datagram\<close>

lemma read_header_wire:
  assumes "length (ranges acks) < 2 ^ 16"
  shows "handle_header bits_reader time (acks_wire acks t @ False # rest) = Ok (time, rest)"
  using assms by (simp add: handle_header_def acks_wire_def rl_read_wire)

context reader_laws
begin

lemma sim_handle_header [sim]:
  "map_state rbits (handle_header R time r) = handle_header bits_reader time (rbits r)"
  unfolding handle_header_def
  by (auto intro!: map_state_and_then sim)

lemma sim_handle_datagram: "handle_datagram R bs c = handle_datagram bits_reader bs c"
proof (cases "handle_header R (conn_time c) (br_new R bs)")
  case (Ok x)
  then obtain time r where "handle_header R (conn_time c) (br_new R bs) = Ok (time, r)"
    by (cases x) auto
  moreover from this have
    "handle_header bits_reader (conn_time c) (br_new bits_reader bs) = Ok (time, rbits r)"
    using sim_handle_header [of "conn_time c" "br_new R bs"] by (simp add: rd_new)
  ultimately show ?thesis by (simp add: handle_datagram_def sim_parse_packets)
next
  case (Err e)
  then show ?thesis using sim_handle_header [of "conn_time c" "br_new R bs", symmetric]
    by (simp add: handle_datagram_def rd_new)
next
  case Panic
  then show ?thesis using sim_handle_header [of "conn_time c" "br_new R bs", symmetric]
    by (simp add: handle_datagram_def rd_new)
qed

end

lemma parse_one_packet:
  assumes "length (rak_data p) < 2 ^ 13" and "k < 8"
  shows "parse_packets bits_reader (header_wire p @ replicate k False @ bytes_bits (rak_data p)) =
    Some (Ok [seen_packet p])"
proof -
  have "read_raknet_packet bits_reader [] = Err UnexpectedEof"
    by (simp add: read_raknet_packet_def bits_reader_def take_read_def)
  then show ?thesis
    using read_packet_wire [OF assms, of "[]"] by (simp add: parse_packets_def parse_loop.simps)
qed

lemma read_few_bits: "k < 8 \<Longrightarrow> read_raknet_packet bits_reader (replicate k False) = Err UnexpectedEof"
  by (simp add: read_raknet_packet_def bits_reader_def take_read_def)

text \<open>What the connection makes of the packets that a datagram holds.\<close>

definition conn_rx :: "connection \<Rightarrow> rx" where
  "conn_rx c = \<lparr>rx_part = conn_recv c, rx_acks = conn_acks c, rx_closed = conn_closed c, rx_out = []\<rparr>"

definition conn_after :: "connection \<Rightarrow> rx \<Rightarrow> connection" where
  "conn_after c s = c\<lparr>conn_recv := rx_part s, conn_acks := rx_acks s, conn_closed := rx_closed s\<rparr>"

lemma handle_datagram_of_packet:
  assumes "length (rak_data p) < 2 ^ 13" and "length (ranges acks) < 2 ^ 16"
    and "process_packet (seen_packet p) (conn_rx c) = Ok s"
  shows "handle_datagram bits_reader (datagram acks t p) c = Some (Ok (rx_out s), conn_after c s)"
proof -
  let ?bits = "acks_wire acks t @ False # header_wire p"
  have b: "bytes_bits (datagram acks t p) = acks_wire acks t @ False #
      header_wire p @ replicate (pad_len (length ?bits)) False @ bytes_bits (rak_data p)"
    by (simp add: datagram_def pad_bits_def)
  show ?thesis
    using assms(3)
    by (simp add: handle_datagram_def b read_header_wire [OF assms(2)] parse_one_packet [OF assms(1)]
        process_incoming_packets_def conn_rx_def conn_after_def)
qed

section \<open>A sequence of datagrams\<close>

text \<open>The calls of \<open>handle_datagram\<close> for datagrams that arrive in order, with all that they return.\<close>

fun handle_datagrams ::
  "'r bit_reader \<Rightarrow> u8 list list \<Rightarrow> connection \<Rightarrow> (packet list res \<times> connection) option" where
  "handle_datagrams R [] c = Some (Ok [], c)"
| "handle_datagrams R (d # ds) c =
     (case handle_datagram R d c of
        Some (Ok ps, c) \<Rightarrow>
          (case handle_datagrams R ds c of
             Some (Ok qs, c) \<Rightarrow> Some (Ok (ps @ qs), c)
           | r \<Rightarrow> r)
      | r \<Rightarrow> r)"

lemma conn_rx_after: "prefix_out (rx_out s) (conn_rx (conn_after c s)) = s"
  by (simp add: prefix_out_def conn_rx_def conn_after_def)

lemma conn_after_after [simp]: "conn_after (conn_after c s) s' = conn_after c s'"
  by (simp add: conn_after_def)

lemma handle_datagrams_step:
  assumes "length (rak_data p) < 2 ^ 13" and "length (ranges acks) < 2 ^ 16" and "seen_packet p = p"
    and "process_packet p (conn_rx c) = Ok s"
    and "handle_datagrams bits_reader ds (conn_after c s) = Some (Ok out, c')"
  shows "handle_datagrams bits_reader (datagram acks t p # ds) c = Some (Ok (rx_out s @ out), c')"
  using handle_datagram_of_packet [OF assms(1,2), of c s t] assms(3-5) by simp

lemma handle_datagrams_loop:
  assumes "\<forall>p\<in>set ps. length (rak_data p) < 2 ^ 13 \<and> seen_packet p = p"
    and "length (ranges acks) < 2 ^ 16" and "ps = [] \<Longrightarrow> acks = rl_new"
    and "process_loop ps (conn_rx c) = Ok s"
  shows "handle_datagrams bits_reader (datagrams acks t ps) c = Some (Ok (rx_out s), conn_after c s)"
  using assms
proof (induction ps arbitrary: acks c s)
  case Nil
  then show ?case by (auto simp: conn_rx_def conn_after_def)
next
  case (Cons p ps)
  obtain s1 where s1: "process_packet p (conn_rx c) = Ok s1" "process_loop ps s1 = Ok s"
    using Cons.prems(4) by (auto simp: and_then_eq_Ok)
  have "process_loop ps (prefix_out (rx_out s1) (conn_rx (conn_after c s1))) = Ok s"
    by (simp add: s1 conn_rx_after)
  then obtain s2 where s2: "process_loop ps (conn_rx (conn_after c s1)) = Ok s2"
    "prefix_out (rx_out s1) s2 = s"
    unfolding process_loop_prefix by (auto simp: map_res_eq_Ok)
  have d: "datagrams rl_new t ps = map (datagram rl_new t) ps" by (cases ps) simp_all
  have "handle_datagrams bits_reader (map (datagram rl_new t) ps) (conn_after c s1) =
      Some (Ok (rx_out s2), conn_after c s2)"
    using Cons.IH [of rl_new "conn_after c s1" s2] Cons.prems(1) s2(1)
    by (simp add: d) (simp add: rl_new_def)
  then have "handle_datagrams bits_reader (datagram acks t p # map (datagram rl_new t) ps) c =
      Some (Ok (rx_out s1 @ rx_out s2), conn_after c s2)"
    using Cons.prems(1,2) s1(1) by (intro handle_datagrams_step) auto
  moreover have "conn_after c s2 = conn_after c s"
    using s2(2) by (auto simp: conn_after_def)
  ultimately show ?case using s2(2) by (auto simp del: handle_datagrams.simps)
qed

context reader_laws
begin

lemma sim_handle_datagrams: "handle_datagrams R ds c = handle_datagrams bits_reader ds c"
proof (induction ds arbitrary: c)
  case (Cons d ds)
  then have h: "handle_datagrams R ds = handle_datagrams bits_reader ds" by blast
  show ?case unfolding handle_datagrams.simps sim_handle_datagram h by (rule refl)
qed simp

end

lemma length_parts_seen:
  assumes "length (data p) \<le> 255 * 1178"
  shows "length (chunks (chunk_size p) (data p)) \<le> 255"
proof -
  have "1178 \<le> chunk_size p" by (cases "reliability p") (simp_all add: chunk_size_def)
  then show ?thesis
    unfolding length_chunks [OF chunk_size_bounds(1)]
    using assms chunk_size_bounds(1) [of p]
    by (intro less_Suc_eq_le [THEN iffD1] less_mult_imp_div_less) (auto intro: le_less_trans)
qed

lemma outgoing_seen:
  assumes "process_outgoing_packets ps sp = (qs, sp')" and "q \<in> set qs"
    and "\<forall>p\<in>set ps. length (data p) \<le> 255 * 1178"
  shows "seen_packet q = q"
  using assms
proof (induction ps arbitrary: sp qs sp')
  case (Cons p ps)
  obtain qs1 sp1 where 1: "process_outgoing_packet p sp = (qs1, sp1)" by fastforce
  obtain qs2 sp2 where 2: "process_outgoing_packets ps sp1 = (qs2, sp2)" by fastforce
  have "seen_packet q = q" if q: "q \<in> set qs1"
  proof (cases "fits p")
    case True
    then show ?thesis using outgoing_one(7) [OF 1] that by (auto simp: seen_packet_def)
  next
    case False
    obtain rel sp3 where r: "next_rel_data (reliability p) sp = (rel, sp3)" by fastforce
    define cs where "cs = chunks (chunk_size p) (data p)"
    have "length cs \<le> 255" unfolding cs_def using Cons.prems(3) by (intro length_parts_seen) simp
    moreover obtain k where "k < length cs" "split_info q = Some \<lparr>split_id = sp_split_packet_index sp,
        split_index = of_nat k, split_count = of_nat (length cs)\<rparr>"
      using q 1 outgoing_split [OF False r cs_def] by auto
    ultimately show ?thesis
      by (intro seen_packet_id)
        (simp add: split_safe_def compressed_u32_safe_def word_less_nat_alt unat_of_nat_u32)
  qed
  then show ?case using Cons.prems Cons.IH [OF 2] 1 2 by auto
qed simp

section \<open>From one connection to the other\<close>

lemma connection_delivers:
  assumes "codec_laws R rbits W wbits" and "udp_reliable udp"
    and "\<not> conn_closed a" and "synced (conn_send a) (conn_recv b)"
    and "\<forall>p\<in>set ps. \<not> is_disconnect (data p) \<and> length (data p) \<le> 255 * 1178"
    and "length (ranges (conn_acks a)) < 2 ^ 16" and "ps \<noteq> []"
  shows "\<exists>ds a' b'. connection_send checks W ps (a, udp) = (Ok (), a', udp\<lparr>udp_sent :=
        udp_sent udp @ map (Pair (sp_address (conn_send a'))) ds\<rparr>) \<and>
      handle_datagrams R ds b = Some (Ok ps, b') \<and>
      synced (conn_send a') (conn_recv b') \<and> conn_closed b' = conn_closed b \<and>
      conn_closed a' = conn_closed a \<and> conn_acks a' = rl_new"
proof -
  obtain qs sp' where o: "process_outgoing_packets ps (conn_send a) = (qs, sp')" by fastforce
  have small: "\<forall>q\<in>set qs. length (rak_data q) < 2 ^ 13 \<and> seen_packet q = q"
    using outgoing_data_small [OF o] outgoing_seen [OF o] assms(5) by fastforce
  have "\<forall>p\<in>set ps. \<not> is_disconnect (data p) \<and> length (data p) < 2 ^ 32" using assms(5) by fastforce
  then obtain s where s: "process_loop qs (conn_rx b) = Ok s" "rx_out s = ps"
    "rx_closed s = conn_closed b" "synced sp' (rx_part s)"
    using outgoing_all_delivered [OF o, of "conn_rx b"] assms(4) by (auto simp: conn_rx_def)
  have "qs \<noteq> []" using s(1,2) assms(7) by (auto simp: conn_rx_def)
  then have "handle_datagrams R (datagrams (conn_acks a) (conn_time a) qs) b = Some (Ok ps, conn_after b s)"
    using handle_datagrams_loop [OF small assms(6) _ s(1)] s(2)
      reader_laws.sim_handle_datagrams [OF codec_reader [OF assms(1)]] by simp
  moreover have "connection_send checks W ps (a, udp) =
      (Ok (), a\<lparr>conn_send := sp', conn_acks := rl_new\<rparr>, udp\<lparr>udp_sent := udp_sent udp @
        map (Pair (sp_address sp')) (datagrams (conn_acks a) (conn_time a) qs)\<rparr>)"
    using writer_laws.send_packets_datagrams [OF codec_writer [OF assms(1)] assms(2) o] assms(3)
    by (simp add: connection_send_def)
  ultimately show ?thesis using s(3,4)
    by (intro exI [of _ "datagrams (conn_acks a) (conn_time a) qs"]
        exI [of _ "a\<lparr>conn_send := sp', conn_acks := rl_new\<rparr>"] exI [of _ "conn_after b s"])
      (simp add: conn_after_def)
qed

text \<open>The datagram a connection sends when it is dropped. Whatever state the peer is in, it reads the
  notification and closes.\<close>

definition goodbye :: "connection \<Rightarrow> u8 list" where
  "goodbye c = datagram (conn_acks c) (conn_time c)
     \<lparr>message_number = sp_message_number (conn_send c), rel_data = UnreliableData, split_info = None,
      rak_data = [message_id DisconnectNotification]\<rparr>"

lemma goodbye_closes:
  assumes "codec_laws R rbits W wbits" and "length (ranges (conn_acks a)) < 2 ^ 16"
  shows "\<forall>b. \<exists>b'. handle_datagram R (goodbye a) b = Some (Ok [], b') \<and> conn_closed b'"
proof
  fix b
  let ?q = "\<lparr>message_number = sp_message_number (conn_send a), rel_data = UnreliableData,
    split_info = None, rak_data = [message_id DisconnectNotification]\<rparr>"
  obtain acks where "process_packet ?q (conn_rx b) =
      Ok ((conn_rx b)\<lparr>rx_acks := acks, rx_closed := True\<rparr>)"
    using process_disconnect [of ?q "conn_rx b"] by auto
  then have "handle_datagram R (goodbye a) b =
      Some (Ok [], conn_after b ((conn_rx b)\<lparr>rx_acks := acks, rx_closed := True\<rparr>))"
    using handle_datagram_of_packet [OF _ assms(2), of ?q b] assms(1)
    by (simp add: goodbye_def reader_laws.sim_handle_datagram [OF codec_reader] seen_packet_def conn_rx_def)
  then show "\<exists>b'. handle_datagram R (goodbye a) b = Some (Ok [], b') \<and> conn_closed b'"
    by (simp add: conn_after_def)
qed

lemma drop_notifies:
  assumes "codec_laws R rbits W wbits" and "udp_reliable udp" and "\<not> conn_closed a"
    and "length (ranges (conn_acks a)) < 2 ^ 16"
  shows "\<exists>d udp' a' b'. connection_drop checks W (a, udp) = (a', udp') \<and>
    udp_sent udp' = udp_sent udp @ [(sp_address (conn_send a), d)] \<and>
    handle_datagram R d b = Some (Ok [], b') \<and> conn_closed b'"
proof -
  let ?p = "mk_packet Unreliable [message_id DisconnectNotification]"
  let ?q = "\<lparr>message_number = sp_message_number (conn_send a), rel_data = UnreliableData,
    split_info = None, rak_data = [message_id DisconnectNotification]\<rparr>"
  let ?sp = "(conn_send a)\<lparr>sp_message_number := sp_message_number (conn_send a) + 1\<rparr>"
  have o: "process_outgoing_packets [?p] (conn_send a) = ([?q], ?sp)"
    using outgoing_fits [of ?p "conn_send a" UnreliableData "conn_send a"]
    by (simp add: fits_def next_rel_data_def)
  have "connection_drop checks W (a, udp) =
      (a\<lparr>conn_send := ?sp, conn_acks := rl_new\<rparr>,
       udp\<lparr>udp_sent := udp_sent udp @ [(sp_address (conn_send a), goodbye a)]\<rparr>)"
    using writer_laws.send_packets_datagrams [OF codec_writer [OF assms(1)] assms(2) o] assms(3)
    by (simp add: connection_drop_def connection_send_def goodbye_def)
  then show ?thesis using goodbye_closes [OF assms(1,4)] by fastforce
qed

section \<open>Properties\<close>

text \<open>C6: what one connection sends, the other delivers. If both agree on the indices and the
  receiver has nothing queued, the packets given to \<open>send\<close> come out of the peer's
  \<open>handle_datagram\<close> in the same order, once each, with the same reliability and the same bytes,
  split or not and with or without acknowledgements in the first datagram; both agree again
  afterwards, so the next call finds the same hypotheses.\<close>

theorem sent_packets_are_received:
  assumes "codec_laws R rbits W wbits" and "udp_reliable udp"
    and "\<not> conn_closed a" and "synced (conn_send a) (conn_recv b)"
    and "\<forall>p\<in>set ps. \<not> is_disconnect (data p) \<and> length (data p) \<le> 255 * 1178"
    and "length (ranges (conn_acks a)) < 2 ^ 16" and "ps \<noteq> []"
  shows "\<exists>ds a' b'. connection_send checks W ps (a, udp) = (Ok (), a', udp\<lparr>udp_sent :=
        udp_sent udp @ map (Pair (sp_address (conn_send a'))) ds\<rparr>) \<and>
      handle_datagrams R ds b = Some (Ok ps, b') \<and>
      synced (conn_send a') (conn_recv b') \<and> conn_closed b' = conn_closed b \<and>
      conn_closed a' = conn_closed a \<and> conn_acks a' = rl_new"
  by (rule connection_delivers [OF assms])

theorem sent_packets_are_received_witness:
  "\<exists>ds a' b'. connection_send True bits_writer
      [mk_packet ReliableOrdered (replicate 5000 1), mk_packet Unreliable [2, 3]]
      ((connection_new (localhost 1))\<lparr>conn_acks := \<lparr>ranges = [mk_range 3 9]\<rparr>\<rparr>, udp_idle) = (Ok (), a',
        udp_idle\<lparr>udp_sent := udp_sent udp_idle @ map (Pair (sp_address (conn_send a'))) ds\<rparr>) \<and>
    handle_datagrams bits_reader ds (connection_new (localhost 2)) =
      Some (Ok [mk_packet ReliableOrdered (replicate 5000 1), mk_packet Unreliable [2, 3]], b')"
proof -
  have "\<not> is_disconnect (replicate 5000 1)" by (simp add: is_disconnect_def)
  then show ?thesis
    using sent_packets_are_received [OF bits_codec, of udp_idle
        "(connection_new (localhost 1))\<lparr>conn_acks := \<lparr>ranges = [mk_range 3 9]\<rparr>\<rparr>"
        "connection_new (localhost 2)"
        "[mk_packet ReliableOrdered (replicate 5000 1), mk_packet Unreliable [2, 3]]" True] synced_new
    by (force simp: udp_idle_def udp_reliable_def connection_new_def)
qed

text \<open>Once a disconnect notification has been received, nothing is sent: \<open>send\<close> fails with
  \<open>ConnectionAborted\<close>, leaves the connection and the socket as they are, and so does dropping it.\<close>

theorem closed_connection_is_silent:
  assumes "conn_closed c"
  shows "connection_send checks W ps (c, udp) = (Err ConnectionAborted, c, udp) \<and>
    connection_drop checks W (c, udp) = (c, udp)"
  using assms by (simp add: connection_send_def connection_drop_def)

theorem closed_connection_is_silent_witness:
  "connection_send True bits_writer [mk_packet Reliable [1]]
      ((connection_new (localhost 1))\<lparr>conn_closed := True\<rparr>, udp_idle) =
    (Err ConnectionAborted, (connection_new (localhost 1))\<lparr>conn_closed := True\<rparr>, udp_idle)"
  by (rule closed_connection_is_silent [THEN conjunct1]) simp

text \<open>Dropping an open connection sends one datagram, a disconnect notification; the peer that
  handles it delivers nothing and closes its side, whatever its state.\<close>

theorem drop_closes_peer:
  assumes "codec_laws R rbits W wbits" and "udp_reliable udp" and "\<not> conn_closed a"
    and "length (ranges (conn_acks a)) < 2 ^ 16"
  shows "\<exists>d udp' a' b'. connection_drop checks W (a, udp) = (a', udp') \<and>
    udp_sent udp' = udp_sent udp @ [(sp_address (conn_send a), d)] \<and>
    handle_datagram R d b = Some (Ok [], b') \<and> conn_closed b'"
  by (rule drop_notifies [OF assms])

theorem drop_closes_peer_witness:
  "\<exists>d udp' a' b'. connection_drop True bits_writer (connection_new (localhost 1), udp_idle) = (a', udp') \<and>
    udp_sent udp' = [(localhost 1, d)] \<and>
    handle_datagram bits_reader d (connection_new (localhost 2)) = Some (Ok [], b') \<and> conn_closed b'"
  using drop_closes_peer [OF bits_codec, of udp_idle "connection_new (localhost 1)" True
      "connection_new (localhost 2)"]
  by (simp add: udp_idle_def udp_reliable_def connection_new_def send_part_new_def rl_new_def)

text \<open>A datagram of acknowledgements alone ends where \<open>handle_header\<close> reads one more bit. If the
  last byte is padded, that bit is a padding bit and the datagram is accepted without any effect;
  if the acknowledgements end on a byte boundary (as they do for a single range), the reader reports
  the end of the file. Either way the connection is unchanged.\<close>

theorem acks_alone_end_early:
  assumes "reader_laws R rbits" and "\<not> rl_is_empty acks" and "length (ranges acks) < 2 ^ 16"
  shows "handle_datagram R (bytes_of_bits (acks_wire acks t)) c =
    Some (if length (acks_wire acks t) mod 8 = 0 then Err UnexpectedEof else Ok [], c)"
proof -
  let ?n = "pad_len (length (acks_wire acks t))"
  have b: "pad_bits (acks_wire acks t) =
      True # bytes_bits (u32_le t) @ rl_wire acks @ replicate ?n False"
    using assms(2) by (simp add: pad_bits_def acks_wire_def)
  have "handle_datagram bits_reader (bytes_of_bits (acks_wire acks t)) c =
      Some (if ?n = 0 then Err UnexpectedEof else Ok [], c)"
  proof (cases "?n")
    case 0
    have "br_bit bits_reader [] = Err UnexpectedEof" by (simp add: bits_reader_def take_read_def)
    then show ?thesis using 0
      rl_read_wire [OF assms(3), of "[]"] by (simp add: handle_datagram_def b handle_header_def)
  next
    case (Suc k)
    then have "k < 8" using pad_len_less [of "length (acks_wire acks t)"] by simp
    then show ?thesis
      by (simp add: handle_datagram_def b handle_header_def rl_read_wire [OF assms(3)] Suc
          parse_packets_def parse_loop.simps read_few_bits process_incoming_packets_def)
  qed
  moreover have "?n = 0 \<longleftrightarrow> length (acks_wire acks t) mod 8 = 0"
    using add_pad_len_mod [of "length (acks_wire acks t)"] by (auto simp: pad_len_def)
  ultimately show ?thesis by (simp add: reader_laws.sim_handle_datagram [OF assms(1)])
qed

theorem acks_alone_end_early_witness:
  "handle_datagram bits_reader (bytes_of_bits (acks_wire \<lparr>ranges = [mk_range 3 3]\<rparr> 0)) (connection_new (localhost 1)) =
    Some (Err UnexpectedEof, connection_new (localhost 1))"
  using acks_alone_end_early [OF codec_reader [OF bits_codec], of "\<lparr>ranges = [mk_range 3 3]\<rparr>" 0]
  by (simp add: rl_is_empty_def acks_wire_def rl_wire_def range_wire_def mk_range_def
      compressed_u16_wire_def lowest_wire_def)

end
