(* ===== verification/StdIO.thy ===== *)
theory StdIO
  imports Net
begin

text \<open>
  What the program uses of \<open>std::io::Write\<close> and of the byte-level half of the crate
  \<open>endio\<close>. A writer is a function from bytes and a writer state to the number of bytes taken and
  the new state; \<open>write_all\<close> is the provided method of the trait. \<open>Vec<u8>\<close> and \<open>&mut [u8]\<close> are the
  two writers of the standard library the program uses. The integer encodings of \<open>endio\<close> are not
  part of this repository: they are the parameter \<open>endio\<close>, with the documented little-endian
  behaviour as the locale \<open>endio_laws\<close>.
\<close>

section \<open>Writers\<close>

type_synonym 'w writer = "u8 list \<Rightarrow> 'w \<Rightarrow> nat res \<times> 'w"

function write_all :: "'w writer \<Rightarrow> u8 list \<Rightarrow> 'w \<Rightarrow> unit res \<times> 'w" where
  "write_all wr bs w =
     (if bs = [] then (Ok (), w)
      else case wr bs w of
        (Ok n, w) \<Rightarrow> if n = 0 then (Err WriteZero, w) else write_all wr (drop n bs) w
      | (Err e, w) \<Rightarrow> (Err e, w)
      | (Panic, w) \<Rightarrow> (Panic, w))"
  by pat_completeness auto
termination
  by (relation "measure (\<lambda>(wr, bs, w). length bs)") auto

declare write_all.simps [simp del]

definition vec_write :: "u8 list writer" where
  "vec_write bs v = (Ok (length bs), v @ bs)"

text \<open>A slice that is written to is the bytes of the buffer it belongs to and the position the
  slice has moved to; what does not fit is not taken.\<close>

definition slice_write :: "(u8 list \<times> nat) writer" where
  "slice_write bs s =
     (case s of (buf, pos) \<Rightarrow>
        let n = min (length bs) (length buf - pos)
        in (Ok n, take pos buf @ take n bs @ drop (pos + n) buf, pos + n))"

lemma write_all_Nil [simp]: "write_all wr [] w = (Ok (), w)"
  by (simp add: write_all.simps)

lemma write_all_full:
  "wr bs w = (Ok (length bs), w') \<Longrightarrow> bs \<noteq> [] \<Longrightarrow> write_all wr bs w = (Ok (), w')"
  by (subst write_all.simps) simp

lemma write_all_vec [simp]: "write_all vec_write bs v = (Ok (), v @ bs)"
  by (cases "bs = []") (simp_all add: write_all_full vec_write_def)

lemma slice_write_fits:
  "pos + length bs \<le> length buf \<Longrightarrow> slice_write bs (buf, pos) =
    (Ok (length bs), take pos buf @ bs @ drop (pos + length bs) buf, pos + length bs)"
  by (simp add: slice_write_def Let_def)

lemma write_all_slice:
  assumes "pos + length bs \<le> length buf"
  shows "write_all slice_write bs (buf, pos) =
    (Ok (), take pos buf @ bs @ drop (pos + length bs) buf, pos + length bs)"
  using assms by (cases "bs = []") (simp_all add: write_all_full slice_write_fits)

lemma length_slice_write:
  "slice_write bs (buf, pos) = (r, buf', pos') \<Longrightarrow> pos \<le> length buf \<Longrightarrow>
   length buf' = length buf \<and> pos' \<le> length buf"
  by (auto simp: slice_write_def Let_def)

lemma length_write_all_slice:
  "write_all slice_write bs (buf, pos) = (r, buf', pos') \<Longrightarrow> pos \<le> length buf \<Longrightarrow>
   length buf' = length buf \<and> pos' \<le> length buf"
proof (induction "slice_write" bs "(buf, pos)" arbitrary: buf pos rule: write_all.induct)
  case (1 bs)
  obtain n buf1 pos1 where s: "slice_write bs (buf, pos) = (Ok n, buf1, pos1)"
    by (auto simp: slice_write_def Let_def)
  have l: "length buf1 = length buf" "pos1 \<le> length buf"
    using length_slice_write [OF s] 1 by blast+
  show ?case
  proof (cases "bs = [] \<or> n = 0")
    case True
    then show ?thesis using 1(2,3) s l by (auto simp: write_all.simps [of _ bs] split: if_splits)
  next
    case False
    then have "write_all slice_write (drop n bs) (buf1, pos1) = (r, buf', pos')"
      using 1(2) s by (simp add: write_all.simps [of _ bs])
    then show ?thesis using 1(1) [OF _ s [symmetric]] s False l by auto
  qed
qed

section \<open>Integers\<close>

record endio =
  en_read_u8 :: "u8 list \<Rightarrow> (u8 \<times> u8 list) res"
  en_read_u16 :: "u8 list \<Rightarrow> (u16 \<times> u8 list) res"
  en_read_u32 :: "u8 list \<Rightarrow> (u32 \<times> u8 list) res"
  en_u8 :: "u8 \<Rightarrow> u8 list"
  en_u16 :: "u16 \<Rightarrow> u8 list"
  en_u32 :: "u32 \<Rightarrow> u8 list"
  en_slice :: "u8 list \<Rightarrow> u8 list"

definition take_bytes_read :: "nat \<Rightarrow> (u8 list \<Rightarrow> 'a) \<Rightarrow> u8 list \<Rightarrow> ('a \<times> u8 list) res" where
  "take_bytes_read n conv bs =
     (if length bs < n then Err UnexpectedEof else Ok (conv (take n bs), drop n bs))"

definition le_endio :: endio where
  "le_endio = \<lparr>en_read_u8 = take_bytes_read 1 hd, en_read_u16 = take_bytes_read 2 le_u16,
     en_read_u32 = take_bytes_read 4 le_u32, en_u8 = (\<lambda>x. [x]), en_u16 = u16_le,
     en_u32 = u32_le, en_slice = (\<lambda>bs. bs)\<rparr>"

locale endio_laws =
  fixes E :: endio
  assumes en_read_u8: "en_read_u8 E bs = take_bytes_read 1 hd bs"
    and en_read_u16: "en_read_u16 E bs = take_bytes_read 2 le_u16 bs"
    and en_read_u32: "en_read_u32 E bs = take_bytes_read 4 le_u32 bs"
    and en_u8: "en_u8 E x8 = [x8]"
    and en_u16: "en_u16 E x16 = u16_le x16"
    and en_u32: "en_u32 E x32 = u32_le x32"
    and en_slice: "en_slice E bs = bs"
begin

lemmas en_simps = en_read_u8 en_read_u16 en_read_u32 en_u8 en_u16 en_u32 en_slice

end

lemma le_endio_laws: "endio_laws le_endio"
  by unfold_locales (simp_all add: le_endio_def)

interpretation le: endio_laws le_endio
  by (rule le_endio_laws)

end
