(* ===== verification/FixStr.thy ===== *)
theory FixStr
  imports StdIO
begin

text \<open>
  \<open>src/string.rs\<close>: the fixed string format, 33 bytes with a terminating zero byte. A \<open>&str\<close> is its
  UTF-8 bytes; \<open>utf8\<close> is the validation of \<open>std::str::from_utf8\<close>.
\<close>

section \<open>UTF-8\<close>

definition continuation :: "u8 \<Rightarrow> bool" where
  "continuation b \<longleftrightarrow> 0x80 \<le> b \<and> b \<le> 0xBF"

fun utf8 :: "u8 list \<Rightarrow> bool" where
  "utf8 [] \<longleftrightarrow> True"
| "utf8 (a # bs) \<longleftrightarrow>
     (if a < 0x80 then utf8 bs
      else if 0xC2 \<le> a \<and> a \<le> 0xDF then
        (case bs of b # bs \<Rightarrow> continuation b \<and> utf8 bs | _ \<Rightarrow> False)
      else if 0xE0 \<le> a \<and> a \<le> 0xEF then
        (case bs of b # c # bs \<Rightarrow>
           (if a = 0xE0 then 0xA0 \<le> b \<and> b \<le> 0xBF
            else if a = 0xED then 0x80 \<le> b \<and> b \<le> 0x9F else continuation b) \<and>
           continuation c \<and> utf8 bs
         | _ \<Rightarrow> False)
      else if 0xF0 \<le> a \<and> a \<le> 0xF4 then
        (case bs of b # c # d # bs \<Rightarrow>
           (if a = 0xF0 then 0x90 \<le> b \<and> b \<le> 0xBF
            else if a = 0xF4 then 0x80 \<le> b \<and> b \<le> 0x8F else continuation b) \<and>
           continuation c \<and> continuation d \<and> utf8 bs
         | _ \<Rightarrow> False)
      else False)"

section \<open>Reading and writing\<close>

text \<open>\<open>a.iter().position(|&x| x == 0)\<close>\<close>

fun zero_position :: "u8 list \<Rightarrow> nat option" where
  "zero_position [] = None"
| "zero_position (b # bs) = (if b = 0 then Some 0 else map_option Suc (zero_position bs))"

text \<open>The string and what is left of the reader; the reader only moves on success.\<close>

definition read_fix :: "u8 list \<Rightarrow> (u8 list \<times> u8 list) res" where
  "read_fix r =
     (if length r < 33 then Panic
      else
        let a = take 33 r; b = drop 33 r in
        (case zero_position a of
           None \<Rightarrow> Err InvalidData
         | Some terminator \<Rightarrow>
             if utf8 (take terminator a) then Ok (take terminator a, b) else Err InvalidData))"

definition write_fix :: "'w writer \<Rightarrow> u8 list \<Rightarrow> 'w \<Rightarrow> unit res \<times> 'w" where
  "write_fix wr s w =
     (let len = length s in
      if len > 32 then (Err InvalidData, w)
      else then_do (wr s w) (\<lambda>_ w.
           then_do (wr (replicate (33 - len) 0) w) (\<lambda>_ w. (Ok (), w))))"

section \<open>Lemmas\<close>

lemma zero_position_Some:
  "zero_position a = Some i \<longleftrightarrow> i < length a \<and> a ! i = 0 \<and> 0 \<notin> set (take i a)"
proof (induction a arbitrary: i)
  case (Cons b a)
  then show ?case by (cases i) auto
qed simp

lemma zero_position_None: "zero_position a = None \<longleftrightarrow> 0 \<notin> set a"
  by (induction a) auto

lemma zero_position_append: "0 \<notin> set s \<Longrightarrow> zero_position (s @ 0 # rest) = Some (length s)"
  by (simp add: zero_position_Some)

definition fix_bytes :: "u8 list \<Rightarrow> u8 list" where
  "fix_bytes s = s @ replicate (33 - length s) 0"

lemma length_fix_bytes: "length s \<le> 32 \<Longrightarrow> length (fix_bytes s) = 33"
  by (simp add: fix_bytes_def)

lemma write_fix_vec: "length s \<le> 32 \<Longrightarrow> write_fix vec_write s v = (Ok (), v @ fix_bytes s)"
  by (simp add: write_fix_def vec_write_def fix_bytes_def)

lemma write_fix_slice:
  assumes "length s \<le> 32" and "pos + 33 \<le> length buf"
  shows "write_fix slice_write s (buf, pos) =
    (Ok (), take pos buf @ fix_bytes s @ drop (pos + 33) buf, pos + 33)"
proof -
  have "slice_write s (buf, pos) = (Ok (length s), take pos buf @ s @ drop (pos + length s) buf, pos + length s)"
    using assms by (intro slice_write_fits) simp
  moreover have "slice_write (replicate (33 - length s) 0)
      (take pos buf @ s @ drop (pos + length s) buf, pos + length s) =
      (Ok (33 - length s), take pos buf @ fix_bytes s @ drop (pos + 33) buf, pos + 33)"
    using assms by (simp add: slice_write_def fix_bytes_def Let_def add.commute)
  ultimately show ?thesis using assms(1) by (simp add: write_fix_def)
qed

lemma read_fix_bytes:
  assumes "length s \<le> 32" and "0 \<notin> set s" and "utf8 s"
  shows "read_fix (fix_bytes s @ rest) = Ok (s, rest)"
proof -
  obtain n where n: "33 - length s = Suc n" using assms(1) by (cases "33 - length s") auto
  have "zero_position (fix_bytes s) = Some (length s)"
    unfolding fix_bytes_def n by (simp add: zero_position_append assms(2))
  then show ?thesis
    using assms length_fix_bytes [OF assms(1)] by (simp add: read_fix_def) (simp add: fix_bytes_def)
qed

section \<open>Properties\<close>

text \<open>A string of at most 32 bytes without a zero byte is written as exactly 33 bytes and read
  back as it was, whatever follows it.\<close>

theorem fix_string_roundtrip:
  assumes "length s \<le> 32" and "0 \<notin> set s" and "utf8 s"
  shows "write_fix vec_write s v = (Ok (), v @ fix_bytes s) \<and> length (fix_bytes s) = 33 \<and>
    read_fix (fix_bytes s @ rest) = Ok (s, rest)"
  using write_fix_vec [OF assms(1)] length_fix_bytes [OF assms(1)] read_fix_bytes [OF assms] by blast

theorem fix_string_roundtrip_witness:
  "read_fix (fix_bytes [0x31, 0xC3, 0xA9] @ [7]) = Ok ([0x31, 0xC3, 0xA9], [7])"
  using fix_string_roundtrip [of "[0x31, 0xC3, 0xA9]" "[]" "[7]"] by (simp add: continuation_def)

text \<open>C34: reading panics on fewer than 33 bytes; otherwise it gives the valid UTF-8 string before the
  first zero byte of the first 33 and consumes the 33, or reports invalid data when there is no zero
  byte among them or the string is not UTF-8. Writing more than 32 bytes is refused without
  writing anything.\<close>

theorem fix_string_outcomes:
  "(read_fix r = Panic \<longleftrightarrow> length r < 33) \<and>
   (read_fix r = Ok (s, rest) \<longleftrightarrow> (\<exists>junk. r = s @ 0 # junk @ rest \<and> length s + 1 + length junk = 33 \<and>
      0 \<notin> set s \<and> utf8 s)) \<and>
   (read_fix r = Err e \<longleftrightarrow> e = InvalidData \<and> 33 \<le> length r \<and>
      (0 \<notin> set (take 33 r) \<or> (\<exists>i. zero_position (take 33 r) = Some i \<and> \<not> utf8 (take i r)))) \<and>
   (32 < length t \<longrightarrow> write_fix wr t w = (Err InvalidData, w))"
proof -
  have "read_fix r = Ok (s, rest) \<longleftrightarrow> (\<exists>junk. r = s @ 0 # junk @ rest \<and> length s + 1 + length junk = 33 \<and>
      0 \<notin> set s \<and> utf8 s)"
  proof
    assume r: "read_fix r = Ok (s, rest)"
    then obtain i where i: "zero_position (take 33 r) = Some i" "\<not> length r < 33"
      "s = take i (take 33 r)" "rest = drop 33 r" "utf8 s"
      by (auto simp: read_fix_def Let_def split: if_splits option.splits)
    then have l: "i < 33" "take 33 r ! i = 0" "0 \<notin> set s" "length (take 33 r) = 33"
      by (auto simp: zero_position_Some)
    have "take 33 r = s @ 0 # drop (Suc i) (take 33 r)"
      using id_take_nth_drop [of i "take 33 r"] l i(3) by simp
    then have "r = s @ 0 # drop (Suc i) (take 33 r) @ rest"
      using i(4) append_take_drop_id [of 33 r] by (metis append.assoc append_Cons)
    moreover have "length s + 1 + length (drop (Suc i) (take 33 r)) = 33"
      using l(1,4) i(3) by simp
    ultimately show "\<exists>junk. r = s @ 0 # junk @ rest \<and> length s + 1 + length junk = 33 \<and> 0 \<notin> set s \<and> utf8 s"
      using l(3) i(5) by blast
  next
    assume "\<exists>junk. r = s @ 0 # junk @ rest \<and> length s + 1 + length junk = 33 \<and> 0 \<notin> set s \<and> utf8 s"
    then obtain junk where j: "r = (s @ 0 # junk) @ rest" "length (s @ 0 # junk) = 33" "0 \<notin> set s" "utf8 s"
      by auto
    then have "take 33 r = s @ 0 # junk" "drop 33 r = rest" "\<not> length r < 33"
      using append_eq_conv_conj [of "s @ 0 # junk" rest r] by auto
    then show "read_fix r = Ok (s, rest)"
      using j(3,4) by (simp add: read_fix_def zero_position_append)
  qed
  moreover have "zero_position (take 33 r) = Some i \<Longrightarrow> take i (take 33 r) = take i r" for i
    by (auto simp: zero_position_Some)
  ultimately show ?thesis
    by (auto simp: read_fix_def Let_def zero_position_None [symmetric] write_fix_def split: option.splits)
qed

theorem fix_string_outcomes_witness:
  "read_fix [1, 2, 3] = Panic \<and> write_fix vec_write (replicate 33 65) [] = (Err InvalidData, [])"
  using fix_string_outcomes [of "[1, 2, 3]" "[]" "[]" "OtherError 0" "replicate 33 65" vec_write "[]"]
  by simp

end
