(* ===== verification/Log.thy ===== *)
theory Log
  imports Abstract_Packet
begin

text \<open>
  \<open>src/log.rs\<close>: the names of packets for the debug output. Indexing a slice out of range panics, so
  the function returns an outcome; the properties say that it never panics and when it names a
  packet by its numbers.
\<close>

text \<open>\<open>data[i]\<close>\<close>

definition get_byte :: "u8 list \<Rightarrow> nat \<Rightarrow> u8 res" where
  "get_byte bs i = (if i < length bs then Ok (bs ! i) else Panic)"

text \<open>\<open>format!("{}", b)\<close>: decimal without leading zeros.\<close>

definition digit :: "nat \<Rightarrow> char" where
  "digit n = char_of (48 + n mod 10)"

definition show_u8 :: "u8 \<Rightarrow> string" where
  "show_u8 b =
     (let n = unat b in
      if n < 10 then [digit n]
      else if n < 100 then [digit (n div 10), digit n]
      else [digit (n div 100), digit (n div 10), digit n])"

text \<open>\<open>format!("53-{}-0-{}", data[1], data[3])\<close>, with the prefix of the format string.\<close>

definition show_ids :: "string \<Rightarrow> u8 list \<Rightarrow> string res" where
  "show_ids prefix bs =
     and_then (get_byte bs 1) (\<lambda>a. and_then (get_byte bs 3) (\<lambda>b.
       Ok (prefix @ show_u8 a @ ''-0-'' @ show_u8 b)))"

text \<open>The arms of the two \<open>match\<close> expressions that name a packet; \<open>None\<close> is the last arm.\<close>

definition raknet_name :: "u8 \<Rightarrow> string option" where
  "raknet_name b =
     (if b = 0 then Some ''InternalPing''
      else if b = 3 then Some ''ConnectedPong''
      else if b = 4 then Some ''ConnectionRequest''
      else if b = 14 then Some ''ConnectionRequestAccepted''
      else if b = 17 then Some ''NewIncomingConnection''
      else if b = 19 then Some ''DisconnectNotification''
      else if b = 36 then Some ''ReplicaManagerConstruction''
      else if b = 37 then Some ''ReplicaManagerDestruction''
      else if b = 39 then Some ''ReplicaManagerSerialize''
      else None)"

definition lu_name :: "u8 \<Rightarrow> u8 \<Rightarrow> string option" where
  "lu_name remote b =
     (if remote = 0 then
        (if b = 0 then Some ''Handshake'' else None)
      else if remote = 1 then
        (if b = 0 then Some ''LoginRequest'' else None)
      else if remote = 2 then
        (if b = 1 then Some ''GeneralChatMessage'' else None)
      else if remote = 4 then
        (if b = 1 then Some ''SessionInfo''
         else if b = 2 then Some ''CharacterListRequest''
         else if b = 4 then Some ''EnterWorld''
         else if b = 5 then Some ''GameMessage''
         else if b = 15 then Some ''Routing''
         else if b = 19 then Some ''LoadComplete''
         else if b = 22 then Some ''PositionUpdate''
         else if b = 23 then Some ''Mail''
         else if b = 25 then Some ''StringCheck'' else None)
      else if remote = 5 then
        (if b = 0 then Some ''LoginResponse''
         else if b = 2 then Some ''LoadWorld''
         else if b = 4 then Some ''CharacterData''
         else if b = 6 then Some ''CharacterList''
         else if b = 12 then Some ''GameMessage''
         else if b = 14 then Some ''GeneralChatMessage''
         else if b = 49 then Some ''Mail''
         else if b = 59 then Some ''Moderation'' else None)
      else None)"

definition packet_name :: "packet \<Rightarrow> string res" where
  "packet_name p =
     (let bs = data p; len = length bs in
      if len = 0 then Ok ''<Empty packet>''
      else
        and_then (get_byte bs 0) (\<lambda>id.
          if id \<noteq> 83 then
            (case raknet_name id of Some s \<Rightarrow> Ok s | None \<Rightarrow> Ok (show_u8 id))
          else if len \<ge> 8 then
            and_then (get_byte bs 1) (\<lambda>remote.
            if remote = 0 \<or> remote = 1 \<or> remote = 2 \<or> remote = 4 \<or> remote = 5 then
              and_then (get_byte bs 3) (\<lambda>b.
                case lu_name remote b of
                  Some s \<Rightarrow> Ok s
                | None \<Rightarrow> show_ids (if remote = 1 \<or> remote = 2 then '' 53-'' else ''53-'') bs)
            else show_ids ''53-'' bs)
          else Ok ''LU packet too short!''))"

lemma naming_total: "\<exists>s. packet_name p = Ok s"
proof -
  have "\<exists>s. show_ids prefix (data p) = Ok s" if "8 \<le> length (data p)" for prefix
    using that by (simp add: show_ids_def get_byte_def)
  moreover have "get_byte (data p) i = Ok (data p ! i)" if "i < length (data p)" for i
    using that by (simp add: get_byte_def)
  ultimately show ?thesis
    by (cases "length (data p) < 8")
      (auto simp: packet_name_def Let_def split: option.split)
qed

text \<open>Naming a packet never panics, whatever its bytes, although it indexes the data at
  positions 0, 1 and 3.\<close>

theorem packet_name_total: "\<exists>s. packet_name p = Ok s"
  by (rule naming_total)

text \<open>The name of a packet of this program's protocol depends on the ids at positions 1 and 3 only:
  two packets of at least eight bytes that agree on the first four have the same name.\<close>

theorem packet_name_ids:
  assumes "8 \<le> length (data p)" and "8 \<le> length (data q)" and "take 4 (data p) = take 4 (data q)"
  shows "packet_name p = packet_name q"
proof -
  have "data p ! i = data q ! i" if "i < 4" for i
    using nth_take [OF that, of "data p"] nth_take [OF that, of "data q"] assms(3) by simp
  then have g: "get_byte (data p) i = get_byte (data q) i" if "i < 4" for i
    using that assms(1,2) by (simp add: get_byte_def)
  have g013: "get_byte (data p) 0 = get_byte (data q) 0" "get_byte (data p) 1 = get_byte (data q) 1"
    "get_byte (data p) 3 = get_byte (data q) 3" by (rule g; simp)+
  have s: "show_ids prefix (data p) = show_ids prefix (data q)" for prefix
    unfolding show_ids_def g013 by (rule refl)
  have l: "(length (data p) = 0) = (length (data q) = 0)" "(8 \<le> length (data p)) = (8 \<le> length (data q))"
    using assms(1,2) by auto
  show ?thesis unfolding packet_name_def Let_def g013 s l by (rule refl)
qed

theorem packet_name_ids_witness:
  "packet_name (mk_packet Reliable [83, 5, 0, 0, 1, 2, 3, 4]) =
   packet_name (mk_packet Unreliable [83, 5, 0, 0, 0, 0, 0, 0, 0, 9])"
  by (rule packet_name_ids) simp_all

end
