(* ===== verification/TcpUdp.thy ===== *)
theory TcpUdp
  imports StdIO Abstract_Packet
begin

text \<open>
  \<open>src/tcpudp/mod.rs\<close>: a connection of the TCP- and UDP-based protocol. The TCP stream is TLS
  through the crate \<open>rustls\<close> (\<open>src/tcpudp/tls.rs\<close> only forwards to it), so it is a parameter:
  its \<open>read\<close> and \<open>write\<close> over an abstract state. \<open>tcp_laws\<close> states what both promise. The static
  receive buffer \<open>BUF\<close> is part of the state, since bytes of earlier datagrams stay in it.
\<close>

section \<open>The TCP stream\<close>

record 'tcp tcp_ops =
  tcp_read :: "nat \<Rightarrow> 'tcp \<Rightarrow> u8 list res \<times> 'tcp"
  tcp_write :: "u8 list \<Rightarrow> 'tcp \<Rightarrow> nat res \<times> 'tcp"

section \<open>State\<close>

record buffer_offset =
  reading_length :: bool
  buf_offset :: nat
  length_bytes :: "u8 list"
  buffer :: "u8 list"

record 'tcp tu_conn =
  tu_tcp :: 'tcp
  tu_udp :: udp_socket
  tu_peer :: sock_addr
  seq_num_recv :: u32
  seq_num_send :: u32
  partial_packet :: buffer_offset

text \<open>The connection \<open>Connection::new\<close> makes of the sockets once they are connected.\<close>

definition tu_new :: "'tcp \<Rightarrow> udp_socket \<Rightarrow> sock_addr \<Rightarrow> 'tcp tu_conn" where
  "tu_new tcp udp peer =
     \<lparr>tu_tcp = tcp, tu_udp = udp, tu_peer = peer, seq_num_recv = 0, seq_num_send = 0,
      partial_packet = \<lparr>reading_length = True, buf_offset = 0, length_bytes = [0, 0, 0, 0], buffer = []\<rparr>\<rparr>"

section \<open>Sending\<close>

definition tu_udp_send :: "u8 list \<Rightarrow> 'tcp tu_conn \<Rightarrow> unit res \<times> 'tcp tu_conn" where
  "tu_udp_send bs c =
     (case udp_send_to bs (tu_peer c) (tu_udp c) of (r, udp) \<Rightarrow> (map_res (\<lambda>_. ()) r, c\<lparr>tu_udp := udp\<rparr>))"

definition tu_tcp_write_all :: "'tcp tcp_ops \<Rightarrow> u8 list \<Rightarrow> 'tcp tu_conn \<Rightarrow> unit res \<times> 'tcp tu_conn" where
  "tu_tcp_write_all T bs c =
     (case write_all (tcp_write T) bs (tu_tcp c) of (r, tcp) \<Rightarrow> (r, c\<lparr>tu_tcp := tcp\<rparr>))"

text \<open>\<open>std::io::Write::write\<close>, with the number of bytes it took ignored.\<close>

definition tu_tcp_write_once :: "'tcp tcp_ops \<Rightarrow> u8 list \<Rightarrow> 'tcp tu_conn \<Rightarrow> unit res \<times> 'tcp tu_conn" where
  "tu_tcp_write_once T bs c =
     (case tcp_write T bs (tu_tcp c) of (r, tcp) \<Rightarrow> (map_res (\<lambda>_. ()) r, c\<lparr>tu_tcp := tcp\<rparr>))"

definition tu_send_packet ::
  "endio \<Rightarrow> 'tcp tcp_ops \<Rightarrow> packet \<Rightarrow> 'tcp tu_conn \<Rightarrow> unit res \<times> 'tcp tu_conn" where
  "tu_send_packet E T p c =
     (case reliability p of
        Unreliable \<Rightarrow> tu_udp_send (en_u8 E 0 @ en_slice E (data p)) c
      | UnreliableSequenced \<Rightarrow>
          let seq_num = seq_num_send c;
              c = c\<lparr>seq_num_send := seq_num_send c + 1\<rparr>
          in tu_udp_send (en_u8 E 1 @ en_u32 E seq_num @ en_slice E (data p)) c
      | _ \<Rightarrow>
          then_do (tu_tcp_write_all T (en_u32 E (of_nat (length (data p)))) c)
            (\<lambda>_. tu_tcp_write_once T (data p)))"

fun tu_send :: "endio \<Rightarrow> 'tcp tcp_ops \<Rightarrow> packet list \<Rightarrow> 'tcp tu_conn \<Rightarrow> unit res \<times> 'tcp tu_conn" where
  "tu_send E T [] c = (Ok (), c)"
| "tu_send E T (p # ps) c = then_do (tu_send_packet E T p c) (\<lambda>_. tu_send E T ps)"

section \<open>Receiving from UDP\<close>

text \<open>\<open>recv(&mut BUF)\<close>: the length of the datagram and the buffer, of which only as many bytes have
  changed.\<close>

definition udp_recv :: "u8 list \<Rightarrow> udp_socket \<Rightarrow> nat res \<times> u8 list \<times> udp_socket" where
  "udp_recv BUF u =
     (case udp_recv_from (length BUF) u of
        (Ok (bs, _), u) \<Rightarrow> (Ok (length bs), bs @ drop (length bs) BUF, u)
      | (Err e, u) \<Rightarrow> (Err e, BUF, u)
      | (Panic, u) \<Rightarrow> (Panic, BUF, u))"

text \<open>\<open>&BUF[lo..len]\<close>\<close>

definition slice :: "nat \<Rightarrow> nat \<Rightarrow> u8 list \<Rightarrow> u8 list res" where
  "slice lo hi bs = (if lo \<le> hi \<and> hi \<le> length bs then Ok (take (hi - lo) (drop lo bs)) else Panic)"

text \<open>One turn of the loop after a datagram of length \<open>len\<close> is in the buffer: the packet it pushes, if
  any, and the sequence number expected next.\<close>

definition udp_packet :: "endio \<Rightarrow> u8 list \<Rightarrow> nat \<Rightarrow> u32 \<Rightarrow> (packet list \<times> u32) res" where
  "udp_packet E BUF len recv_num =
     and_then (en_read_u8 E BUF) (\<lambda>(rel, reader).
       if rel = 0 then
         and_then (slice 1 len BUF) (\<lambda>bs. Ok ([mk_packet Unreliable bs], recv_num))
       else if rel = 1 then
         and_then (en_read_u32 E reader) (\<lambda>(seq_num, _).
           if seq_num - recv_num < (- 1) div 2 then
             and_then (slice 5 len BUF) (\<lambda>bs. Ok ([mk_packet UnreliableSequenced bs], seq_num + 1))
           else Ok ([], recv_num))
       else Panic)"

text \<open>The loop ends with an error: there is always an end of what has arrived.\<close>

function receive_udp ::
  "endio \<Rightarrow> packet list \<Rightarrow> u8 list \<times> 'tcp tu_conn \<Rightarrow> unit res \<times> packet list \<times> u8 list \<times> 'tcp tu_conn" where
  "receive_udp E packets s =
     (case s of (BUF, c) \<Rightarrow>
        (case udp_inbox (tu_udp c) of
           [] \<Rightarrow> (Err WouldBlock, packets, s)
         | _ \<Rightarrow>
             (case udp_recv BUF (tu_udp c) of (r, BUF, udp) \<Rightarrow>
                let c = c\<lparr>tu_udp := udp\<rparr> in
                (case and_then r (\<lambda>len. udp_packet E BUF len (seq_num_recv c)) of
                   Ok (new, recv_num) \<Rightarrow>
                     receive_udp E (packets @ new) (BUF, c\<lparr>seq_num_recv := recv_num\<rparr>)
                 | Err e \<Rightarrow> (Err e, packets, BUF, c)
                 | Panic \<Rightarrow> (Panic, packets, BUF, c)))))"
  by pat_completeness auto
termination
  by (relation "measure (\<lambda>(E, packets, BUF, c). length (udp_inbox (tu_udp c)))")
    (auto simp: udp_recv_def udp_recv_from_def split: res.splits list.splits prod.splits)

declare receive_udp.simps [simp del]

section \<open>Receiving from TCP\<close>

text \<open>\<open>self.tcp.read(&mut bytes[offset..])\<close> and the two lines after it: the bytes read replace those
  from \<open>offset\<close> on.\<close>

definition read_part ::
  "'tcp tcp_ops \<Rightarrow> nat \<Rightarrow> u8 list \<Rightarrow> 'tcp \<Rightarrow> (nat \<times> u8 list) res \<times> 'tcp" where
  "read_part T off bytes tcp =
     (case tcp_read T (length bytes - off) tcp of
        (Ok bs, tcp) \<Rightarrow>
          (if bs = [] then (Err WouldBlock, tcp)
           else (Ok (off + length bs, take off bytes @ bs @ drop (off + length bs) bytes), tcp))
      | (Err e, tcp) \<Rightarrow> (Err e, tcp)
      | (Panic, tcp) \<Rightarrow> (Panic, tcp))"

text \<open>One read, or one change of phase, of the loop. \<open>Ok\<close> goes on with the packets pushed.\<close>

definition tcp_step ::
  "'tcp tcp_ops \<Rightarrow> buffer_offset \<times> 'tcp \<Rightarrow> packet list res \<times> buffer_offset \<times> 'tcp" where
  "tcp_step T s =
     (case s of (b, tcp) \<Rightarrow>
        if reading_length b then
          if buf_offset b < length (length_bytes b) then
            (case read_part T (buf_offset b) (length_bytes b) tcp of
               (Ok (off, bytes), tcp) \<Rightarrow> (Ok [], b\<lparr>buf_offset := off, length_bytes := bytes\<rparr>, tcp)
             | (Err e, tcp) \<Rightarrow> (Err e, b, tcp)
             | (Panic, tcp) \<Rightarrow> (Panic, b, tcp))
          else
            (Ok [], b\<lparr>reading_length := False, buf_offset := 0,
               buffer := replicate (unat (le_u32 (length_bytes b))) 0\<rparr>, tcp)
        else
          if buf_offset b < length (buffer b) then
            (case read_part T (buf_offset b) (buffer b) tcp of
               (Ok (off, bytes), tcp) \<Rightarrow> (Ok [], b\<lparr>buf_offset := off, buffer := bytes\<rparr>, tcp)
             | (Err e, tcp) \<Rightarrow> (Err e, b, tcp)
             | (Panic, tcp) \<Rightarrow> (Panic, b, tcp))
          else
            (Ok [mk_packet ReliableOrdered (buffer b)],
               b\<lparr>reading_length := True, buf_offset := 0, buffer := []\<rparr>, tcp))"

text \<open>With an arbitrary stream the loop need not end, which is the value \<open>None\<close>.\<close>

partial_function (option) receive_tcp ::
  "'tcp tcp_ops \<Rightarrow> packet list \<Rightarrow> buffer_offset \<times> 'tcp \<Rightarrow>
   (unit res \<times> packet list \<times> buffer_offset \<times> 'tcp) option" where
  "receive_tcp T packets s =
     (case tcp_step T s of
        (Ok new, s) \<Rightarrow> receive_tcp T (packets @ new) s
      | (Err e, s) \<Rightarrow> Some (Err e, packets, s)
      | (Panic, s) \<Rightarrow> Some (Panic, packets, s))"

section \<open>Receiving\<close>

text \<open>\<open>receive\<close>: an error other than \<open>WouldBlock\<close> is returned and the packets are dropped.\<close>

definition tu_receive ::
  "endio \<Rightarrow> 'tcp tcp_ops \<Rightarrow> u8 list \<times> 'tcp tu_conn \<Rightarrow>
   (packet list res \<times> u8 list \<times> 'tcp tu_conn) option" where
  "tu_receive E T s =
     (case s of (BUF, c) \<Rightarrow>
        (case receive_tcp T [] (partial_packet c, tu_tcp c) of
           None \<Rightarrow> None
         | Some (r, packets, b, tcp) \<Rightarrow>
             let c = c\<lparr>partial_packet := b, tu_tcp := tcp\<rparr> in
             if r = Err WouldBlock then
               (case receive_udp E packets (BUF, c) of
                  (r, packets, s) \<Rightarrow>
                    Some (case r of
                        Err WouldBlock \<Rightarrow> (Ok packets, s)
                      | Err e \<Rightarrow> (Err e, s)
                      | _ \<Rightarrow> (Panic, s)))
             else Some (case r of Err e \<Rightarrow> (Err e, BUF, c) | _ \<Rightarrow> (Panic, BUF, c))))"

section \<open>What both directions of a TCP stream promise\<close>

text \<open>\<open>unread t\<close> are the bytes of the peer that are still to be read, whether they have arrived or not;
  \<open>sent t\<close> are the bytes accepted for the peer. A read may give fewer bytes than asked for, and a
  write may take fewer than it is given.\<close>

locale tcp_laws =
  fixes T :: "'tcp tcp_ops" and unread :: "'tcp \<Rightarrow> u8 list" and sent :: "'tcp \<Rightarrow> u8 list"
  assumes read_ok: "tcp_read T n t = (Ok bs, t') \<Longrightarrow>
      length bs \<le> n \<and> unread t = bs @ unread t' \<and> sent t' = sent t"
    and read_err: "tcp_read T n t = (Err e, t') \<Longrightarrow> unread t' = unread t \<and> sent t' = sent t"
    and read_panic: "tcp_read T n t \<noteq> (Panic, t')"
    and write_ok: "tcp_write T bs t = (Ok k, t') \<Longrightarrow>
      k \<le> length bs \<and> sent t' = sent t @ take k bs \<and> unread t' = unread t"
    and write_err: "tcp_write T bs t = (Err e, t') \<Longrightarrow> sent t' = sent t \<and> unread t' = unread t"
    and write_panic: "tcp_write T bs t \<noteq> (Panic, t')"

text \<open>A stream given by a script: what reads give in order (an empty script would block), and how
  much writes take (an empty script takes everything).\<close>

record script_tcp =
  st_reads :: "(io_error + u8 list) list"
  st_writes :: "(io_error + nat) list"
  st_sent :: "u8 list"

fun script_read :: "nat \<Rightarrow> (io_error + u8 list) list \<Rightarrow> u8 list res \<times> (io_error + u8 list) list" where
  "script_read n [] = (Err WouldBlock, [])"
| "script_read n (Inl e # rs) = (Err e, rs)"
| "script_read n (Inr bs # rs) =
     (if length bs \<le> n then (Ok bs, rs) else (Ok (take n bs), Inr (drop n bs) # rs))"

definition script_tcp :: "script_tcp tcp_ops" where
  "script_tcp =
     \<lparr>tcp_read = (\<lambda>n t. case script_read n (st_reads t) of (r, rs) \<Rightarrow> (r, t\<lparr>st_reads := rs\<rparr>)),
      tcp_write = (\<lambda>bs t. case st_writes t of
          [] \<Rightarrow> (Ok (length bs), t\<lparr>st_sent := st_sent t @ bs\<rparr>)
        | Inl e # ws \<Rightarrow> (Err e, t\<lparr>st_writes := ws\<rparr>)
        | Inr k # ws \<Rightarrow> (Ok (min k (length bs)), t\<lparr>st_writes := ws, st_sent := st_sent t @ take k bs\<rparr>))\<rparr>"

fun script_bytes :: "(io_error + u8 list) list \<Rightarrow> u8 list" where
  "script_bytes [] = []"
| "script_bytes (Inl e # rs) = script_bytes rs"
| "script_bytes (Inr bs # rs) = bs @ script_bytes rs"

definition st_unread :: "script_tcp \<Rightarrow> u8 list" where
  "st_unread t = script_bytes (st_reads t)"

lemma script_read_ok:
  "script_read n rs = (Ok bs, rs') \<Longrightarrow> length bs \<le> n \<and> script_bytes rs = bs @ script_bytes rs'"
  by (induction n rs rule: script_read.induct) (auto split: if_splits)

lemma script_read_err: "script_read n rs = (Err e, rs') \<Longrightarrow> script_bytes rs' = script_bytes rs"
  by (induction n rs rule: script_read.induct) (auto split: if_splits)

lemma script_read_panic: "script_read n rs \<noteq> (Panic, rs')"
  by (induction n rs rule: script_read.induct) auto

lemma script_laws: "tcp_laws script_tcp st_unread st_sent"
  by unfold_locales
    (auto simp: script_tcp_def st_unread_def min_def script_read_panic
      dest: script_read_ok script_read_err split: prod.splits list.splits sum.splits if_splits)

interpretation script: tcp_laws script_tcp st_unread st_sent
  by (rule script_laws)

section \<open>Message framing\<close>

definition frame :: "u8 list \<Rightarrow> u8 list" where
  "frame d = u32_le (of_nat (length d)) @ d"

text \<open>The reference: complete frames off a byte sequence, and what is left.\<close>

function split_frames :: "u8 list \<Rightarrow> u8 list list \<times> u8 list" where
  "split_frames bs =
     (if length bs < 4 then ([], bs)
      else
        let n = unat (le_u32 (take 4 bs)) in
        if length bs < 4 + n then ([], bs)
        else case split_frames (drop (4 + n) bs) of (fs, rest) \<Rightarrow> (take n (drop 4 bs) # fs, rest))"
  by pat_completeness auto
termination
  by (relation "measure length") auto

declare split_frames.simps [simp del]

lemma length_4: "length bs = 4 \<longleftrightarrow> (\<exists>a b c d. bs = [a, b, c, d])"
  by (auto simp: numeral_eq_Suc length_Suc_conv)

lemma u32_le_le_u32:
  assumes "length bs = 4"
  shows "u32_le (le_u32 bs) = bs"
proof -
  obtain a b c d where "bs = [a, b, c, d]" using assms by (auto simp: length_4)
  then show ?thesis
    by (auto simp: u32_le_def intro!: bit_word_eqI) (auto simp: bit_simps dest: bit_imp_le_length)
qed

text \<open>The bytes of the frame that is being read, and the invariant of the buffer.\<close>

definition consumed :: "buffer_offset \<Rightarrow> u8 list" where
  "consumed b = (if reading_length b then take (buf_offset b) (length_bytes b)
     else length_bytes b @ take (buf_offset b) (buffer b))"

definition wf_buffer :: "buffer_offset \<Rightarrow> bool" where
  "wf_buffer b \<longleftrightarrow> length (length_bytes b) = 4 \<and>
     (if reading_length b then buf_offset b \<le> 4
      else buf_offset b \<le> length (buffer b) \<and> length (buffer b) = unat (le_u32 (length_bytes b)))"

definition incomplete :: "buffer_offset \<Rightarrow> bool" where
  "incomplete b \<longleftrightarrow> (if reading_length b then buf_offset b < 4 else buf_offset b < length (buffer b))"

definition read_rank :: "buffer_offset \<Rightarrow> nat" where
  "read_rank b = (if reading_length b then (if buf_offset b < 4 then 0 else 2) else 1)"

lemma split_frames_incomplete: "wf_buffer b \<Longrightarrow> incomplete b \<Longrightarrow> split_frames (consumed b) = ([], consumed b)"
  by (subst split_frames.simps) (auto simp: wf_buffer_def incomplete_def consumed_def min_def)

lemma split_frames_frame:
  assumes "length d < 2 ^ 32"
  shows "split_frames (frame d @ rest) = (case split_frames rest of (fs, r) \<Rightarrow> (d # fs, r))"
  using assms by (subst split_frames.simps) (simp add: frame_def unat_of_nat take_bit_eq_mod Let_def)

lemma split_frames_frames:
  "\<forall>d\<in>set ds. length d < 2 ^ 32 \<Longrightarrow>
   split_frames (concat (map frame ds) @ rest) = (case split_frames rest of (fs, r) \<Rightarrow> (ds @ fs, r))"
  by (induction ds) (simp_all add: split_frames_frame split: prod.split)

context tcp_laws
begin

lemma read_part_ok:
  assumes "read_part T off bytes t = (Ok (off', bytes'), t')" and "off \<le> length bytes"
  shows "off < off' \<and> off' \<le> length bytes \<and> length bytes' = length bytes \<and>
    take off' bytes' @ unread t' = take off bytes @ unread t \<and>
    length (unread t') < length (unread t) \<and> sent t' = sent t"
proof -
  obtain bs where r: "tcp_read T (length bytes - off) t = (Ok bs, t')" "bs \<noteq> []"
    "off' = off + length bs" "bytes' = take off bytes @ bs @ drop (off + length bs) bytes"
    using assms(1) by (auto simp: read_part_def split: prod.splits res.splits if_splits)
  show ?thesis using read_ok [OF r(1)] r(2-4) assms(2) by auto
qed

lemma read_part_err:
  assumes "read_part T off bytes t = (Err e, t')"
  shows "length (unread t') \<le> length (unread t) \<and> unread t = unread t' \<and> sent t' = sent t"
  using assms read_ok read_err
  by (fastforce simp: read_part_def split: prod.splits res.splits if_splits)

lemma read_part_panic: "read_part T off bytes t \<noteq> (Panic, t')"
  using read_panic by (auto simp: read_part_def split: prod.splits res.splits if_splits)

lemma tcp_step_ok:
  assumes "tcp_step T (b, t) = (Ok new, b', t')" and "wf_buffer b"
  shows "wf_buffer b' \<and> sent t' = sent t \<and>
    consumed b @ unread t = concat (map (frame \<circ> data) new) @ consumed b' @ unread t' \<and>
    (\<forall>p\<in>set new. reliability p = ReliableOrdered \<and> length (data p) < 2 ^ 32) \<and>
    3 * length (unread t') + read_rank b' < 3 * length (unread t) + read_rank b"
proof (cases "reading_length b")
  case True
  then have w: "length (length_bytes b) = 4" "buf_offset b \<le> 4" using assms(2) by (auto simp: wf_buffer_def)
  show ?thesis
  proof (cases "buf_offset b < 4")
    case less: True
    then obtain off bytes where r: "read_part T (buf_offset b) (length_bytes b) t = (Ok (off, bytes), t')"
      "new = []" "b' = b\<lparr>buf_offset := off, length_bytes := bytes\<rparr>"
      using assms(1) True w by (auto simp: tcp_step_def split: prod.splits res.splits)
    show ?thesis using read_part_ok [OF r(1)] r(2,3) True w less
      by (auto simp: wf_buffer_def consumed_def read_rank_def)
  next
    case False
    then have "new = []" "t' = t" "b' = b\<lparr>reading_length := False, buf_offset := 0,
        buffer := replicate (unat (le_u32 (length_bytes b))) 0\<rparr>"
      using assms(1) True w by (auto simp: tcp_step_def)
    then show ?thesis using True w False by (auto simp: wf_buffer_def consumed_def read_rank_def)
  qed
next
  case False
  then have w: "length (length_bytes b) = 4" "buf_offset b \<le> length (buffer b)"
    "length (buffer b) = unat (le_u32 (length_bytes b))" using assms(2) by (auto simp: wf_buffer_def)
  show ?thesis
  proof (cases "buf_offset b < length (buffer b)")
    case less: True
    then obtain off bytes where r: "read_part T (buf_offset b) (buffer b) t = (Ok (off, bytes), t')"
      "new = []" "b' = b\<lparr>buf_offset := off, buffer := bytes\<rparr>"
      using assms(1) False w by (auto simp: tcp_step_def split: prod.splits res.splits)
    show ?thesis using read_part_ok [OF r(1)] r(2,3) False w less
      by (auto simp: wf_buffer_def consumed_def read_rank_def)
  next
    case full: False
    then have n: "new = [mk_packet ReliableOrdered (buffer b)]" "t' = t"
      "b' = b\<lparr>reading_length := True, buf_offset := 0, buffer := []\<rparr>"
      using assms(1) False by (auto simp: tcp_step_def)
    have "frame (buffer b) = length_bytes b @ buffer b"
      by (simp add: frame_def w(3) u32_le_le_u32 [OF w(1)])
    moreover have "length (buffer b) < 2 ^ 32"
      unfolding w(3) using unsigned_less [of "le_u32 (length_bytes b)", where ?'a = nat] by simp
    ultimately show ?thesis using n False full w by (auto simp: wf_buffer_def consumed_def read_rank_def)
  qed
qed

lemma tcp_step_err:
  assumes "tcp_step T (b, t) = (Err e, b', t')" and "wf_buffer b"
  shows "b' = b \<and> unread t' = unread t \<and> sent t' = sent t \<and> incomplete b"
  using assms read_part_err
  by (fastforce simp: tcp_step_def wf_buffer_def incomplete_def split: if_splits prod.splits res.splits)

lemma tcp_step_panic: "tcp_step T (b, t) \<noteq> (Panic, b', t')"
  using read_part_panic by (auto simp: tcp_step_def split: if_splits prod.splits res.splits)

lemma receive_tcp_frames:
  assumes "wf_buffer b"
  shows "\<exists>e new b' t'. receive_tcp T packets (b, t) = Some (Err e, packets @ new, b', t') \<and>
    wf_buffer b' \<and> incomplete b' \<and> sent t' = sent t \<and> length (unread t') \<le> length (unread t) \<and>
    consumed b @ unread t = concat (map (frame \<circ> data) new) @ consumed b' @ unread t' \<and>
    (\<forall>p\<in>set new. reliability p = ReliableOrdered \<and> length (data p) < 2 ^ 32)"
  using assms
proof (induction "3 * length (unread t) + read_rank b" arbitrary: packets b t rule: less_induct)
  case less
  obtain r b1 t1 where s: "tcp_step T (b, t) = (r, b1, t1)" by (cases "tcp_step T (b, t)") auto
  show ?case
  proof (cases r)
    case (Ok new)
    note k = tcp_step_ok [OF s [unfolded Ok] less.prems]
    from less.hyps [of t1 b1 "packets @ new"] k obtain e new' b' t' where
      "receive_tcp T (packets @ new) (b1, t1) = Some (Err e, (packets @ new) @ new', b', t')"
      "wf_buffer b'" "incomplete b'" "sent t' = sent t1" "length (unread t') \<le> length (unread t1)"
      "consumed b1 @ unread t1 = concat (map (frame \<circ> data) new') @ consumed b' @ unread t'"
      "\<forall>p\<in>set new'. reliability p = ReliableOrdered \<and> length (data p) < 2 ^ 32" by blast
    moreover have "length (unread t1) \<le> length (unread t)"
      using k by (auto simp: read_rank_def split: if_splits)
    ultimately show ?thesis using k s Ok
      by (intro exI [of _ e] exI [of _ "new @ new'"] exI [of _ b'] exI [of _ t'])
        (auto simp: receive_tcp.simps [of T packets])
  next
    case (Err e)
    then show ?thesis using tcp_step_err [OF s [unfolded Err] less.prems] s less.prems
      by (intro exI [of _ e] exI [of _ "[]"] exI [of _ b] exI [of _ t1])
        (auto simp: receive_tcp.simps [of T packets])
  next
    case Panic
    then show ?thesis using tcp_step_panic s by auto
  qed
qed

end

section \<open>What is sent\<close>

definition is_stream :: "packet \<Rightarrow> bool" where
  "is_stream p \<longleftrightarrow> reliability p \<in> {Reliable, ReliableOrdered}"

text \<open>The datagrams of the unreliable packets, from sequence number \<open>n\<close> on, and the number after them.\<close>

fun udp_wire :: "u32 \<Rightarrow> packet list \<Rightarrow> u8 list list" where
  "udp_wire n [] = []"
| "udp_wire n (p # ps) =
     (case reliability p of
        Unreliable \<Rightarrow> (0 # data p) # udp_wire n ps
      | UnreliableSequenced \<Rightarrow> (1 # u32_le n @ data p) # udp_wire (n + 1) ps
      | _ \<Rightarrow> udp_wire n ps)"

fun seq_after :: "u32 \<Rightarrow> packet list \<Rightarrow> u32" where
  "seq_after n [] = n"
| "seq_after n (p # ps) = seq_after (if reliability p = UnreliableSequenced then n + 1 else n) ps"

definition tcp_wire :: "packet list \<Rightarrow> u8 list" where
  "tcp_wire ps = concat (map (frame \<circ> data) (filter is_stream ps))"

context tcp_laws
begin

lemma write_all_sent:
  "write_all (tcp_write T) bs t = (Ok (), t') \<Longrightarrow> sent t' = sent t @ bs \<and> unread t' = unread t"
proof (induction "tcp_write T" bs t arbitrary: t' rule: write_all.induct)
  case (1 bs t)
  show ?case
  proof (cases "bs = []")
    case False
    obtain k t1 where w: "tcp_write T bs t = (Ok k, t1)" "k \<noteq> 0"
      using 1(2) False by (auto simp: write_all.simps [of _ bs] split: prod.splits res.splits if_splits)
    then have "write_all (tcp_write T) (drop k bs) t1 = (Ok (), t')"
      using 1(2) False by (simp add: write_all.simps [of _ bs])
    from 1(1) [OF False w(1) [symmetric] refl w(2) this] show ?thesis
      using write_ok [OF w(1)] by (metis append.assoc append_take_drop_id)
  qed (use 1(2) in simp)
qed

end

text \<open>A stream that takes all it is given.\<close>

locale tcp_full = tcp_laws T unread sent
  for T :: "'tcp tcp_ops" and unread :: "'tcp \<Rightarrow> u8 list" and sent :: "'tcp \<Rightarrow> u8 list" +
  fixes full :: "'tcp \<Rightarrow> bool"
  assumes write_full: "full t \<Longrightarrow> \<exists>t'. tcp_write T bs t = (Ok (length bs), t') \<and> full t'"
begin

lemma write_sent:
  assumes "full t"
  shows "\<exists>t'. tcp_write T bs t = (Ok (length bs), t') \<and> full t' \<and> sent t' = sent t @ bs"
proof -
  obtain t' where "tcp_write T bs t = (Ok (length bs), t')" "full t'" using write_full [OF assms] by blast
  then show ?thesis using write_ok by fastforce
qed

lemma write_all_full_sent:
  assumes "full t"
  shows "\<exists>t'. write_all (tcp_write T) bs t = (Ok (), t') \<and> full t' \<and> sent t' = sent t @ bs"
proof -
  obtain t' where t': "tcp_write T bs t = (Ok (length bs), t')" "full t'" "sent t' = sent t @ bs"
    using write_sent [OF assms] by blast
  then show ?thesis using assms
    by (cases "bs = []") (auto simp: write_all_full intro!: exI [of _ t'])
qed

lemma tu_send_wire:
  assumes "endio_laws E" and "full (tu_tcp c)" and "udp_reliable (tu_udp c)"
  shows "\<exists>t. full t \<and> sent t = sent (tu_tcp c) @ tcp_wire ps \<and>
    tu_send E T ps c = (Ok (), c\<lparr>tu_tcp := t, seq_num_send := seq_after (seq_num_send c) ps,
      tu_udp := (tu_udp c)\<lparr>udp_sent := udp_sent (tu_udp c) @
        map (Pair (tu_peer c)) (udp_wire (seq_num_send c) ps)\<rparr>\<rparr>)"
  using assms(2,3)
proof (induction ps arbitrary: c)
  case Nil
  then show ?case by (intro exI [of _ "tu_tcp c"]) (simp add: tcp_wire_def)
next
  case (Cons p ps)
  note en = endio_laws.en_simps [OF assms(1)]
  show ?case
  proof (cases "is_stream p")
    case True
    obtain t1 where 1: "write_all (tcp_write T) (u32_le (of_nat (length (data p)))) (tu_tcp c) = (Ok (), t1)"
      "full t1" "sent t1 = sent (tu_tcp c) @ u32_le (of_nat (length (data p)))"
      using write_all_full_sent [OF Cons.prems(1)] by blast
    obtain t2 where 2: "tcp_write T (data p) t1 = (Ok (length (data p)), t2)" "full t2"
      "sent t2 = sent t1 @ data p" using write_sent [OF 1(2)] by blast
    have "tu_send_packet E T p c = (Ok (), c\<lparr>tu_tcp := t2\<rparr>)"
      using True 1(1) 2(1) by (cases "reliability p")
        (auto simp: is_stream_def tu_send_packet_def tu_tcp_write_all_def tu_tcp_write_once_def en)
    then show ?thesis using Cons.IH [of "c\<lparr>tu_tcp := t2\<rparr>"] Cons.prems(2) True 1(3) 2(2,3)
      by (cases "reliability p") (auto simp: tcp_wire_def frame_def is_stream_def)
  next
    case False
    let ?n = "if reliability p = UnreliableSequenced then seq_num_send c + 1 else seq_num_send c"
    let ?c = "c\<lparr>seq_num_send := ?n, tu_udp := (tu_udp c)\<lparr>udp_sent := udp_sent (tu_udp c) @
        map (Pair (tu_peer c)) (udp_wire (seq_num_send c) [p])\<rparr>\<rparr>"
    have "tu_send_packet E T p c = (Ok (), ?c)"
      using False Cons.prems(2) by (cases "reliability p")
        (auto simp: is_stream_def tu_send_packet_def tu_udp_send_def en udp_send_to_reliable Let_def)
    then show ?thesis using Cons.IH [of ?c] Cons.prems False
      by (cases "reliability p") (auto simp: tcp_wire_def is_stream_def)
  qed
qed

end

lemma script_full: "tcp_full script_tcp st_unread st_sent (\<lambda>t. st_writes t = [])"
  by unfold_locales (simp add: script_tcp_def)

interpretation script_full: tcp_full script_tcp st_unread st_sent "\<lambda>t. st_writes t = []"
  by (rule script_full)

section \<open>What is received over UDP\<close>

lemma udp_recv_datagram:
  "udp_inbox u = Ok (d, a) # rest \<Longrightarrow> length d \<le> length BUF \<Longrightarrow>
   udp_recv BUF u = (Ok (length d), d @ drop (length d) BUF, u\<lparr>udp_inbox := rest\<rparr>)"
  by (simp add: udp_recv_def udp_recv_from_def)

lemma receive_udp_end:
  "udp_inbox (tu_udp c) = [] \<Longrightarrow> receive_udp E packets (BUF, c) = (Err WouldBlock, packets, BUF, c)"
  by (simp add: receive_udp.simps)

lemma receive_udp_datagram:
  assumes "udp_inbox (tu_udp c) = Ok (d, a) # rest" and "length d \<le> length BUF"
  shows "receive_udp E packets (BUF, c) =
    (let BUF = d @ drop (length d) BUF; c = c\<lparr>tu_udp := (tu_udp c)\<lparr>udp_inbox := rest\<rparr>\<rparr> in
     case udp_packet E BUF (length d) (seq_num_recv c) of
       Ok (new, n) \<Rightarrow> receive_udp E (packets @ new) (BUF, c\<lparr>seq_num_recv := n\<rparr>)
     | Err e \<Rightarrow> (Err e, packets, BUF, c)
     | Panic \<Rightarrow> (Panic, packets, BUF, c))"
  by (subst receive_udp.simps) (simp add: assms udp_recv_datagram Let_def)

context endio_laws
begin

lemma udp_packet_unreliable:
  "udp_packet E (0 # bs @ rest) (Suc (length bs)) n = Ok ([mk_packet Unreliable bs], n)"
  by (simp add: udp_packet_def en_simps take_bytes_read_def slice_def)

lemma udp_packet_sequenced:
  "udp_packet E (1 # u32_le m @ bs @ rest) (5 + length bs) n =
    Ok (if m - n < (- 1) div 2 then ([mk_packet UnreliableSequenced bs], m + 1) else ([], n))"
  by (simp add: udp_packet_def en_simps take_bytes_read_def slice_def)

lemma receive_udp_wire:
  assumes "udp_inbox (tu_udp c) = map (\<lambda>d. Ok (d, a)) (udp_wire (seq_num_recv c) ps)"
    and "\<forall>d\<in>set (udp_wire (seq_num_recv c) ps). length d \<le> length BUF"
  shows "\<exists>BUF'. length BUF' = length BUF \<and> receive_udp E packets (BUF, c) =
    (Err WouldBlock, packets @ filter (\<lambda>p. \<not> is_stream p) ps, BUF',
     c\<lparr>tu_udp := (tu_udp c)\<lparr>udp_inbox := []\<rparr>, seq_num_recv := seq_after (seq_num_recv c) ps\<rparr>)"
  using assms
proof (induction ps arbitrary: c BUF packets)
  case Nil
  then show ?case by (simp add: receive_udp_end)
next
  case (Cons p ps)
  have p: "mk_packet (reliability p) (data p) = p" by (cases p) (simp add: mk_packet_def)
  show ?case
  proof (cases "is_stream p")
    case True
    then show ?thesis using Cons by (cases "reliability p") (auto simp: is_stream_def)
  next
    case False
    let ?n = "if reliability p = UnreliableSequenced then seq_num_recv c + 1 else seq_num_recv c"
    let ?d = "hd (udp_wire (seq_num_recv c) [p])"
    let ?B = "?d @ drop (length ?d) BUF"
    let ?c = "c\<lparr>tu_udp := (tu_udp c)\<lparr>udp_inbox := map (\<lambda>d. Ok (d, a)) (udp_wire ?n ps)\<rparr>, seq_num_recv := ?n\<rparr>"
    have l: "length ?d \<le> length BUF" using False Cons.prems(2) by (cases "reliability p") (auto simp: is_stream_def)
    have i: "udp_inbox (tu_udp c) = Ok (?d, a) # map (\<lambda>d. Ok (d, a)) (udp_wire ?n ps)"
      using False Cons.prems(1) by (cases "reliability p") (auto simp: is_stream_def)
    have "(0 :: u32) < (- 1) div 2" by (simp add: word_less_nat_alt)
    then have "udp_packet E ?B (length ?d) (seq_num_recv c) = Ok ([p], ?n)"
      using False p udp_packet_sequenced [of "seq_num_recv c" "data p" "drop (length ?d) BUF" "seq_num_recv c"]
        udp_packet_unreliable [of "data p" "drop (length ?d) BUF"]
      by (cases "reliability p") (auto simp: is_stream_def)
    then have "receive_udp E packets (BUF, c) = receive_udp E (packets @ [p]) (?B, ?c)"
      using receive_udp_datagram [OF i l] by simp
    moreover have B: "length ?B = length BUF" using l by simp
    moreover have "\<forall>d\<in>set (udp_wire ?n ps). length d \<le> length BUF"
      using False Cons.prems(2) by (cases "reliability p") (auto simp: is_stream_def)
    then have "\<forall>d\<in>set (udp_wire (seq_num_recv ?c) ps). length d \<le> length ?B" unfolding B by simp
    ultimately show ?thesis using Cons.IH [of ?c ?B "packets @ [p]"] False by auto
  qed
qed

end

section \<open>The packets a call returns\<close>

lemma receive_tcp_splits:
  assumes "tcp_laws T unread sent" and "wf_buffer b"
  shows "\<exists>e new b' t' taken. receive_tcp T packets (b, t) = Some (Err e, packets @ new, b', t') \<and>
    unread t = taken @ unread t' \<and> wf_buffer b' \<and>
    split_frames (consumed b @ taken) = (map data new, consumed b') \<and>
    (\<forall>p\<in>set new. reliability p = ReliableOrdered)"
proof -
  obtain e new b' t' where r: "receive_tcp T packets (b, t) = Some (Err e, packets @ new, b', t')"
    "wf_buffer b'" "incomplete b'" "length (unread t') \<le> length (unread t)"
    "consumed b @ unread t = concat (map (frame \<circ> data) new) @ consumed b' @ unread t'"
    "\<forall>p\<in>set new. reliability p = ReliableOrdered \<and> length (data p) < 2 ^ 32"
    using tcp_laws.receive_tcp_frames [OF assms] by metis
  let ?k = "length (unread t) - length (unread t')"
  have "unread t' = drop ?k (unread t)"
    using arg_cong [OF r(5), of "drop (length (consumed b) + ?k)"] arg_cong [OF r(5), of length] r(4)
    by simp
  then have u: "unread t = take ?k (unread t) @ unread t'" by (metis append_take_drop_id)
  then have "(consumed b @ take ?k (unread t)) @ unread t' =
      (concat (map frame (map data new)) @ consumed b') @ unread t'"
    using r(5) by simp
  then have c: "consumed b @ take ?k (unread t) = concat (map frame (map data new)) @ consumed b'"
    by (rule append_same_eq [THEN iffD1])
  have "split_frames (consumed b @ take ?k (unread t)) = (map data new, consumed b')"
    unfolding c using r(6) split_frames_incomplete [OF r(2,3)] by (subst split_frames_frames) auto
  then show ?thesis using r(1,2,6) u by blast
qed

section \<open>Properties\<close>

text \<open>C9: whatever the sizes of the reads, and whether a message arrives in one call or over several,
  receiving from TCP returns exactly the complete frames of the bytes read since the last one, in
  order, as reliable ordered packets, and keeps the incomplete rest for the next call. It always
  ends, with an error (\<open>WouldBlock\<close> or one of the stream), never with \<open>Ok\<close> or a panic.\<close>

theorem tcp_messages_framed:
  assumes "tcp_laws T unread sent" and "wf_buffer b"
  shows "\<exists>e new b' t' taken. receive_tcp T packets (b, t) = Some (Err e, packets @ new, b', t') \<and>
    unread t = taken @ unread t' \<and> wf_buffer b' \<and>
    split_frames (consumed b @ taken) = (map data new, consumed b') \<and>
    (\<forall>p\<in>set new. reliability p = ReliableOrdered)"
  by (rule receive_tcp_splits [OF assms])

theorem tcp_messages_framed_witness:
  "\<exists>e new b' t' taken.
    receive_tcp script_tcp [] (partial_packet (tu_new () \<lparr>udp_sent = [], udp_script = [], udp_inbox = [], udp_local = localhost 9000\<rparr> (localhost 1)),
      \<lparr>st_reads = [Inr [2, 0], Inr [0, 0, 7], Inr [8, 1], Inl ConnectionReset], st_writes = [], st_sent = []\<rparr>) =
      Some (Err e, [] @ new, b', t') \<and>
    [2, 0, 0, 0, 7, 8, 1] = taken @ st_unread t' \<and> wf_buffer b' \<and>
    split_frames (consumed (partial_packet (tu_new () \<lparr>udp_sent = [], udp_script = [], udp_inbox = [], udp_local = localhost 9000\<rparr> (localhost 1))) @ taken) = (map data new, consumed b') \<and>
    (\<forall>p\<in>set new. reliability p = ReliableOrdered)"
  using tcp_messages_framed [OF script_laws, of "partial_packet (tu_new () \<lparr>udp_sent = [], udp_script = [], udp_inbox = [], udp_local = localhost 9000\<rparr> (localhost 1))" "[]"
      "\<lparr>st_reads = [Inr [2, 0], Inr [0, 0, 7], Inr [8, 1], Inl ConnectionReset], st_writes = [], st_sent = []\<rparr>"]
  by (simp add: wf_buffer_def tu_new_def st_unread_def)

text \<open>On a stream that takes all it is given and a socket on which sends succeed, \<open>send\<close> frames the
  reliable packets onto TCP in order and sends each unreliable packet as one datagram with its id
  and, if sequenced, the next sequence number.\<close>

theorem tcpudp_send_wire:
  assumes "tcp_full T unread sent full" and "endio_laws E"
    and "full (tu_tcp c)" and "udp_reliable (tu_udp c)"
  shows "\<exists>t. sent t = sent (tu_tcp c) @ tcp_wire ps \<and>
    tu_send E T ps c = (Ok (), c\<lparr>tu_tcp := t, seq_num_send := seq_after (seq_num_send c) ps,
      tu_udp := (tu_udp c)\<lparr>udp_sent := udp_sent (tu_udp c) @
        map (Pair (tu_peer c)) (udp_wire (seq_num_send c) ps)\<rparr>\<rparr>)"
  using tcp_full.tu_send_wire [OF assms] by blast

definition tu_sample :: "script_tcp tu_conn" where
  "tu_sample = tu_new \<lparr>st_reads = [], st_writes = [], st_sent = []\<rparr>
     \<lparr>udp_sent = [], udp_script = [], udp_inbox = [], udp_local = localhost 9000\<rparr> (localhost 21836)"

definition sample_packets :: "packet list" where
  "sample_packets = [mk_packet Reliable [7, 8], mk_packet UnreliableSequenced [9],
     mk_packet ReliableOrdered [], mk_packet Unreliable [1]]"

theorem tcpudp_send_wire_witness:
  "\<exists>t. st_sent t = [2, 0, 0, 0, 7, 8, 0, 0, 0, 0] \<and>
    tu_send le_endio script_tcp sample_packets tu_sample = (Ok (), tu_sample\<lparr>tu_tcp := t,
      seq_num_send := 1, tu_udp := \<lparr>udp_sent = [(localhost 21836, [1, 0, 0, 0, 0, 9]),
        (localhost 21836, [0, 1])], udp_script = [], udp_inbox = [], udp_local = localhost 9000\<rparr>\<rparr>)"
  using tcpudp_send_wire [OF script_full le_endio_laws, of tu_sample sample_packets]
  by (simp add: tu_sample_def tu_new_def udp_reliable_def sample_packets_def tcp_wire_def is_stream_def
      frame_def u32_le_def)

text \<open>C20: what one end sends, the other receives: the reliable packets in order, all of them as reliable
  ordered ones, followed by the unreliable packets in order, with nothing lost or changed, if
  both ends agree on the sequence number, the stream and the datagrams arrive, the datagrams fit
  the receive buffer, and the length of a reliable packet fits its four-byte length field.\<close>

theorem tcpudp_roundtrip:
  assumes "tcp_full T unread sent full" and "endio_laws E" and "full (tu_tcp a)" and "udp_reliable (tu_udp a)"
    and "tu_send E T ps a = (Ok (), a')"
    and "sent (tu_tcp a') = sent (tu_tcp a) @ unread (tu_tcp b)"
    and "map snd (udp_sent (tu_udp a')) = map snd (udp_sent (tu_udp a)) @ ds"
    and "udp_inbox (tu_udp b) = map (\<lambda>d. Ok (d, x)) ds"
    and "seq_num_recv b = seq_num_send a" and "wf_buffer (partial_packet b)" and "consumed (partial_packet b) = []"
    and "receive_tcp T [] (partial_packet b, tu_tcp b) = Some (Err WouldBlock, qs, buf, t)" and "unread t = []"
    and "\<forall>d\<in>set ds. length d \<le> length BUF"
    and "\<forall>p\<in>set ps. is_stream p \<longrightarrow> length (data p) < 2 ^ 32"
  shows "\<exists>BUF' b'. tu_receive E T (BUF, b) =
    Some (Ok (map (\<lambda>p. mk_packet ReliableOrdered (data p)) (filter is_stream ps) @
              filter (\<lambda>p. \<not> is_stream p) ps), BUF', b') \<and>
    seq_num_recv b' = seq_num_send a' \<and> consumed (partial_packet b') = []"
proof -
  obtain t1 where t1: "sent t1 = sent (tu_tcp a) @ tcp_wire ps" "a' = a\<lparr>tu_tcp := t1,
      seq_num_send := seq_after (seq_num_send a) ps, tu_udp := (tu_udp a)\<lparr>udp_sent := udp_sent (tu_udp a) @
        map (Pair (tu_peer a)) (udp_wire (seq_num_send a) ps)\<rparr>\<rparr>"
    using tcp_full.tu_send_wire [OF assms(1-4), of ps] assms(5) by auto
  have u: "unread (tu_tcp b) = concat (map frame (map data (filter is_stream ps)))"
    using assms(6) t1 by (simp add: tcp_wire_def)
  have ds: "ds = udp_wire (seq_num_recv b) ps" using assms(7,9) t1(2) by (simp add: o_def)
  have small: "\<forall>d\<in>set (map data (filter is_stream ps)). length d < 2 ^ 32" using assms(15) by simp
  have "tcp_laws T unread sent" using assms(1) by (rule tcp_full.axioms)
  from receive_tcp_splits [OF this assms(10), of "[]" "tu_tcp b"] assms(12)
  obtain taken where q: "unread (tu_tcp b) = taken @ unread t"
    "split_frames (consumed (partial_packet b) @ taken) = (map data qs, consumed buf)"
    "\<forall>p\<in>set qs. reliability p = ReliableOrdered" by auto
  have "split_frames [] = ([], [])" by (simp add: split_frames.simps)
  then have d: "map data qs = map data (filter is_stream ps)" "consumed buf = []"
    using q(1,2) assms(11,13) split_frames_frames [OF small, of "[]"] by (simp_all add: u)
  have eta: "p = mk_packet (reliability p) (data p)" for p by (cases p) (simp add: mk_packet_def)
  have "qs = map (\<lambda>d. mk_packet ReliableOrdered d) (map data qs)"
    using q(3) eta by (induction qs) auto
  then have qs: "qs = map (\<lambda>p. mk_packet ReliableOrdered (data p)) (filter is_stream ps)"
    unfolding d(1) by (simp add: o_def)
  let ?c = "b\<lparr>partial_packet := buf, tu_tcp := t\<rparr>"
  obtain BUF' where "receive_udp E qs (BUF, ?c) =
      (Err WouldBlock, qs @ filter (\<lambda>p. \<not> is_stream p) ps, BUF',
       ?c\<lparr>tu_udp := (tu_udp ?c)\<lparr>udp_inbox := []\<rparr>, seq_num_recv := seq_after (seq_num_recv ?c) ps\<rparr>)"
    using endio_laws.receive_udp_wire [OF assms(2), of ?c x ps BUF qs] assms(8,14) ds by auto
  then show ?thesis using assms(9,12) t1(2) d(2) qs by (simp add: tu_receive_def)
qed

definition tu_peer_sample :: "script_tcp tu_conn" where
  "tu_peer_sample = tu_new
     \<lparr>st_reads = [Inr [2, 0], Inr [0, 0, 7, 8, 0, 0], Inr [0, 0]], st_writes = [], st_sent = []\<rparr>
     \<lparr>udp_sent = [], udp_script = [], udp_inbox = [Ok ([1, 0, 0, 0, 0, 9], localhost 1), Ok ([0, 1], localhost 1)], udp_local = localhost 9000\<rparr>
     (localhost 1)"

lemma receive_tcp_sample:
  "receive_tcp script_tcp [] (partial_packet tu_peer_sample, tu_tcp tu_peer_sample) =
    Some (Err WouldBlock, [mk_packet ReliableOrdered [7, 8], mk_packet ReliableOrdered []],
      \<lparr>reading_length = True, buf_offset = 0, length_bytes = [0, 0, 0, 0], buffer = []\<rparr>,
      \<lparr>st_reads = [], st_writes = [], st_sent = []\<rparr>)"
  by (simp add: receive_tcp.simps tcp_step_def read_part_def script_tcp_def tu_peer_sample_def tu_new_def)

text \<open>One message that has arrived as a whole.\<close>

lemma receive_tcp_step: "tcp_step T s = (Ok new, s') \<Longrightarrow> receive_tcp T packets s = receive_tcp T (packets @ new) s'"
  by (simp add: receive_tcp.simps [of T packets s])

lemma receive_tcp_error: "tcp_step T s = (Err e, s') \<Longrightarrow> receive_tcp T packets s = Some (Err e, packets, s')"
  by (simp add: receive_tcp.simps [of T packets s])

lemma receive_one_frame:
  assumes "d \<noteq> []" and "length d < 2 ^ 32"
  shows "receive_tcp script_tcp [] (\<lparr>reading_length = True, buf_offset = 0, length_bytes = [0, 0, 0, 0], buffer = []\<rparr>,
      \<lparr>st_reads = [Inr (frame d)], st_writes = ws, st_sent = ss\<rparr>) =
    Some (Err WouldBlock, [mk_packet ReliableOrdered d],
      \<lparr>reading_length = True, buf_offset = 0, length_bytes = u32_le (of_nat (length d)), buffer = []\<rparr>,
      \<lparr>st_reads = [], st_writes = ws, st_sent = ss\<rparr>)"
proof -
  have l: "unat (of_nat (length d) :: u32) = length d" using assms(2) by (simp add: unat_of_nat take_bit_eq_mod)
  let ?h = "u32_le (of_nat (length d))"
  have h: "length ?h = 4" "?h \<noteq> []" by (simp_all add: u32_le_def)
  have r: "script_read 4 [Inr (?h @ d)] = (Ok ?h, [Inr d])" "script_read (length d) [Inr d] = (Ok d, [])"
    using assms(1) by (simp_all add: h)
  have 1: "tcp_step script_tcp (\<lparr>reading_length = True, buf_offset = 0, length_bytes = [0, 0, 0, 0], buffer = []\<rparr>,
      \<lparr>st_reads = [Inr (frame d)], st_writes = ws, st_sent = ss\<rparr>) =
    (Ok [], \<lparr>reading_length = True, buf_offset = 4, length_bytes = ?h, buffer = []\<rparr>,
      \<lparr>st_reads = [Inr d], st_writes = ws, st_sent = ss\<rparr>)"
    using h assms(1) by (simp add: tcp_step_def read_part_def script_tcp_def frame_def)
  have 2: "tcp_step script_tcp (\<lparr>reading_length = True, buf_offset = 4, length_bytes = ?h, buffer = []\<rparr>, t) =
      (Ok [], \<lparr>reading_length = False, buf_offset = 0, length_bytes = ?h, buffer = replicate (length d) 0\<rparr>, t)" for t
    by (simp add: tcp_step_def h l)
  have 3: "tcp_step script_tcp (\<lparr>reading_length = False, buf_offset = 0, length_bytes = ?h, buffer = replicate (length d) 0\<rparr>,
      \<lparr>st_reads = [Inr d], st_writes = ws, st_sent = ss\<rparr>) =
    (Ok [], \<lparr>reading_length = False, buf_offset = length d, length_bytes = ?h, buffer = d\<rparr>,
      \<lparr>st_reads = [], st_writes = ws, st_sent = ss\<rparr>)"
    using r(2) assms(1) by (simp add: tcp_step_def read_part_def script_tcp_def del: script_read.simps)
  have 4: "tcp_step script_tcp (\<lparr>reading_length = False, buf_offset = length d, length_bytes = ?h, buffer = d\<rparr>, t) =
    (Ok [mk_packet ReliableOrdered d], \<lparr>reading_length = True, buf_offset = 0, length_bytes = ?h, buffer = []\<rparr>, t)" for t
    by (simp add: tcp_step_def)
  have 5: "tcp_step script_tcp (\<lparr>reading_length = True, buf_offset = 0, length_bytes = ?h, buffer = []\<rparr>,
      \<lparr>st_reads = [], st_writes = ws, st_sent = ss\<rparr>) =
    (Err WouldBlock, \<lparr>reading_length = True, buf_offset = 0, length_bytes = ?h, buffer = []\<rparr>,
      \<lparr>st_reads = [], st_writes = ws, st_sent = ss\<rparr>)"
    by (simp add: tcp_step_def h read_part_def script_tcp_def)
  show ?thesis
    by (simp add: receive_tcp_step [OF 1] receive_tcp_step [OF 2] receive_tcp_step [OF 3]
        receive_tcp_step [OF 4] receive_tcp_error [OF 5])
qed

lemma tu_peer_sample_receive:
  "\<exists>BUF' c. tu_receive le_endio script_tcp (replicate 1200 0, tu_peer_sample) =
    Some (Ok [mk_packet ReliableOrdered [7, 8], mk_packet ReliableOrdered [],
      mk_packet UnreliableSequenced [9], mk_packet Unreliable [1]], BUF', c)"
  using endio_laws.receive_udp_wire [OF le_endio_laws, of "tu_peer_sample\<lparr>partial_packet :=
      \<lparr>reading_length = True, buf_offset = 0, length_bytes = [0, 0, 0, 0], buffer = []\<rparr>,
      tu_tcp := \<lparr>st_reads = [], st_writes = [], st_sent = []\<rparr>\<rparr>"
      "localhost 1" "[mk_packet UnreliableSequenced [9], mk_packet Unreliable [1]]" "replicate 1200 0"
      "[mk_packet ReliableOrdered [7, 8], mk_packet ReliableOrdered []]"]
  by (auto simp: tu_receive_def receive_tcp_sample is_stream_def)
    (auto simp: tu_peer_sample_def tu_new_def u32_le_def)

theorem tcpudp_roundtrip_witness:
  "\<exists>BUF' b'. tu_receive le_endio script_tcp (replicate 1200 0, tu_peer_sample) =
    Some (Ok [mk_packet ReliableOrdered [7, 8], mk_packet ReliableOrdered [],
      mk_packet UnreliableSequenced [9], mk_packet Unreliable [1]], BUF', b')"
proof -
  obtain t where t: "st_sent t = [2, 0, 0, 0, 7, 8, 0, 0, 0, 0]"
    "tu_send le_endio script_tcp sample_packets tu_sample = (Ok (), tu_sample\<lparr>tu_tcp := t,
      seq_num_send := 1, tu_udp := \<lparr>udp_sent = [(localhost 21836, [1, 0, 0, 0, 0, 9]),
        (localhost 21836, [0, 1])], udp_script = [], udp_inbox = [], udp_local = localhost 9000\<rparr>\<rparr>)"
    using tcp_full.tu_send_wire [OF script_full le_endio_laws, of tu_sample sample_packets]
    by (auto simp: tu_sample_def tu_new_def udp_reliable_def sample_packets_def tcp_wire_def is_stream_def
        frame_def u32_le_def)
  have "\<exists>BUF' b'. tu_receive le_endio script_tcp (replicate 1200 0, tu_peer_sample) =
    Some (Ok (map (\<lambda>p. mk_packet ReliableOrdered (data p)) (filter is_stream sample_packets) @
      filter (\<lambda>p. \<not> is_stream p) sample_packets), BUF', b') \<and>
    seq_num_recv b' = 1 \<and> consumed (partial_packet b') = []"
    using tcpudp_roundtrip [OF script_full le_endio_laws _ _ t(2) _ _ _ _ _ _ receive_tcp_sample,
        of "[[1, 0, 0, 0, 0, 9], [0, 1]]" "localhost 1" "replicate 1200 0"] t(1)
    by (simp add: tu_sample_def tu_peer_sample_def tu_new_def udp_reliable_def st_unread_def wf_buffer_def
        consumed_def sample_packets_def is_stream_def)
  then show ?thesis by (auto simp: sample_packets_def is_stream_def)
qed

text \<open>\<open>send\<close> writes the length of a reliable packet completely but its data with a single \<open>write\<close>. A
  stream that takes only part of the data makes \<open>send\<close> succeed with the frame cut short, so the
  peer takes the start of the next frame for the rest of this one.\<close>

theorem short_write_truncates:
  assumes "tcp_laws T unread sent" and "endio_laws E" and "is_stream p"
    and "write_all (tcp_write T) (u32_le (of_nat (length (data p)))) (tu_tcp c) = (Ok (), t)"
    and "tcp_write T (data p) t = (Ok k, t')" and "k < length (data p)"
  shows "tu_send E T [p] c = (Ok (), c\<lparr>tu_tcp := t'\<rparr>) \<and>
    sent t' = sent (tu_tcp c) @ u32_le (of_nat (length (data p))) @ take k (data p)"
proof -
  have "tu_send E T [p] c = (Ok (), c\<lparr>tu_tcp := t'\<rparr>)"
    using assms(3-5) endio_laws.en_simps [OF assms(2)] by (cases "reliability p")
      (auto simp: is_stream_def tu_send_packet_def tu_tcp_write_all_def tu_tcp_write_once_def)
  then show ?thesis
    using tcp_laws.write_all_sent [OF assms(1,4)] tcp_laws.write_ok [OF assms(1,5)] by simp
qed

theorem short_write_truncates_witness:
  "tu_send le_endio script_tcp [mk_packet Reliable [1, 2, 3]]
      (tu_sample\<lparr>tu_tcp := \<lparr>st_reads = [], st_writes = [Inr 4, Inr 1], st_sent = []\<rparr>\<rparr>) =
    (Ok (), tu_sample\<lparr>tu_tcp := \<lparr>st_reads = [], st_writes = [], st_sent = [3, 0, 0, 0, 1]\<rparr>\<rparr>)"
  using short_write_truncates [OF script_laws le_endio_laws, of "mk_packet Reliable [1, 2, 3]"
      "tu_sample\<lparr>tu_tcp := \<lparr>st_reads = [], st_writes = [Inr 4, Inr 1], st_sent = []\<rparr>\<rparr>"
      "\<lparr>st_reads = [], st_writes = [Inr 1], st_sent = [3, 0, 0, 0]\<rparr>" 1
      "\<lparr>st_reads = [], st_writes = [], st_sent = [3, 0, 0, 0, 1]\<rparr>"]
  by (simp add: is_stream_def script_tcp_def u32_le_def write_all.simps)

text \<open>C40: \<open>receive_udp\<close> panics on a datagram that is empty (unless the stale first byte of the buffer
  is 1), on one with an unknown id, and on a sequenced one that ends before its data if the
  sequence number it finds, partly in stale bytes, is not an old one.\<close>

theorem bad_datagram_panics:
  assumes "endio_laws E" and "udp_inbox (tu_udp c) = Ok (d, a) # rest" and "length d \<le> length BUF"
    and "5 \<le> length BUF" and "BUF' = d @ drop (length d) BUF"
    and "d = [] \<and> hd BUF \<noteq> 1 \<or> d \<noteq> [] \<and> 1 < hd d \<or>
      d \<noteq> [] \<and> hd d = 1 \<and> length d < 5 \<and> le_u32 (take 4 (tl BUF')) - seq_num_recv c < (- 1) div 2"
  shows "receive_udp E packets (BUF, c) =
    (Panic, packets, BUF', c\<lparr>tu_udp := (tu_udp c)\<lparr>udp_inbox := rest\<rparr>\<rparr>)"
proof -
  note en = endio_laws.en_simps [OF assms(1)]
  have B: "length BUF' = length BUF" using assms(3,5) by simp
  have h: "d \<noteq> [] \<Longrightarrow> hd BUF' = hd d" "d = [] \<Longrightarrow> hd BUF' = hd BUF" using assms(5) by auto
  have r: "en_read_u8 E BUF' = Ok (hd BUF', tl BUF')"
    using B assms(4) by (cases BUF') (auto simp: en take_bytes_read_def)
  have u: "en_read_u32 E (tl BUF') = Ok (le_u32 (take 4 (tl BUF')), drop 4 (tl BUF'))"
    using B assms(4) by (simp add: en take_bytes_read_def)
  have big: "x \<noteq> 0 \<and> x \<noteq> 1" if "1 < x" for x :: u8 using that by auto
  have "udp_packet E BUF' (length d) (seq_num_recv c) = Panic"
    using assms(6) big [of "hd d"] h
    by (auto simp: udp_packet_def r u slice_def)
  then show ?thesis using receive_udp_datagram [OF assms(2,3)] assms(5) by simp
qed

theorem bad_datagram_panics_witness:
  "receive_udp le_endio [] ([0, 0, 0, 0, 0, 0],
      tu_sample\<lparr>tu_udp := \<lparr>udp_sent = [], udp_script = [], udp_inbox = [Ok ([], localhost 1)], udp_local = localhost 9000\<rparr>\<rparr>) =
    (Panic, [], [0, 0, 0, 0, 0, 0],
      tu_sample\<lparr>tu_udp := \<lparr>udp_sent = [], udp_script = [], udp_inbox = [], udp_local = localhost 9000\<rparr>\<rparr>)"
  using bad_datagram_panics [OF le_endio_laws, of
      "tu_sample\<lparr>tu_udp := \<lparr>udp_sent = [], udp_script = [], udp_inbox = [Ok ([], localhost 1)], udp_local = localhost 9000\<rparr>\<rparr>"
      "[]" "localhost 1" "[]" "[0, 0, 0, 0, 0, 0]" "[0, 0, 0, 0, 0, 0]" "[]"] by simp

end
