(* ===== verification/Bridge.thy ===== *)
theory Bridge
  imports Connection FixStr Log TcpUdp
begin

text \<open>
  \<open>src/bridge.rs\<close> and the data of a \<open>Shim\<close> of \<open>src/main.rs\<close>, which refer to each other: a bridge
  connects a RakNet connection with a TcpUdp connection and rewrites the addresses in login and
  redirect packets. Name resolution, binding and connecting are parameters over the state \<open>'os\<close> of
  the operating system and the network.
\<close>

section \<open>The environment\<close>

text \<open>\<open>env_checks\<close> says whether the build has overflow checks. The socket operations that only report
  whether they worked are functions of the socket. Connecting the TCP stream includes the TLS
  handshake, which need not end: then its value is \<open>None\<close>.\<close>

record ('os, 'tcp, 'r, 'w) env =
  env_checks :: bool
  env_reader :: "'r bit_reader"
  env_writer :: "'w bit_writer"
  env_endio :: endio
  env_tcp :: "'tcp tcp_ops"
  os_resolve :: "u8 list \<times> u16 \<Rightarrow> 'os \<Rightarrow> sock_addr list res \<times> 'os"
  os_bind :: "sock_addr \<Rightarrow> 'os \<Rightarrow> udp_socket res \<times> 'os"
  os_local_addr :: "udp_socket \<Rightarrow> sock_addr res"
  os_nonblocking :: "udp_socket \<Rightarrow> unit res"
  os_clone :: "udp_socket \<Rightarrow> unit res"
  os_udp_connect :: "sock_addr \<Rightarrow> udp_socket \<Rightarrow> unit res"
  os_tcp_connect :: "sock_addr \<Rightarrow> 'os \<Rightarrow> ('tcp res \<times> 'os) option"
  os_tcp_local_addr :: "'tcp \<Rightarrow> sock_addr res"
  os_tcp_nonblocking :: "'tcp \<Rightarrow> unit res"

section \<open>State\<close>

record 'tcp bridge =
  raknet :: connection
  tcpudp :: "'tcp tu_conn"

text \<open>All bridges of a shim share its RakNet socket (\<open>try_clone\<close>), which is state of the shim. The
  hash map of bridges is an association list; the order of the list is the order in which \<open>retain\<close>
  visits them.\<close>

record 'tcp shim =
  connect_addr :: sock_addr
  raknet_socket :: udp_socket
  bridges :: "(sock_addr \<times> 'tcp bridge) list"

datatype 'tcp shim_command = NewShim sock_addr "'tcp shim"

definition bridge_new :: "connection \<Rightarrow> 'tcp tu_conn \<Rightarrow> 'tcp bridge" where
  "bridge_new r t = \<lparr>raknet = r, tcpudp = t\<rparr>"

definition shim_new ::
  "('os, 'tcp, 'r, 'w) env \<Rightarrow> sock_addr \<Rightarrow> sock_addr \<Rightarrow> 'os \<Rightarrow> 'tcp shim res \<times> 'os" where
  "shim_new env listen connect os =
     then_do (os_bind env listen os) (\<lambda>socket os.
       (and_then (os_nonblocking env socket) (\<lambda>_.
          Ok \<lparr>connect_addr = connect, raknet_socket = socket, bridges = []\<rparr>), os))"

definition local_addr :: "('os, 'tcp, 'r, 'w) env \<Rightarrow> 'tcp shim \<Rightarrow> sock_addr res" where
  "local_addr env s = os_local_addr env (raknet_socket s)"

text \<open>What the operating system promises of the local addresses of sockets: a bound socket has the IP
  address asked for, and the port unless that was 0; \<open>local_addr\<close>, when it works, reports it.\<close>

locale os_laws =
  fixes env :: "('os, 'tcp, 'r, 'w) env"
  assumes bind_ip: "os_bind env a os = (Ok u, os') \<Longrightarrow> addr_ip (udp_local u) = addr_ip a"
    and bind_port: "os_bind env a os = (Ok u, os') \<Longrightarrow> addr_port a \<noteq> 0 \<Longrightarrow> addr_port (udp_local u) = addr_port a"
    and local_addr_ok: "os_local_addr env u = Ok a \<Longrightarrow> a = udp_local u"
begin

lemma bind_fixed: "os_bind env a os = (Ok u, os') \<Longrightarrow> addr_port a \<noteq> 0 \<Longrightarrow> udp_local u = a"
  using bind_ip bind_port by fastforce

end

section \<open>Rewriting addresses\<close>

text \<open>\<open>unwrap().next().unwrap()\<close> on the result of \<open>to_socket_addrs\<close>.\<close>

definition unwrap_first :: "'a list res \<Rightarrow> 'a res" where
  "unwrap_first r = (case r of Ok (a # _) \<Rightarrow> Ok a | _ \<Rightarrow> Panic)"

text \<open>\<open>&data[i..]\<close>\<close>

definition slice_from :: "nat \<Rightarrow> u8 list \<Rightarrow> u8 list res" where
  "slice_from i bs = (if i \<le> length bs then Ok (drop i bs) else Panic)"

text \<open>The strings \<open>localhost\<close> and \<open>127.0.0.1\<close>.\<close>

definition localhost_name :: "u8 list" where
  "localhost_name = [108, 111, 99, 97, 108, 104, 111, 115, 116]"

definition localhost_ip :: "u8 list" where
  "localhost_ip = [49, 50, 55, 46, 48, 46, 48, 46, 49]"

text \<open>The host and port at two positions of a packet.\<close>

definition read_target ::
  "('os, 'tcp, 'r, 'w) env \<Rightarrow> nat \<Rightarrow> nat \<Rightarrow> u8 list \<Rightarrow> (u8 list \<times> u16) res" where
  "read_target env host_at port_at bs =
     and_then (slice_from host_at bs) (\<lambda>reader.
     and_then (read_fix reader) (\<lambda>(host, _).
       let host = (if host = localhost_name then localhost_ip else host) in
     and_then (slice_from port_at bs) (\<lambda>reader.
     and_then (en_read_u16 (env_endio env) reader) (\<lambda>(port, _). Ok (host, port)))))"

definition write_target ::
  "('os, 'tcp, 'r, 'w) env \<Rightarrow> nat \<Rightarrow> nat \<Rightarrow> u16 \<Rightarrow> u8 list \<Rightarrow> u8 list res" where
  "write_target env host_at port_at port bs =
     and_then (slice_from host_at bs) (\<lambda>_.
       case write_fix slice_write localhost_ip (bs, host_at) of (r, bs, _) \<Rightarrow>
     and_then r (\<lambda>_.
     and_then (slice_from port_at bs) (\<lambda>_.
       case write_all slice_write (en_u16 (env_endio env) port) (bs, port_at) of (r, bs, _) \<Rightarrow>
     and_then r (\<lambda>_. Ok bs))))"

text \<open>Dropping a bridge drops its RakNet connection, which says goodbye to the client.\<close>

definition bridge_drop ::
  "('os, 'tcp, 'r, 'w) env \<Rightarrow> 'tcp bridge \<Rightarrow> udp_socket \<Rightarrow> udp_socket" where
  "bridge_drop env b udp = snd (connection_drop (env_checks env) (env_writer env) (raknet b, udp))"

text \<open>\<open>Drop for Shim\<close> unwraps the local address for its output; the fields are dropped in any case, the
  bridges among them.\<close>

definition shim_drop :: "('os, 'tcp, 'r, 'w) env \<Rightarrow> 'tcp shim \<Rightarrow> unit res \<times> udp_socket" where
  "shim_drop env s =
     (case local_addr env s of Ok _ \<Rightarrow> Ok () | _ \<Rightarrow> Panic,
      fold (\<lambda>(_, b). bridge_drop env b) (bridges s) (raknet_socket s))"

text \<open>\<open>shim.local_addr()?\<close> on a new shim, which an error drops.\<close>

definition listen_addr :: "('os, 'tcp, 'r, 'w) env \<Rightarrow> 'tcp shim \<Rightarrow> sock_addr res" where
  "listen_addr env s =
     (case local_addr env s of
        Err e \<Rightarrow> and_then (fst (shim_drop env s)) (\<lambda>_. Err e)
      | r \<Rightarrow> r)"

lemma listen_addr_eq: "listen_addr env s = (case local_addr env s of Ok a \<Rightarrow> Ok a | _ \<Rightarrow> Panic)"
  by (simp add: listen_addr_def shim_drop_def split: res.split)

lemma listen_addr_Ok: "listen_addr env s = Ok a \<longleftrightarrow> local_addr env s = Ok a"
  by (simp add: listen_addr_eq split: res.split)

text \<open>The address of the relay for a server: a known one, or that of a new shim.\<close>

definition find_relay ::
  "('os, 'tcp, 'r, 'w) env \<Rightarrow> (sock_addr \<times> sock_addr) list \<Rightarrow> sock_addr \<Rightarrow> 'os \<Rightarrow>
   (sock_addr \<times> 'tcp shim_command list) res \<times> 'os" where
  "find_relay env addrs connect os =
     (case map_of addrs connect of
        Some addr \<Rightarrow> (Ok (addr, []), os)
      | None \<Rightarrow>
          then_do (shim_new env (localhost 0) connect os) (\<lambda>shim os.
            (and_then (listen_addr env shim) (\<lambda>listen. Ok (listen, [NewShim connect shim])), os)))"

definition redirect ::
  "('os, 'tcp, 'r, 'w) env \<Rightarrow> (sock_addr \<times> sock_addr) list \<Rightarrow> nat \<Rightarrow> nat \<Rightarrow> u8 list \<Rightarrow> 'os \<Rightarrow>
   (u8 list \<times> 'tcp shim_command list) res \<times> 'os" where
  "redirect env addrs host_at port_at bs os =
     then_do (read_target env host_at port_at bs, os) (\<lambda>target os.
       case os_resolve env target os of (r, os) \<Rightarrow>
     then_do (unwrap_first r, os) (\<lambda>connect os.
     then_do (find_relay env addrs connect os) (\<lambda>(addr, cmds) os.
       (and_then (write_target env host_at port_at (addr_port addr) bs) (\<lambda>bs. Ok (bs, cmds)), os))))"

text \<open>\<open>data[3]\<close> and \<open>data[8]\<close> exist because the length is above 8.\<close>

definition scan_packet ::
  "('os, 'tcp, 'r, 'w) env \<Rightarrow> (sock_addr \<times> sock_addr) list \<Rightarrow> packet \<Rightarrow> 'os \<Rightarrow>
   (packet \<times> 'tcp shim_command list) res \<times> 'os" where
  "scan_packet env addrs p os =
     (let bs = data p;
          rewrite = (\<lambda>host_at port_at.
            then_do (redirect env addrs host_at port_at bs os) (\<lambda>(bs, cmds) os.
              (Ok (p\<lparr>data := bs\<rparr>, cmds), os)))
      in if length bs > 8 \<and> bs ! 0 = 83 \<and> bs ! 1 = 5 then
           if bs ! 3 = 0 then
             if bs ! 8 = 1 \<and> length bs > 413 then rewrite 345 411 else (Ok (p, []), os)
           else if bs ! 3 = 14 then rewrite 8 (8 + 33)
           else (Ok (p, []), os)
         else (Ok (p, []), os))"

fun scan_packets ::
  "('os, 'tcp, 'r, 'w) env \<Rightarrow> (sock_addr \<times> sock_addr) list \<Rightarrow> packet list \<Rightarrow> 'os \<Rightarrow>
   (packet list \<times> 'tcp shim_command list) res \<times> 'os" where
  "scan_packets env addrs [] os = (Ok ([], []), os)"
| "scan_packets env addrs (p # ps) os =
     then_do (scan_packet env addrs p os) (\<lambda>(p, cmds) os.
     then_do (scan_packets env addrs ps os) (\<lambda>(ps, more) os.
       (Ok (p # ps, cmds @ more), os)))"

section \<open>Relaying\<close>

text \<open>The debug output of received packets.\<close>

fun log_packets :: "packet list \<Rightarrow> unit res" where
  "log_packets [] = Ok ()"
| "log_packets (p # ps) = and_then (packet_name p) (\<lambda>_. log_packets ps)"

text \<open>What the operations of a bridge work on: the receive buffer, the operating system, the shared
  RakNet socket and the bridge itself.\<close>

type_synonym ('os, 'tcp) bridge_state = "u8 list \<times> 'os \<times> udp_socket \<times> 'tcp bridge"

definition bridge_tcpudp_receive ::
  "('os, 'tcp, 'r, 'w) env \<Rightarrow> (sock_addr \<times> sock_addr) list \<Rightarrow> ('os, 'tcp) bridge_state \<Rightarrow>
   ('tcp shim_command list res \<times> ('os, 'tcp) bridge_state) option" where
  "bridge_tcpudp_receive env addrs s =
     (case s of (BUF, os, udp, b) \<Rightarrow>
       map_option (\<lambda>(r, BUF, c).
         let b = b\<lparr>tcpudp := c\<rparr> in
         then_do (r, BUF, os, udp, b) (\<lambda>packets (BUF, os, udp, b).
         then_do (log_packets packets, BUF, os, udp, b) (\<lambda>_ (BUF, os, udp, b).
           case scan_packets env addrs packets os of (r, os) \<Rightarrow>
         then_do (r, BUF, os, udp, b) (\<lambda>(packets, cmds) (BUF, os, udp, b).
           case connection_send (env_checks env) (env_writer env) packets (raknet b, udp) of
             (r, c, udp) \<Rightarrow> (map_res (\<lambda>_. cmds) r, BUF, os, udp, b\<lparr>raknet := c\<rparr>)))))
       (tu_receive (env_endio env) (env_tcp env) (BUF, tcpudp b)))"

definition bridge_raknet_receive ::
  "('os, 'tcp, 'r, 'w) env \<Rightarrow> u8 list \<Rightarrow> 'tcp bridge \<Rightarrow> (unit res \<times> 'tcp bridge) option" where
  "bridge_raknet_receive env bs b =
     map_option (\<lambda>(r, c).
       let b = b\<lparr>raknet := c\<rparr> in
       then_do (r, b) (\<lambda>packets b.
       then_do (log_packets packets, b) (\<lambda>_ b.
         case tu_send (env_endio env) (env_tcp env) packets (tcpudp b) of
           (r, c) \<Rightarrow> (r, b\<lparr>tcpudp := c\<rparr>))))
     (handle_datagram (env_reader env) bs (raknet b))"

section \<open>Rewriting\<close>

text \<open>The positions of host and port in a packet that is rewritten.\<close>

definition target_at :: "packet \<Rightarrow> (nat \<times> nat) option" where
  "target_at p =
     (let bs = data p in
      if length bs > 8 \<and> bs ! 0 = 83 \<and> bs ! 1 = 5 then
        if bs ! 3 = 0 then (if bs ! 8 = 1 \<and> length bs > 413 then Some (345, 411) else None)
        else if bs ! 3 = 14 then Some (8, 41) else None
      else None)"

lemma target_at_gap: "target_at p = Some (h, k) \<Longrightarrow> h + 33 \<le> k"
  by (auto simp: target_at_def Let_def split: if_splits)

lemma scan_packet_eq:
  "scan_packet env addrs p os =
    (case target_at p of
       None \<Rightarrow> (Ok (p, []), os)
     | Some (h, k) \<Rightarrow> then_do (redirect env addrs h k (data p) os) (\<lambda>(bs, cmds) os.
         (Ok (p\<lparr>data := bs\<rparr>, cmds), os)))"
  by (simp add: scan_packet_def target_at_def Let_def)

text \<open>The packet with the host replaced by \<open>127.0.0.1\<close> and the port by \<open>port\<close>.\<close>

definition patched :: "nat \<Rightarrow> nat \<Rightarrow> u16 \<Rightarrow> u8 list \<Rightarrow> u8 list" where
  "patched h k port bs = take h bs @ fix_bytes localhost_ip @ take (k - (h + 33)) (drop (h + 33) bs) @
     u16_le port @ drop (k + 2) bs"

lemma length_localhost_ip [simp]: "length localhost_ip = 9"
  by (simp add: localhost_ip_def)

lemma length_fix_localhost [simp]: "length (fix_bytes localhost_ip) = 33"
  by (simp add: length_fix_bytes)

lemma length_patched: "h + 33 \<le> k \<Longrightarrow> k + 2 \<le> length bs \<Longrightarrow> length (patched h k port bs) = length bs"
  by (simp add: patched_def)

lemma take_drop_between: "h + 33 \<le> k \<Longrightarrow> k \<le> length bs \<Longrightarrow> length xs = 33 \<Longrightarrow>
  take k (take h bs @ xs @ drop (h + 33) bs) = take h bs @ xs @ take (k - (h + 33)) (drop (h + 33) bs)"
  by (simp add: min_def)

lemma write_target_ok:
  assumes "endio_laws (env_endio env)" and "h + 33 \<le> k" and "k + 2 \<le> length bs"
  shows "write_target env h k port bs = Ok (patched h k port bs)"
proof -
  let ?b = "take h bs @ fix_bytes localhost_ip @ drop (h + 33) bs"
  have l: "length ?b = length bs" using assms(2,3) by simp
  have "write_fix slice_write localhost_ip (bs, h) = (Ok (), ?b, h + 33)"
    using assms(2,3) by (intro write_fix_slice) simp_all
  moreover have "write_all slice_write (u16_le port) (?b, k) =
      (Ok (), take k ?b @ u16_le port @ drop (k + 2) ?b, k + 2)"
    using write_all_slice [of k "u16_le port" ?b] l assms(3) by simp
  moreover have "take k ?b = take h bs @ fix_bytes localhost_ip @ take (k - (h + 33)) (drop (h + 33) bs)"
    using assms(2,3) by (intro take_drop_between) simp_all
  moreover have "drop (k + 2) ?b = drop (k + 2) bs" using assms(2,3) by simp
  ultimately show ?thesis
    using assms l by (simp add: write_target_def slice_from_def patched_def
        endio_laws.en_simps [OF assms(1)] del: append_assoc take_append drop_append)
qed

lemma read_target_length:
  assumes "endio_laws (env_endio env)" and "read_target env h k bs = Ok t"
  shows "k + 2 \<le> length bs"
  using assms(2) endio_laws.en_simps [OF assms(1)]
  by (auto simp: read_target_def and_then_eq_Ok slice_from_def take_bytes_read_def Let_def split: if_splits)

lemma utf8_localhost: "utf8 localhost_ip" "0 \<notin> set localhost_ip" "localhost_ip \<noteq> localhost_name"
  by (simp_all add: localhost_ip_def localhost_name_def)

lemma read_target_patched:
  assumes "endio_laws (env_endio env)" and "h + 33 \<le> k" and "k + 2 \<le> length bs"
  shows "read_target env h k (patched h k port bs) = Ok (localhost_ip, port)"
proof -
  have "drop h (patched h k port bs) = fix_bytes localhost_ip @
      take (k - (h + 33)) (drop (h + 33) bs) @ u16_le port @ drop (k + 2) bs"
    using assms(2,3) by (simp add: patched_def)
  then have r: "read_fix (drop h (patched h k port bs)) = Ok (localhost_ip,
      take (k - (h + 33)) (drop (h + 33) bs) @ u16_le port @ drop (k + 2) bs)"
    using utf8_localhost by (simp only:) (rule read_fix_bytes, simp_all)
  have "drop k (patched h k port bs) = u16_le port @ drop (k + 2) bs"
    using assms(2,3) by (simp add: patched_def min_def)
  then have "en_read_u16 (env_endio env) (drop k (patched h k port bs)) = Ok (port, drop (k + 2) bs)"
    by (simp add: endio_laws.en_simps [OF assms(1)] take_bytes_read_def)
  then show ?thesis using r utf8_localhost(3) assms(2,3) length_patched [OF assms(2,3), of port]
    by (simp add: read_target_def slice_from_def)
qed

lemma then_do_eq_Ok: "then_do m f = (Ok b, s') \<longleftrightarrow> (\<exists>a s. m = (Ok a, s) \<and> f a s = (Ok b, s'))"
  by (cases "(m, f)" rule: then_do.cases) auto

lemma redirect_ok:
  assumes "endio_laws (env_endio env)" and "h + 33 \<le> k" and "redirect env addrs h k bs os = (Ok (bs', cmds), os')"
  shows "\<exists>port. bs' = patched h k port bs \<and> k + 2 \<le> length bs"
proof -
  obtain t where t: "read_target env h k bs = Ok t"
    using assms(3) by (cases "read_target env h k bs") (auto simp: redirect_def)
  obtain r os1 where "os_resolve env t os = (r, os1)" by fastforce
  then obtain connect where "then_do (find_relay env addrs connect os1) (\<lambda>(addr, cmds) os.
      (and_then (write_target env h k (addr_port addr) bs) (\<lambda>bs. Ok (bs, cmds)), os)) =
      (Ok (bs', cmds), os')"
    using assms(3) t by (cases "unwrap_first r") (auto simp: redirect_def)
  then obtain addr :: sock_addr where "write_target env h k (addr_port addr) bs = Ok bs'"
    by (auto simp: then_do_eq_Ok and_then_eq_Ok)
  then show ?thesis using write_target_ok [OF assms(1,2)] read_target_length [OF assms(1) t] by auto
qed

text \<open>What rewriting may change of a packet.\<close>

definition rewritten :: "packet \<Rightarrow> packet \<Rightarrow> bool" where
  "rewritten p q \<longleftrightarrow> reliability q = reliability p \<and> length (data q) = length (data p) \<and>
     (case target_at p of
        None \<Rightarrow> q = p
      | Some (h, k) \<Rightarrow> \<exists>port. data q = patched h k port (data p))"

lemma scan_packet_rewritten:
  assumes "endio_laws (env_endio env)" and "scan_packet env addrs p os = (Ok (q, cmds), os')"
  shows "rewritten p q"
proof (cases "target_at p")
  case None
  then show ?thesis using assms(2) by (simp add: scan_packet_eq rewritten_def)
next
  case (Some hk)
  obtain h k where hk: "hk = (h, k)" by (cases hk)
  then obtain bs where "redirect env addrs h k (data p) os = (Ok (bs, cmds), os')" "q = p\<lparr>data := bs\<rparr>"
    using assms(2) Some by (auto simp: scan_packet_eq then_do_eq_Ok)
  moreover note g = target_at_gap [OF Some [unfolded hk]]
  ultimately obtain port where "bs = patched h k port (data p)" "k + 2 \<le> length (data p)"
    using redirect_ok [OF assms(1)] by blast
  then show ?thesis using Some hk \<open>q = p\<lparr>data := bs\<rparr>\<close> length_patched [OF g]
    by (auto simp: rewritten_def)
qed

lemma scan_packets_rewritten:
  assumes "endio_laws (env_endio env)" and "scan_packets env addrs ps os = (Ok (qs, cmds), os')"
  shows "list_all2 rewritten ps qs"
  using assms(2)
proof (induction ps arbitrary: qs cmds os)
  case (Cons p ps)
  then show ?case
    using scan_packet_rewritten [OF assms(1)]
    by (auto simp: then_do_eq_Ok)
qed simp

lemma scan_packets_plain:
  "\<forall>p\<in>set ps. target_at p = None \<Longrightarrow> scan_packets env addrs ps os = (Ok (ps, []), os)"
  by (induction ps) (simp_all add: scan_packet_eq)

lemma log_packets_ok [simp]: "log_packets ps = Ok ()"
proof (induction ps)
  case (Cons p ps)
  then show ?case using naming_total [of p] by auto
qed simp

lemma find_relay_known: "map_of addrs a = Some relay \<Longrightarrow> find_relay env addrs a os = (Ok (relay, []), os)"
  by (simp add: find_relay_def)

lemma find_relay_new:
  assumes "map_of addrs a = None" and "os_bind env (localhost 0) os = (Ok socket, os')"
    and "os_nonblocking env socket = Ok ()" and "os_local_addr env socket = Ok listen"
  shows "find_relay env addrs a os =
    (Ok (listen, [NewShim a \<lparr>connect_addr = a, raknet_socket = socket, bridges = []\<rparr>]), os')"
  using assms by (simp add: find_relay_def shim_new_def listen_addr_eq local_addr_def)

lemma find_relay_newD:
  assumes "map_of addrs a = None" and "find_relay env addrs a os = (Ok (listen, cmds), os')"
  shows "\<exists>s. cmds = [NewShim a s] \<and> connect_addr s = a \<and> bridges s = []"
  using assms by (auto simp: find_relay_def shim_new_def then_do_eq_Ok and_then_eq_Ok listen_addr_Ok)

lemma scan_packet_redirect:
  assumes "endio_laws (env_endio env)" and "target_at p = Some (h, k)"
    and "read_target env h k (data p) = Ok t" and "os_resolve env t os = (Ok (a # rest), os1)"
    and "find_relay env addrs a os1 = (Ok (relay, cmds), os2)"
  shows "scan_packet env addrs p os =
    (Ok (p\<lparr>data := patched h k (addr_port relay) (data p)\<rparr>, cmds), os2)"
  using assms write_target_ok [OF assms(1) target_at_gap [OF assms(2)] read_target_length [OF assms(1,3)]]
  by (simp add: scan_packet_eq redirect_def unwrap_first_def)

lemma scan_packet_newD:
  assumes "target_at p = Some (h, k)" and "read_target env h k (data p) = Ok t"
    and "os_resolve env t os = (Ok (a # rest), os1)" and "map_of addrs a = None"
    and "scan_packet env addrs p os = (Ok (q, cmds), os2)"
  shows "\<exists>s. cmds = [NewShim a s] \<and> connect_addr s = a \<and> bridges s = []"
proof -
  obtain relay :: sock_addr where "find_relay env addrs a os1 = (Ok (relay, cmds), os2)"
    using assms(1-3,5)
    by (auto simp: scan_packet_eq redirect_def unwrap_first_def then_do_eq_Ok and_then_eq_Ok)
  then show ?thesis by (rule find_relay_newD [OF assms(4)])
qed

section \<open>Relaying in both directions\<close>

text \<open>The calls of \<open>raknet_receive\<close> for datagrams that arrive in order.\<close>

fun bridge_raknet_datagrams ::
  "('os, 'tcp, 'r, 'w) env \<Rightarrow> u8 list list \<Rightarrow> 'tcp bridge \<Rightarrow> (unit res \<times> 'tcp bridge) option" where
  "bridge_raknet_datagrams env [] b = Some (Ok (), b)"
| "bridge_raknet_datagrams env (d # ds) b =
     (case bridge_raknet_receive env d b of
        Some (Ok _, b) \<Rightarrow> bridge_raknet_datagrams env ds b
      | r \<Rightarrow> r)"

lemma then_do_assoc: "then_do (then_do m f) g = then_do m (\<lambda>a s. then_do (f a s) g)"
  by (cases "(m, f)" rule: then_do.cases) auto

lemma tu_send_append: "tu_send E T (ps @ qs) c = then_do (tu_send E T ps c) (\<lambda>_. tu_send E T qs)"
proof (induction ps arbitrary: c)
  case (Cons p ps)
  then have "tu_send E T (ps @ qs) = (\<lambda>c. then_do (tu_send E T ps c) (\<lambda>_. tu_send E T qs))" by blast
  then show ?case by (simp add: then_do_assoc)
qed simp

lemma bridge_raknet_datagrams_relay:
  assumes "handle_datagrams (env_reader env) ds (raknet b) = Some (Ok ps, rc)"
    and "tu_send (env_endio env) (env_tcp env) ps (tcpudp b) = (Ok (), tc)"
  shows "bridge_raknet_datagrams env ds b = Some (Ok (), b\<lparr>raknet := rc, tcpudp := tc\<rparr>)"
  using assms
proof (induction ds arbitrary: b ps)
  case (Cons d ds)
  obtain ps1 c1 where 1: "handle_datagram (env_reader env) d (raknet b) = Some (Ok ps1, c1)"
    using Cons.prems(1) by (auto split: option.splits prod.splits res.splits)
  then obtain ps2 where 2: "handle_datagrams (env_reader env) ds c1 = Some (Ok ps2, rc)" "ps = ps1 @ ps2"
    using Cons.prems(1) by (auto split: option.splits prod.splits res.splits)
  obtain t1 where 3: "tu_send (env_endio env) (env_tcp env) ps1 (tcpudp b) = (Ok (), t1)"
    "tu_send (env_endio env) (env_tcp env) ps2 t1 = (Ok (), tc)"
    using Cons.prems(2) 2(2) by (auto simp: tu_send_append then_do_eq_Ok)
  have "bridge_raknet_receive env d b = Some (Ok (), b\<lparr>raknet := c1, tcpudp := t1\<rparr>)"
    using 1 3(1) by (simp add: bridge_raknet_receive_def)
  then show ?case using Cons.IH [of "b\<lparr>raknet := c1, tcpudp := t1\<rparr>" ps2] 2(1) 3(2) by simp
qed simp

lemma bridge_tcpudp_receive_plain:
  assumes "tu_receive (env_endio env) (env_tcp env) (BUF, tcpudp b) = Some (Ok ps, BUF', c)"
    and "\<forall>p\<in>set ps. target_at p = None"
    and "connection_send (env_checks env) (env_writer env) ps (raknet b, udp) = (r, rc, udp')"
  shows "bridge_tcpudp_receive env addrs (BUF, os, udp, b) =
    Some (map_res (\<lambda>_. []) r, BUF', os, udp', b\<lparr>tcpudp := c, raknet := rc\<rparr>)"
  using assms by (simp add: bridge_tcpudp_receive_def scan_packets_plain)

lemma bridge_relays_client:
  assumes "codec_laws (env_reader env) rbits W wbits" and "endio_laws (env_endio env)"
    and "tcp_full (env_tcp env) unread sent full" and "full (tu_tcp (tcpudp b))"
    and "udp_reliable (tu_udp (tcpudp b))" and "udp_reliable udp"
    and "\<not> conn_closed client" and "synced (conn_send client) (conn_recv (raknet b))"
    and "\<forall>p\<in>set ps. \<not> is_disconnect (data p) \<and> length (data p) \<le> 255 * 1178"
    and "length (ranges (conn_acks client)) < 2 ^ 16" and "ps \<noteq> []"
  shows "\<exists>ds client' b'. connection_send checks W ps (client, udp) = (Ok (), client', udp\<lparr>udp_sent :=
        udp_sent udp @ map (Pair (sp_address (conn_send client'))) ds\<rparr>) \<and>
      bridge_raknet_datagrams env ds b = Some (Ok (), b') \<and>
      sent (tu_tcp (tcpudp b')) = sent (tu_tcp (tcpudp b)) @ tcp_wire ps \<and>
      udp_sent (tu_udp (tcpudp b')) = udp_sent (tu_udp (tcpudp b)) @
        map (Pair (tu_peer (tcpudp b))) (udp_wire (seq_num_send (tcpudp b)) ps) \<and>
      synced (conn_send client') (conn_recv (raknet b'))"
proof -
  obtain ds client' rc where c: "connection_send checks W ps (client, udp) = (Ok (), client', udp\<lparr>udp_sent :=
        udp_sent udp @ map (Pair (sp_address (conn_send client'))) ds\<rparr>)"
    "handle_datagrams (env_reader env) ds (raknet b) = Some (Ok ps, rc)"
    "synced (conn_send client') (conn_recv rc)"
    using connection_delivers [OF assms(1,6-11)] by blast
  obtain t where t: "sent t = sent (tu_tcp (tcpudp b)) @ tcp_wire ps"
    "tu_send (env_endio env) (env_tcp env) ps (tcpudp b) = (Ok (), (tcpudp b)\<lparr>tu_tcp := t,
      seq_num_send := seq_after (seq_num_send (tcpudp b)) ps,
      tu_udp := (tu_udp (tcpudp b))\<lparr>udp_sent := udp_sent (tu_udp (tcpudp b)) @
        map (Pair (tu_peer (tcpudp b))) (udp_wire (seq_num_send (tcpudp b)) ps)\<rparr>\<rparr>)" (is "_ = (Ok (), ?tc)")
    using tcp_full.tu_send_wire [OF assms(3,2,4,5)] by blast
  have "bridge_raknet_datagrams env ds b = Some (Ok (), b\<lparr>raknet := rc, tcpudp := ?tc\<rparr>)"
    by (rule bridge_raknet_datagrams_relay [OF c(2) t(2)])
  then show ?thesis using c(1,3) t(1)
    by (intro exI [of _ ds] exI [of _ client'] exI [of _ "b\<lparr>raknet := rc, tcpudp := ?tc\<rparr>"]) simp
qed

text \<open>A redirect packet from the server that is shorter than its host field.\<close>

definition short_redirect :: "packet \<Rightarrow> bool" where
  "short_redirect p \<longleftrightarrow> 8 < length (data p) \<and> length (data p) < 41 \<and>
     data p ! 0 = 83 \<and> data p ! 1 = 5 \<and> data p ! 3 = 14"

lemma scan_short_redirect: "short_redirect p \<Longrightarrow> scan_packet env addrs p os = (Panic, os)"
proof -
  assume p: "short_redirect p"
  then have "length (data p) - 8 < 33" unfolding short_redirect_def by linarith
  then have "read_target env 8 41 (data p) = Panic"
    using p by (simp add: short_redirect_def read_target_def slice_from_def read_fix_def)
  moreover have "target_at p = Some (8, 41)" using p by (simp add: short_redirect_def target_at_def)
  ultimately show ?thesis by (simp add: scan_packet_eq redirect_def)
qed

lemma scan_packets_short_redirect:
  "\<forall>q\<in>set ps. target_at q = None \<Longrightarrow> short_redirect p \<Longrightarrow>
   scan_packets env addrs (ps @ p # qs) os = (Panic, os)"
proof (induction ps)
  case Nil
  then show ?case by (simp add: scan_short_redirect)
next
  case (Cons q ps)
  then have "scan_packet env addrs q os = (Ok (q, []), os)" by (simp add: scan_packet_eq)
  then show ?case using Cons by simp
qed

section \<open>Properties\<close>

text \<open>C1: the packets a client gives to its RakNet connection reach the server side of the bridge: after
  the bridge has handled the client's datagrams in order, the reliable packets are on the TCP
  stream, framed and in order, and the unreliable ones have been sent as datagrams, in order.\<close>

theorem client_packets_relayed:
  assumes "codec_laws (env_reader env) rbits W wbits" and "endio_laws (env_endio env)"
    and "tcp_full (env_tcp env) unread sent full" and "full (tu_tcp (tcpudp b))"
    and "udp_reliable (tu_udp (tcpudp b))" and "udp_reliable udp"
    and "\<not> conn_closed client" and "synced (conn_send client) (conn_recv (raknet b))"
    and "\<forall>p\<in>set ps. \<not> is_disconnect (data p) \<and> length (data p) \<le> 255 * 1178"
    and "length (ranges (conn_acks client)) < 2 ^ 16" and "ps \<noteq> []"
  shows "\<exists>ds client' b'. connection_send checks W ps (client, udp) = (Ok (), client', udp\<lparr>udp_sent :=
        udp_sent udp @ map (Pair (sp_address (conn_send client'))) ds\<rparr>) \<and>
      bridge_raknet_datagrams env ds b = Some (Ok (), b') \<and>
      sent (tu_tcp (tcpudp b')) = sent (tu_tcp (tcpudp b)) @ tcp_wire ps \<and>
      udp_sent (tu_udp (tcpudp b')) = udp_sent (tu_udp (tcpudp b)) @
        map (Pair (tu_peer (tcpudp b))) (udp_wire (seq_num_send (tcpudp b)) ps) \<and>
      synced (conn_send client') (conn_recv (raknet b'))"
  by (rule bridge_relays_client [OF assms])

text \<open>C2: packets that arrive on the server side and carry no address to rewrite reach the client: the
  bridge sends them through its RakNet connection, and a client that handles those datagrams gets
  the same packets in the same order.\<close>

theorem server_packets_relayed:
  assumes "codec_laws R rbits (env_writer env) wbits"
    and "tu_receive (env_endio env) (env_tcp env) (BUF, tcpudp b) = Some (Ok ps, BUF', c)"
    and "\<forall>p\<in>set ps. target_at p = None" and "udp_reliable udp"
    and "\<not> conn_closed (raknet b)" and "synced (conn_send (raknet b)) (conn_recv client)"
    and "\<forall>p\<in>set ps. \<not> is_disconnect (data p) \<and> length (data p) \<le> 255 * 1178"
    and "length (ranges (conn_acks (raknet b))) < 2 ^ 16" and "ps \<noteq> []"
  shows "\<exists>ds b' client'. bridge_tcpudp_receive env addrs (BUF, os, udp, b) =
      Some (Ok [], BUF', os, udp\<lparr>udp_sent := udp_sent udp @
        map (Pair (sp_address (conn_send (raknet b')))) ds\<rparr>, b') \<and>
      handle_datagrams R ds client = Some (Ok ps, client') \<and>
      synced (conn_send (raknet b')) (conn_recv client') \<and> conn_acks (raknet b') = rl_new"
proof -
  obtain ds rc client' where s: "connection_send (env_checks env) (env_writer env) ps (raknet b, udp) =
      (Ok (), rc, udp\<lparr>udp_sent := udp_sent udp @ map (Pair (sp_address (conn_send rc))) ds\<rparr>)"
    "handle_datagrams R ds client = Some (Ok ps, client')" "synced (conn_send rc) (conn_recv client')"
    "conn_acks rc = rl_new"
    using connection_delivers [OF assms(1,4-9)] by blast
  show ?thesis using bridge_tcpudp_receive_plain [OF assms(2,3) s(1), of addrs os] s(2-4)
    by (intro exI [of _ ds] exI [of _ "b\<lparr>tcpudp := c, raknet := rc\<rparr>"] exI [of _ client']) simp
qed

text \<open>C22: rewriting keeps the number, order, reliability and length of the packets; a packet that is not
  a login response or a redirect is not changed, and in one that is only the 33 bytes of the host,
  now \<open>127.0.0.1\<close>, and the two bytes of the port are.\<close>

theorem scan_changes_addresses_only:
  assumes "endio_laws (env_endio env)" and "scan_packets env addrs ps os = (Ok (qs, cmds), os')"
  shows "list_all2 rewritten ps qs"
  by (rule scan_packets_rewritten [OF assms])

text \<open>An environment in which every name resolves to one address, every socket operation works, and the
  state of the operating system counts the sockets bound.\<close>

definition sample_env :: "(nat, script_tcp, bool list, bool list) env" where
  "sample_env = \<lparr>env_checks = True, env_reader = bits_reader, env_writer = bits_writer,
     env_endio = le_endio, env_tcp = script_tcp,
     os_resolve = (\<lambda>(host, port) n. (Ok [\<lparr>addr_ip = IPv4 10 0 0 1, addr_port = port\<rparr>], n)),
     os_bind = (\<lambda>a n. (Ok (udp_idle\<lparr>udp_local := if addr_port a = 0 then a\<lparr>addr_port := 2000\<rparr> else a\<rparr>), n + 1)),
     os_local_addr = (\<lambda>u. Ok (udp_local u)),
     os_nonblocking = (\<lambda>u. Ok ()), os_clone = (\<lambda>u. Ok ()), os_udp_connect = (\<lambda>a u. Ok ()),
     os_tcp_connect = (\<lambda>a n. Some (Ok \<lparr>st_reads = [], st_writes = [], st_sent = []\<rparr>, n)),
     os_tcp_local_addr = (\<lambda>t. Ok (localhost 3000)), os_tcp_nonblocking = (\<lambda>t. Ok ())\<rparr>"

lemma sample_bind_free:
  "os_bind sample_env (localhost 0) n = (Ok udp_idle, n + 1)" "os_local_addr sample_env udp_idle = Ok (localhost 2000)"
  by (simp_all add: sample_env_def localhost_def udp_idle_def)

interpretation sample: os_laws sample_env
  by unfold_locales (auto simp: sample_env_def)

definition sample_bridge :: "script_tcp bridge" where
  "sample_bridge = bridge_new (connection_new (localhost 5)) tu_sample"

text \<open>A redirect packet to the host \<open>a.b\<close>, port 21836.\<close>

definition sample_redirect :: packet where
  "sample_redirect = mk_packet ReliableOrdered
     ([83, 5, 0, 14, 0, 0, 0, 0] @ fix_bytes [97, 46, 98] @ u16_le 21836)"

lemma sample_redirect_target:
  "target_at sample_redirect = Some (8, 41)"
  "read_target sample_env 8 41 (data sample_redirect) = Ok ([97, 46, 98], 21836)"
proof -
  show "target_at sample_redirect = Some (8, 41)"
    by (simp add: target_at_def sample_redirect_def fix_bytes_def)
  have "read_fix (fix_bytes [97, 46, 98] @ u16_le 21836) = Ok ([97, 46, 98], u16_le 21836)"
    by (rule read_fix_bytes) simp_all
  moreover have "drop 41 (data sample_redirect) = u16_le 21836"
    by (simp add: sample_redirect_def length_fix_bytes)
  ultimately show "read_target sample_env 8 41 (data sample_redirect) = Ok ([97, 46, 98], 21836)"
    by (simp add: read_target_def slice_from_def sample_redirect_def length_fix_bytes localhost_name_def
        sample_env_def le_endio_def take_bytes_read_def)
qed

lemma sample_scan:
  "scan_packet sample_env [] sample_redirect n =
    (Ok (sample_redirect\<lparr>data := patched 8 41 2000 (data sample_redirect)\<rparr>,
      [NewShim \<lparr>addr_ip = IPv4 10 0 0 1, addr_port = 21836\<rparr>
        \<lparr>connect_addr = \<lparr>addr_ip = IPv4 10 0 0 1, addr_port = 21836\<rparr>, raknet_socket = udp_idle, bridges = []\<rparr>]), n + 1)"
proof -
  let ?a = "\<lparr>addr_ip = IPv4 10 0 0 1, addr_port = 21836\<rparr>"
  have "os_nonblocking sample_env udp_idle = Ok ()" by (simp add: sample_env_def)
  from find_relay_new [OF _ sample_bind_free(1) this sample_bind_free(2), of "[]" ?a n]
  have f: "find_relay sample_env [] ?a n =
      (Ok (localhost 2000, [NewShim ?a \<lparr>connect_addr = ?a, raknet_socket = udp_idle, bridges = []\<rparr>]), n + 1)"
    by simp
  have "os_resolve sample_env ([97, 46, 98], 21836) n = (Ok [?a], n)" "endio_laws (env_endio sample_env)"
    by (simp_all add: sample_env_def le_endio_laws)
  from scan_packet_redirect [OF this(2) sample_redirect_target this(1) f] show ?thesis
    by (simp add: localhost_def)
qed

theorem client_packets_relayed_witness:
  "\<exists>ds client' b'. connection_send True bits_writer
      [mk_packet Reliable [7], mk_packet UnreliableSequenced [8]] (connection_new (localhost 4), udp_idle) =
      (Ok (), client', udp_idle\<lparr>udp_sent := map (Pair (sp_address (conn_send client'))) ds\<rparr>) \<and>
    bridge_raknet_datagrams sample_env ds sample_bridge = Some (Ok (), b') \<and>
    st_sent (tu_tcp (tcpudp b')) = [1, 0, 0, 0, 7] \<and>
    udp_sent (tu_udp (tcpudp b')) = [(localhost 21836, [1, 0, 0, 0, 0, 8])]"
proof -
  have "codec_laws (env_reader sample_env) id bits_writer id" by (simp add: sample_env_def bits_codec)
  moreover have "tcp_full (env_tcp sample_env) st_unread st_sent (\<lambda>t. st_writes t = [])"
    by (simp add: sample_env_def script_full)
  moreover have "endio_laws (env_endio sample_env)" by (simp add: sample_env_def le_endio_laws)
  moreover have "synced (conn_send (connection_new (localhost 4))) (conn_recv (raknet sample_bridge))"
    by (simp add: sample_bridge_def bridge_new_def connection_new_def synced_new)
  ultimately show ?thesis
    using client_packets_relayed [of sample_env id bits_writer id st_unread st_sent "\<lambda>t. st_writes t = []"
        sample_bridge udp_idle "connection_new (localhost 4)"
        "[mk_packet Reliable [7], mk_packet UnreliableSequenced [8]]" True]
    by (fastforce simp: sample_bridge_def bridge_new_def tu_sample_def tu_new_def udp_idle_def
        udp_reliable_def connection_new_def rl_new_def tcp_wire_def is_stream_def frame_def u32_le_def)
qed

theorem server_packets_relayed_witness:
  "\<exists>ds b' client' BUF'. bridge_tcpudp_receive sample_env [] (replicate 1200 0, 0, udp_idle,
        sample_bridge\<lparr>tcpudp := tu_peer_sample\<rparr>) =
      Some (Ok [], BUF', 0, udp_idle\<lparr>udp_sent := map (Pair (sp_address (conn_send (raknet b')))) ds\<rparr>, b') \<and>
    handle_datagrams bits_reader ds (connection_new (localhost 4)) =
      Some (Ok [mk_packet ReliableOrdered [7, 8], mk_packet ReliableOrdered [],
        mk_packet UnreliableSequenced [9], mk_packet Unreliable [1]], client')"
proof -
  let ?ps = "[mk_packet ReliableOrdered [7, 8], mk_packet ReliableOrdered [],
        mk_packet UnreliableSequenced [9], mk_packet Unreliable [1]]"
  obtain BUF' c where r: "tu_receive le_endio script_tcp (replicate 1200 0, tu_peer_sample) = Some (Ok ?ps, BUF', c)"
    using tu_peer_sample_receive by blast
  have "\<exists>ds b' client'. bridge_tcpudp_receive sample_env [] (replicate 1200 0, 0, udp_idle,
        sample_bridge\<lparr>tcpudp := tu_peer_sample\<rparr>) =
      Some (Ok [], BUF', 0, udp_idle\<lparr>udp_sent := udp_sent udp_idle @
        map (Pair (sp_address (conn_send (raknet b')))) ds\<rparr>, b') \<and>
      handle_datagrams bits_reader ds (connection_new (localhost 4)) = Some (Ok ?ps, client') \<and>
      synced (conn_send (raknet b')) (conn_recv client') \<and> conn_acks (raknet b') = rl_new"
    by (rule server_packets_relayed [where rbits = id and wbits = id and c = c])
      (simp_all add: sample_env_def bits_codec r target_at_def udp_idle_def udp_reliable_def sample_bridge_def
        bridge_new_def connection_new_def synced_new rl_new_def)
  then show ?thesis by (auto simp: udp_idle_def)
qed

theorem scan_changes_addresses_only_witness:
  "list_all2 rewritten [mk_packet Reliable [83, 5], sample_redirect]
    [mk_packet Reliable [83, 5], sample_redirect\<lparr>data := patched 8 41 2000 (data sample_redirect)\<rparr>]"
proof -
  have "scan_packets sample_env [] [mk_packet Reliable [83, 5], sample_redirect] 0 =
      (Ok ([mk_packet Reliable [83, 5], sample_redirect\<lparr>data := patched 8 41 2000 (data sample_redirect)\<rparr>],
        [NewShim \<lparr>addr_ip = IPv4 10 0 0 1, addr_port = 21836\<rparr>
          \<lparr>connect_addr = \<lparr>addr_ip = IPv4 10 0 0 1, addr_port = 21836\<rparr>, raknet_socket = udp_idle, bridges = []\<rparr>]), 1)"
    by (simp add: scan_packet_eq [of _ _ "mk_packet Reliable [83, 5]"] target_at_def sample_scan)
  from scan_changes_addresses_only [OF _ this] show ?thesis by (simp add: sample_env_def le_endio_laws)
qed

text \<open>C21: a login response or redirect whose host resolves gets the address of the relay for the first
  resolved address: that of the known shim, or of a new one, bound to a free local port, which is
  then the one command that is returned. A second scan of the rewritten packet reads
  \<open>127.0.0.1\<close> and the relay's port.\<close>

theorem redirects_point_to_relay:
  assumes "endio_laws (env_endio env)" and "target_at p = Some (h, k)"
    and "read_target env h k (data p) = Ok t" and "os_resolve env t os = (Ok (a # rest), os1)"
  shows "(\<forall>relay. map_of addrs a = Some relay \<longrightarrow> scan_packet env addrs p os =
        (Ok (p\<lparr>data := patched h k (addr_port relay) (data p)\<rparr>, []), os1)) \<and>
    (\<forall>socket listen os2. map_of addrs a = None \<and> os_bind env (localhost 0) os1 = (Ok socket, os2) \<and>
        os_nonblocking env socket = Ok () \<and> os_local_addr env socket = Ok listen \<longrightarrow>
      scan_packet env addrs p os = (Ok (p\<lparr>data := patched h k (addr_port listen) (data p)\<rparr>,
        [NewShim a \<lparr>connect_addr = a, raknet_socket = socket, bridges = []\<rparr>]), os2)) \<and>
    (\<forall>port. read_target env h k (patched h k port (data p)) = Ok (localhost_ip, port))"
proof (intro conjI allI impI)
  fix relay assume "map_of addrs a = Some relay"
  then show "scan_packet env addrs p os = (Ok (p\<lparr>data := patched h k (addr_port relay) (data p)\<rparr>, []), os1)"
    by (rule scan_packet_redirect [OF assms find_relay_known])
next
  fix socket listen os2
  assume "map_of addrs a = None \<and> os_bind env (localhost 0) os1 = (Ok socket, os2) \<and>
      os_nonblocking env socket = Ok () \<and> os_local_addr env socket = Ok listen"
  then show "scan_packet env addrs p os = (Ok (p\<lparr>data := patched h k (addr_port listen) (data p)\<rparr>,
      [NewShim a \<lparr>connect_addr = a, raknet_socket = socket, bridges = []\<rparr>]), os2)"
    by (intro scan_packet_redirect [OF assms] find_relay_new) simp_all
next
  fix port show "read_target env h k (patched h k port (data p)) = Ok (localhost_ip, port)"
    by (rule read_target_patched [OF assms(1) target_at_gap [OF assms(2)] read_target_length [OF assms(1,3)]])
qed

theorem redirects_point_to_relay_witness:
  "scan_packet sample_env [(\<lparr>addr_ip = IPv4 10 0 0 1, addr_port = 21836\<rparr>, localhost 1001)] sample_redirect 0 =
    (Ok (sample_redirect\<lparr>data := patched 8 41 (addr_port (localhost 1001)) (data sample_redirect)\<rparr>, []), 0)"
  by (rule redirects_point_to_relay [OF _ sample_redirect_target, THEN conjunct1, rule_format,
      where a = "\<lparr>addr_ip = IPv4 10 0 0 1, addr_port = 21836\<rparr>" and rest = "[]"])
    (simp_all add: sample_env_def le_endio_laws)

text \<open>C37: the map of relays does not change while packets are scanned, so two packets of one batch that
  name the same server, for which there is no relay yet, start two shims for it.\<close>

theorem relay_started_twice:
  assumes "target_at p = Some (h, k)" and "read_target env h k (data p) = Ok t"
    and "target_at q = Some (i, j)" and "read_target env i j (data q) = Ok u"
    and "\<forall>os. \<exists>rest os'. os_resolve env t os = (Ok (a # rest), os')"
    and "\<forall>os. \<exists>rest os'. os_resolve env u os = (Ok (a # rest), os')"
    and "map_of addrs a = None" and "scan_packets env addrs [p, q] os = (Ok (qs, cmds), os')"
  shows "\<exists>s1 s2. cmds = [NewShim a s1, NewShim a s2] \<and> connect_addr s1 = a \<and> connect_addr s2 = a"
proof -
  obtain p' c1 os1 q' c2 where s: "scan_packet env addrs p os = (Ok (p', c1), os1)"
    "scan_packet env addrs q os1 = (Ok (q', c2), os')" "cmds = c1 @ c2"
    using assms(8) by (auto simp: then_do_eq_Ok)
  obtain rest1 o1 where r1: "os_resolve env t os = (Ok (a # rest1), o1)" using assms(5) by blast
  obtain rest2 o2 where r2: "os_resolve env u os1 = (Ok (a # rest2), o2)" using assms(6) by blast
  show ?thesis
    using scan_packet_newD [OF assms(1,2) r1 assms(7) s(1)] scan_packet_newD [OF assms(3,4) r2 assms(7) s(2)]
      s(3) by auto
qed

theorem relay_started_twice_witness:
  "\<exists>qs os' s1 s2. scan_packets sample_env [] [sample_redirect, sample_redirect] 0 =
    (Ok (qs, [NewShim \<lparr>addr_ip = IPv4 10 0 0 1, addr_port = 21836\<rparr> s1,
      NewShim \<lparr>addr_ip = IPv4 10 0 0 1, addr_port = 21836\<rparr> s2]), os')"
proof -
  have s: "\<exists>q cmds os'. scan_packet sample_env [] sample_redirect n = (Ok (q, cmds), os')" for n
    by (simp add: sample_scan)
  obtain q1 c1 n1 where 1: "scan_packet sample_env [] sample_redirect 0 = (Ok (q1, c1), n1)"
    using s by blast
  obtain q2 c2 n2 where 2: "scan_packet sample_env [] sample_redirect n1 = (Ok (q2, c2), n2)"
    using s by blast
  have 3: "scan_packets sample_env [] [sample_redirect, sample_redirect] 0 = (Ok ([q1, q2], c1 @ c2), n2)"
    by (simp add: 1 2)
  have r: "\<forall>os. \<exists>rest os'. os_resolve sample_env ([97, 46, 98], 21836) os =
      (Ok (\<lparr>addr_ip = IPv4 10 0 0 1, addr_port = 21836\<rparr> # rest), os')"
    by (simp add: sample_env_def)
  show ?thesis
    using relay_started_twice [OF sample_redirect_target sample_redirect_target r r _ 3] 3 by auto
qed

end
