(* ===== verification/BridgeInv.thy ===== *)
theory BridgeInv
  imports Bridge
begin

text \<open>
  What the operations of a bridge keep and that they end: sending on the shared RakNet socket only
  adds datagrams to the bridge's own client, the connections keep their addresses, the frame buffer
  stays well formed and the receive buffer keeps its length. \<open>Shim\<close> builds the invariant of the
  program on these lemmas.
\<close>

section \<open>Sending adds datagrams to one address\<close>

definition sent_to :: "sock_addr \<Rightarrow> udp_socket \<Rightarrow> udp_socket \<Rightarrow> bool" where
  "sent_to a u u' \<longleftrightarrow> udp_inbox u' = udp_inbox u \<and> udp_local u' = udp_local u \<and>
     (udp_reliable u \<longrightarrow> udp_reliable u') \<and> (\<exists>ds. udp_sent u' = udp_sent u @ map (Pair a) ds)"

lemma sent_to_refl [simp, intro]: "sent_to a u u"
  unfolding sent_to_def by (auto intro: exI [of _ "[]"])

lemma sent_to_trans: "sent_to a u u' \<Longrightarrow> sent_to a u' u'' \<Longrightarrow> sent_to a u u''"
  by (auto simp: sent_to_def simp flip: map_append)

lemma sent_to_send: "udp_send_to bs a u = (r, u') \<Longrightarrow> sent_to a u u'"
  by (auto simp: udp_send_to_def sent_to_def udp_reliable_def split: list.splits option.splits
      intro: exI [of _ "[bs]"] exI [of _ "[]"])

lemma sent_to_datagram: "send_datagram sp bs (acks, u) = (r, acks', u') \<Longrightarrow> sent_to (sp_address sp) u u'"
  by (auto simp: send_datagram_def dest: sent_to_send split: prod.splits)

lemma sent_to_then_datagram:
  "then_do (m, acks, u) (\<lambda>w. send_datagram sp (f w)) = (r, acks', u') \<Longrightarrow> sent_to (sp_address sp) u u'"
  by (cases m) (auto dest: sent_to_datagram)

lemma sent_to_packet:
  "send_packet checks W sp t p (acks, u) = (r, acks', u') \<Longrightarrow> sent_to (sp_address sp) u u'"
  by (auto simp: send_packet_def dest: sent_to_then_datagram split: prod.splits)

lemma sent_to_acks: "send_acks W sp t (acks, u) = (r, acks', u') \<Longrightarrow> sent_to (sp_address sp) u u'"
  by (auto simp: send_acks_def dest: sent_to_then_datagram split: prod.splits if_splits)

lemma sent_to_loop:
  "send_loop checks W sp t ps (acks, u) = (r, acks', u') \<Longrightarrow> sent_to (sp_address sp) u u'"
proof (induction ps arbitrary: acks u)
  case (Cons p ps)
  obtain r1 acks1 u1 where 1: "send_packet checks W sp t p (acks, u) = (r1, acks1, u1)"
    by (cases "send_packet checks W sp t p (acks, u)") auto
  show ?case
  proof (cases r1)
    case (Ok x)
    then have "sent_to (sp_address sp) u1 u'" using Cons.IH [of acks1 u1] Cons.prems 1 by simp
    then show ?thesis using sent_to_packet [OF 1] by (rule sent_to_trans [rotated])
  qed (use Cons.prems 1 sent_to_packet [OF 1] in auto)
qed simp

text \<open>Sending to anyone.\<close>

definition sent_more :: "udp_socket \<Rightarrow> udp_socket \<Rightarrow> bool" where
  "sent_more u u' \<longleftrightarrow> (udp_reliable u \<longrightarrow> udp_reliable u') \<and> (\<exists>xs. udp_sent u' = udp_sent u @ xs)"

lemma sent_more_refl: "sent_more u u"
  by (simp add: sent_more_def)

lemma sent_more_trans: "sent_more u u' \<Longrightarrow> sent_more u' u'' \<Longrightarrow> sent_more u u''"
  by (auto simp: sent_more_def)

lemma sent_to_more: "sent_to a u u' \<Longrightarrow> sent_more u u'"
  by (auto simp: sent_to_def sent_more_def)

section \<open>Addresses stay\<close>

lemma address_next_rel_data [simp]: "sp_address (snd (next_rel_data rel sp)) = sp_address sp"
  by (cases rel) (simp_all add: next_rel_data_def)

lemma address_outgoing: "process_outgoing_packet p sp = (qs, sp') \<Longrightarrow> sp_address sp' = sp_address sp"
  using address_next_rel_data [of "reliability p" sp]
  by (cases "next_rel_data (reliability p) sp"; cases "fits p") (auto simp: outgoing_fits outgoing_split)

lemma address_outgoing_all: "process_outgoing_packets ps sp = (qs, sp') \<Longrightarrow> sp_address sp' = sp_address sp"
  by (induction ps arbitrary: sp qs) (auto dest: address_outgoing split: prod.splits)

lemma send_packets_kept:
  assumes "send_packets checks W ps t (sp, acks, u) = (r, sp', acks', u')"
  shows "sp_address sp' = sp_address sp \<and> sent_to (sp_address sp) u u'"
proof -
  obtain qs sp1 where o: "process_outgoing_packets ps sp = (qs, sp1)" by fastforce
  obtain r1 acks1 u1 where a: "(if qs = [] then send_acks W sp1 t (acks, u) else (Ok (), acks, u)) = (r1, acks1, u1)"
    by (cases "if qs = [] then send_acks W sp1 t (acks, u) else (Ok (), acks, u)") auto
  have 1: "sent_to (sp_address sp1) u u1" using a sent_to_acks by (auto split: if_splits)
  have "sp' = sp1 \<and> sent_to (sp_address sp1) u u'"
  proof (cases r1)
    case (Ok x)
    then have "sp' = sp1" "send_loop checks W sp1 t qs (acks1, u1) = (r, acks', u')"
      using assms by (auto simp: send_packets_def o a split: prod.splits)
    then show ?thesis using sent_to_loop 1 sent_to_trans by blast
  qed (use assms 1 in \<open>auto simp: send_packets_def o a\<close>)
  then show ?thesis using address_outgoing_all [OF o] by simp
qed

abbreviation client_addr :: "connection \<Rightarrow> sock_addr" where
  "client_addr c \<equiv> sp_address (conn_send c)"

lemma connection_send_kept:
  "connection_send checks W ps (c, u) = (r, c', u') \<Longrightarrow>
   client_addr c' = client_addr c \<and> sent_to (client_addr c) u u'"
  by (auto simp: connection_send_def dest: send_packets_kept split: if_splits prod.splits)

lemma bridge_drop_sent_to: "sent_to (client_addr (raknet b)) u (bridge_drop env b u)"
  using connection_send_kept
  by (cases "connection_send (env_checks env) (env_writer env)
    [mk_packet Unreliable [message_id DisconnectNotification]] (raknet b, u)")
    (fastforce simp: bridge_drop_def connection_drop_def)

lemma connection_drop_sent_to: "sent_to (client_addr c) u (snd (connection_drop checks W (c, u)))"
  using connection_send_kept [of checks W "[mk_packet Unreliable [message_id DisconnectNotification]]" c u]
  by (cases "connection_send checks W [mk_packet Unreliable [message_id DisconnectNotification]] (c, u)")
    (simp add: connection_drop_def)

lemma handle_datagram_kept: "handle_datagram R bs c = Some (r, c') \<Longrightarrow> conn_send c' = conn_send c"
  by (auto simp: handle_datagram_def Let_def split: res.splits prod.splits option.splits)

section \<open>The TcpUdp connection\<close>

lemma tu_send_packet_kept:
  "partial_packet (snd (tu_send_packet E T p c)) = partial_packet c \<and>
   tu_peer (snd (tu_send_packet E T p c)) = tu_peer c"
proof -
  have w: "partial_packet (snd (tu_tcp_write_once T bs c)) = partial_packet c"
    "tu_peer (snd (tu_tcp_write_once T bs c)) = tu_peer c" for bs c
    by (simp_all add: tu_tcp_write_once_def split: prod.split)
  obtain r c1 where 1: "tu_tcp_write_all T (en_u32 E (of_nat (length (data p)))) c = (r, c1)" by fastforce
  then have 2: "partial_packet c1 = partial_packet c" "tu_peer c1 = tu_peer c"
    by (auto simp: tu_tcp_write_all_def split: prod.splits)
  show ?thesis
    by (cases "reliability p"; cases r)
      (simp_all add: tu_send_packet_def 1 2 w tu_udp_send_def Let_def split: prod.split)
qed

lemma tu_send_kept:
  "partial_packet (snd (tu_send E T ps c)) = partial_packet c \<and> tu_peer (snd (tu_send E T ps c)) = tu_peer c"
proof (induction ps arbitrary: c)
  case (Cons p ps)
  obtain r c1 where "tu_send_packet E T p c = (r, c1)" by fastforce
  then show ?case using Cons [of c1] tu_send_packet_kept [of E T p c] by (cases r) auto
qed simp

lemma udp_recv_rest:
  "udp_inbox u = x # xs \<Longrightarrow>
   \<exists>r B. udp_recv BUF u = (r, B, u\<lparr>udp_inbox := xs\<rparr>) \<and> length B = length BUF"
  by (cases x) (auto simp: udp_recv_def udp_recv_from_def split: prod.split)

lemma receive_udp_kept:
  "receive_udp E packets (BUF, c) = (r, packets', BUF', c') \<Longrightarrow>
   partial_packet c' = partial_packet c \<and> tu_peer c' = tu_peer c \<and> length BUF' = length BUF \<and>
   tu_tcp c' = tu_tcp c \<and> seq_num_send c' = seq_num_send c \<and>
   udp_sent (tu_udp c') = udp_sent (tu_udp c) \<and> udp_script (tu_udp c') = udp_script (tu_udp c)"
proof (induction "length (udp_inbox (tu_udp c))" arbitrary: packets BUF c rule: less_induct)
  case less
  show ?case
  proof (cases "udp_inbox (tu_udp c)")
    case Nil
    then show ?thesis using less.prems by (simp add: receive_udp_end)
  next
    case (Cons x xs)
    obtain r1 B1 where 1: "udp_recv BUF (tu_udp c) = (r1, B1, (tu_udp c)\<lparr>udp_inbox := xs\<rparr>)" "length B1 = length BUF"
      using udp_recv_rest [OF Cons] by blast
    let ?c = "c\<lparr>tu_udp := (tu_udp c)\<lparr>udp_inbox := xs\<rparr>\<rparr>"
    note simps = receive_udp.simps [of E packets "(BUF, c)"]
    show ?thesis
    proof (cases "and_then r1 (\<lambda>len. udp_packet E B1 len (seq_num_recv c))")
      case (Ok y)
      obtain new n where y: "y = (new, n)" by (cases y)
      have "receive_udp E (packets @ new) (B1, ?c\<lparr>seq_num_recv := n\<rparr>) = (r, packets', BUF', c')"
        using less.prems by (simp add: simps Cons 1 Ok y)
      from less.hyps [OF _ this] show ?thesis by (simp add: Cons 1(2))
    qed (use less.prems 1(2) in \<open>auto simp: simps Cons 1(1)\<close>)
  qed
qed

lemma tu_receive_total:
  assumes "tcp_laws (env_tcp env) unread sent" and "wf_buffer (partial_packet c)"
  shows "\<exists>r BUF' c'. tu_receive (env_endio env) (env_tcp env) (BUF, c) = Some (r, BUF', c') \<and>
    wf_buffer (partial_packet c') \<and> tu_peer c' = tu_peer c \<and> length BUF' = length BUF"
proof -
  obtain e new b t where r: "receive_tcp (env_tcp env) [] (partial_packet c, tu_tcp c) = Some (Err e, new, b, t)"
    "wf_buffer b" using receive_tcp_splits [OF assms, of "[]" "tu_tcp c"] by auto
  obtain r' ps B c' where u: "receive_udp (env_endio env) new (BUF, c\<lparr>partial_packet := b, tu_tcp := t\<rparr>) =
      (r', ps, B, c')" by (cases "receive_udp (env_endio env) new (BUF, c\<lparr>partial_packet := b, tu_tcp := t\<rparr>)") auto
  show ?thesis using r(2) receive_udp_kept [OF u]
    by (cases "e = WouldBlock") (auto simp: tu_receive_def r(1) u split: res.split io_error.split)
qed

section \<open>The operations of a bridge end and keep its invariant\<close>

text \<open>A bridge between a client and a server: its connections have these addresses, and the buffer of
  the frame that is being read is well formed.\<close>

definition bridge_ok :: "sock_addr \<Rightarrow> sock_addr \<Rightarrow> 'tcp bridge \<Rightarrow> bool" where
  "bridge_ok server client b \<longleftrightarrow> wf_buffer (partial_packet (tcpudp b)) \<and>
     tu_peer (tcpudp b) = server \<and> client_addr (raknet b) = client"

lemma handle_datagram_total:
  assumes "reader_laws R rbits"
  shows "\<exists>r c'. handle_datagram R bs c = Some (r, c')"
proof (cases "handle_header R (conn_time c) (br_new R bs)")
  case (Ok x)
  obtain time rd where x: "x = (time, rd)" by (cases x)
  obtain res where p: "parse_packets R rd = Some res" using reader_laws.parse_packets_ends [OF assms] by blast
  show ?thesis
  proof (cases res)
    case (Ok ps)
    then show ?thesis using \<open>handle_header R (conn_time c) (br_new R bs) = Ok x\<close> x p
      by (cases "process_incoming_packets (conn_recv c) ps (conn_acks c) (conn_closed c)")
        (simp_all add: handle_datagram_def)
  qed (use Ok x p in \<open>simp_all add: handle_datagram_def\<close>)
qed (simp_all add: handle_datagram_def)

lemma bridge_raknet_receive_kept:
  assumes "bridge_raknet_receive env bs b = Some (r, b')" and "bridge_ok server client b"
  shows "bridge_ok server client b'"
proof -
  obtain r1 c where h: "handle_datagram (env_reader env) bs (raknet b) = Some (r1, c)"
    using assms(1) by (auto simp: bridge_raknet_receive_def)
  show ?thesis
  proof (cases r1)
    case (Ok ps)
    obtain r2 t where "tu_send (env_endio env) (env_tcp env) ps (tcpudp b) = (r2, t)" by fastforce
    then show ?thesis using assms h Ok tu_send_kept [of "env_endio env" "env_tcp env" ps "tcpudp b"]
        handle_datagram_kept [OF h] by (auto simp: bridge_raknet_receive_def bridge_ok_def)
  qed (use assms h handle_datagram_kept [OF h] in \<open>auto simp: bridge_raknet_receive_def bridge_ok_def\<close>)
qed

lemma bridge_raknet_receive_total:
  assumes "reader_laws (env_reader env) rbits"
  shows "\<exists>r b'. bridge_raknet_receive env bs b = Some (r, b')"
  using handle_datagram_total [OF assms, of bs "raknet b"] by (auto simp: bridge_raknet_receive_def)

text \<open>Every command is for a shim without bridges that relays to the address it is listed under and
  listens on a local socket.\<close>

definition fresh_command :: "('os, 'tcp, 'r, 'w) env \<Rightarrow> 'tcp shim_command \<Rightarrow> bool" where
  "fresh_command env cmd =
     (case cmd of NewShim a s \<Rightarrow> connect_addr s = a \<and> bridges s = [] \<and>
        (\<exists>os os'. os_bind env (localhost 0) os = (Ok (raknet_socket s), os')))"

lemma find_relay_fresh:
  "map_of addrs a = None \<Longrightarrow> find_relay env addrs a os = (Ok (listen, cmds), os') \<Longrightarrow>
   \<forall>cmd\<in>set cmds. fresh_command env cmd"
  by (auto simp: find_relay_def shim_new_def then_do_eq_Ok and_then_eq_Ok listen_addr_Ok fresh_command_def) blast

lemma scan_packet_commands:
  assumes "scan_packet env addrs p os = (Ok (q, cmds), os')"
  shows "\<forall>cmd\<in>set cmds. fresh_command env cmd"
proof (cases "target_at p")
  case (Some hk)
  obtain h k where hk: "hk = (h, k)" by (cases hk)
  then obtain bs where r: "redirect env addrs h k (data p) os = (Ok (bs, cmds), os')"
    using assms Some by (auto simp: scan_packet_eq then_do_eq_Ok)
  obtain t where t: "read_target env h k (data p) = Ok t"
    using r by (cases "read_target env h k (data p)") (auto simp: redirect_def)
  obtain x os1 where o: "os_resolve env t os = (x, os1)" by fastforce
  obtain a where a: "unwrap_first x = Ok a" using r t o by (cases "unwrap_first x") (auto simp: redirect_def)
  obtain relay :: sock_addr where "find_relay env addrs a os1 = (Ok (relay, cmds), os')"
    using r t o a by (auto simp: redirect_def then_do_eq_Ok and_then_eq_Ok)
  then show ?thesis using find_relay_fresh [of addrs a env os1 relay cmds os']
    by (cases "map_of addrs a") (auto simp: find_relay_known)
qed (use assms in \<open>simp add: scan_packet_eq\<close>)

text \<open>The relay that a rewritten packet points to.\<close>

lemma scan_packet_relay:
  assumes "endio_laws (env_endio env)" and "target_at p = Some (h, k)"
    and "scan_packet env addrs p os = (Ok (q, cmds), os')"
  shows "\<exists>t a rest os1 relay. read_target env h k (data p) = Ok t \<and> os_resolve env t os = (Ok (a # rest), os1) \<and>
    find_relay env addrs a os1 = (Ok (relay, cmds), os') \<and>
    read_target env h k (data q) = Ok (localhost_ip, addr_port relay)"
proof -
  obtain bs where r: "redirect env addrs h k (data p) os = (Ok (bs, cmds), os')" "q = p\<lparr>data := bs\<rparr>"
    using assms(2,3) by (auto simp: scan_packet_eq then_do_eq_Ok)
  obtain t where t: "read_target env h k (data p) = Ok t"
    using r by (cases "read_target env h k (data p)") (auto simp: redirect_def)
  obtain x os1 where o: "os_resolve env t os = (x, os1)" by fastforce
  obtain a where a: "unwrap_first x = Ok a" using r t o by (cases "unwrap_first x") (auto simp: redirect_def)
  then obtain rest where x: "x = Ok (a # rest)"
    by (auto simp: unwrap_first_def split: res.splits list.splits)
  obtain relay :: sock_addr where f: "find_relay env addrs a os1 = (Ok (relay, cmds), os')"
    "write_target env h k (addr_port relay) (data p) = Ok bs"
    using r t o a by (auto simp: redirect_def then_do_eq_Ok and_then_eq_Ok)
  note l = target_at_gap [OF assms(2)] read_target_length [OF assms(1) t]
  then have "bs = patched h k (addr_port relay) (data p)" using f(2) write_target_ok [OF assms(1) l] by simp
  then have "read_target env h k (data q) = Ok (localhost_ip, addr_port relay)"
    using read_target_patched [OF assms(1) l] r(2) by simp
  then show ?thesis using t o x f(1) by blast
qed

lemma find_relay_cases:
  assumes "find_relay env addrs a os = (Ok (relay, cmds), os')"
  obtains "map_of addrs a = Some relay" "cmds = []"
  | s where "map_of addrs a = None" "cmds = [NewShim a s]" "connect_addr s = a" "local_addr env s = Ok relay"
  using assms
  by (auto simp: find_relay_def shim_new_def then_do_eq_Ok and_then_eq_Ok listen_addr_Ok split: option.splits)

lemma scan_packets_commands:
  "scan_packets env addrs ps os = (Ok (qs, cmds), os') \<Longrightarrow> \<forall>cmd\<in>set cmds. fresh_command env cmd"
proof (induction ps arbitrary: qs cmds os)
  case (Cons p ps)
  then show ?case using scan_packet_commands by (fastforce simp: then_do_eq_Ok)
qed simp

lemma bridge_tcpudp_receive_sent_to:
  assumes "bridge_tcpudp_receive env addrs (BUF, os, u, b) = Some (r, BUF', os', u', b')"
  shows "sent_to (client_addr (raknet b)) u u' \<and> client_addr (raknet b') = client_addr (raknet b)"
proof -
  obtain r1 B1 c where t: "tu_receive (env_endio env) (env_tcp env) (BUF, tcpudp b) = Some (r1, B1, c)"
    using assms by (auto simp: bridge_tcpudp_receive_def)
  show ?thesis
  proof (cases r1)
    case (Ok ps)
    obtain r2 os1 where s: "scan_packets env addrs ps os = (r2, os1)" by fastforce
    show ?thesis
    proof (cases r2)
      case ok: (Ok y)
      obtain qs cmds where y: "y = (qs, cmds)" by (cases y)
      obtain r3 rc u3 where c: "connection_send (env_checks env) (env_writer env) qs (raknet b, u) = (r3, rc, u3)"
        by (cases "connection_send (env_checks env) (env_writer env) qs (raknet b, u)") auto
      show ?thesis using assms t Ok s ok y c connection_send_kept [OF c]
        by (auto simp: bridge_tcpudp_receive_def)
    qed (use assms t Ok s in \<open>auto simp: bridge_tcpudp_receive_def\<close>)
  qed (use assms t in \<open>auto simp: bridge_tcpudp_receive_def\<close>)
qed

text \<open>Every packet of a batch is rewritten on its own, and its commands are among those of the batch.\<close>

lemma scan_packets_each:
  "scan_packets env addrs ps os = (Ok (qs, cmds), os') \<Longrightarrow>
   list_all2 (\<lambda>p q. \<exists>os1 new os2. scan_packet env addrs p os1 = (Ok (q, new), os2) \<and> set new \<subseteq> set cmds) ps qs"
proof (induction ps arbitrary: qs cmds os)
  case (Cons p ps)
  from Cons.prems obtain q new os1 qs2 more where
    1: "scan_packet env addrs p os = (Ok (q, new), os1)" and
    2: "scan_packets env addrs ps os1 = (Ok (qs2, more), os')" "qs = q # qs2" "cmds = new @ more"
    by (auto simp: then_do_eq_Ok)
  have "list_all2 (\<lambda>p q. \<exists>os1 new os2. scan_packet env addrs p os1 = (Ok (q, new), os2) \<and> set new \<subseteq> set cmds) ps qs2"
    using Cons.IH [OF 2(1)] by (rule list_all2_mono) (use 2(3) in auto)
  then show ?case using 1 2(2,3) by auto
qed simp

text \<open>A successful call has rewritten and sent the packets it read, with the pending acknowledgements.\<close>

lemma bridge_tcpudp_receive_sends:
  assumes "bridge_tcpudp_receive env addrs (BUF, os, u, b) = Some (Ok cmds, BUF', os', u', b')"
  shows "\<exists>ps qs. tu_receive (env_endio env) (env_tcp env) (BUF, tcpudp b) = Some (Ok ps, BUF', tcpudp b') \<and>
    scan_packets env addrs ps os = (Ok (qs, cmds), os') \<and>
    connection_send (env_checks env) (env_writer env) qs (raknet b, u) = (Ok (), raknet b', u')"
proof -
  obtain r1 B1 c where t: "tu_receive (env_endio env) (env_tcp env) (BUF, tcpudp b) = Some (r1, B1, c)"
    using assms by (auto simp: bridge_tcpudp_receive_def)
  then obtain ps where ps: "r1 = Ok ps" using assms by (cases r1) (auto simp: bridge_tcpudp_receive_def)
  obtain r2 os1 where s: "scan_packets env addrs ps os = (r2, os1)" by fastforce
  then obtain qs new where q: "r2 = Ok (qs, new)" using assms t ps
    by (cases r2) (auto simp: bridge_tcpudp_receive_def)
  obtain r3 rc u3 where s3: "connection_send (env_checks env) (env_writer env) qs (raknet b, u) = (r3, rc, u3)"
    by (cases "connection_send (env_checks env) (env_writer env) qs (raknet b, u)") auto
  then have "r3 = Ok ()" "raknet b' = rc" "u' = u3" "BUF' = B1" "tcpudp b' = c" "new = cmds" "os1 = os'"
    using assms t ps s q by (cases r3; auto simp: bridge_tcpudp_receive_def)+
  then show ?thesis using s s3 t ps q by blast
qed

lemma bridge_tcpudp_receive_total:
  assumes "tcp_laws (env_tcp env) unread sent" and "bridge_ok server client b"
  shows "\<exists>r BUF' os' udp' b'. bridge_tcpudp_receive env addrs (BUF, os, udp, b) = Some (r, BUF', os', udp', b') \<and>
    bridge_ok server client b' \<and> length BUF' = length BUF \<and> sent_to client udp udp' \<and>
    (\<forall>cmds. r = Ok cmds \<longrightarrow> (\<forall>cmd\<in>set cmds. fresh_command env cmd))"
proof -
  have b: "wf_buffer (partial_packet (tcpudp b))" "tu_peer (tcpudp b) = server" "client_addr (raknet b) = client"
    using assms(2) by (auto simp: bridge_ok_def)
  obtain r B c where t: "tu_receive (env_endio env) (env_tcp env) (BUF, tcpudp b) = Some (r, B, c)"
    "wf_buffer (partial_packet c)" "tu_peer c = server" "length B = length BUF"
    using tu_receive_total [OF assms(1) b(1)] b(2) by metis
  show ?thesis
  proof (cases r)
    case (Ok ps)
    obtain r1 os1 where s: "scan_packets env addrs ps os = (r1, os1)" by fastforce
    show ?thesis
    proof (cases r1)
      case ok: (Ok y)
      obtain qs cmds where y: "y = (qs, cmds)" by (cases y)
      obtain r2 rc udp2 where c: "connection_send (env_checks env) (env_writer env) qs (raknet b, udp) = (r2, rc, udp2)"
        by (cases "connection_send (env_checks env) (env_writer env) qs (raknet b, udp)") auto
      show ?thesis using t b Ok s ok y c scan_packets_commands [of env addrs ps os qs cmds os1]
          connection_send_kept [OF c]
        by (cases r2) (auto simp: bridge_tcpudp_receive_def bridge_ok_def)
    qed (use t b Ok s in \<open>auto simp: bridge_tcpudp_receive_def bridge_ok_def\<close>)
  qed (use t b in \<open>auto simp: bridge_tcpudp_receive_def bridge_ok_def\<close>)
qed

end
