(* ===== verification/Shim.thy ===== *)
theory Shim
  imports BridgeInv "HOL-Library.Sublist"
begin

text \<open>
  \<open>Shim\<close> of \<open>src/main.rs\<close>: a shim accepts RakNet clients on its socket, keeps one bridge per client
  address and drops those that fail. The lemmas give what a datagram does to a shim, the invariant
  every operation keeps, and that a step ends.
\<close>

section \<open>Connecting\<close>

text \<open>\<open>tcpudp::Connection::new\<close>\<close>

definition tu_connect ::
  "('os, 'tcp, 'r, 'w) env \<Rightarrow> sock_addr \<Rightarrow> 'os \<Rightarrow> ('tcp tu_conn res \<times> 'os) option" where
  "tu_connect env addr os =
     map_option (\<lambda>connected.
     then_do connected (\<lambda>tcp os.
     then_do (os_tcp_local_addr env tcp, os) (\<lambda>here os.
     then_do (os_bind env here os) (\<lambda>udp os.
       (and_then (os_udp_connect env addr udp) (\<lambda>_.
        and_then (os_tcp_nonblocking env tcp) (\<lambda>_.
        and_then (os_nonblocking env udp) (\<lambda>_. Ok (tu_new tcp udp addr)))), os)))))
     (os_tcp_connect env addr os)"

text \<open>\<open>create_bridge\<close>. The RakNet connection is created first, so it is dropped, and says goodbye on the
  shared socket, when the TcpUdp connection cannot be made.\<close>

definition create_bridge ::
  "('os, 'tcp, 'r, 'w) env \<Rightarrow> sock_addr \<Rightarrow> 'tcp shim \<times> 'os \<Rightarrow> ('tcp bridge res \<times> 'tcp shim \<times> 'os) option" where
  "create_bridge env source s =
     (case s of (s, os) \<Rightarrow>
       (case os_clone env (raknet_socket s) of
          Ok _ \<Rightarrow>
            let r = connection_new source in
            (case tu_connect env (connect_addr s) os of
               None \<Rightarrow> None
             | Some (Ok t, os) \<Rightarrow> Some (Ok (bridge_new r t), s, os)
             | Some (Err e, os) \<Rightarrow>
                 Some (Err e, s\<lparr>raknet_socket := snd (connection_drop (env_checks env) (env_writer env)
                   (r, raknet_socket s))\<rparr>, os)
             | Some (Panic, os) \<Rightarrow> Some (Panic, s, os))
        | Err e \<Rightarrow> Some (Err e, s, os)
        | Panic \<Rightarrow> Some (Panic, s, os)))"

section \<open>The RakNet socket\<close>

definition shim_send_to :: "u8 list \<Rightarrow> sock_addr \<Rightarrow> 'tcp shim \<Rightarrow> unit res \<times> 'tcp shim" where
  "shim_send_to bs a s =
     (case udp_send_to bs a (raknet_socket s) of
        (r, udp) \<Rightarrow> (map_res (\<lambda>_. ()) r, s\<lparr>raknet_socket := udp\<rparr>))"

text \<open>A datagram from an address without a bridge.\<close>

definition shim_new_client ::
  "('os, 'tcp, 'r, 'w) env \<Rightarrow> u8 list \<Rightarrow> nat \<Rightarrow> sock_addr \<Rightarrow> 'tcp shim \<times> 'os \<Rightarrow>
   (unit res \<times> 'tcp shim \<times> 'os) option" where
  "shim_new_client env BUF len source s =
     (if len \<le> 2 \<and> BUF ! 0 = message_id OpenConnectionRequest then
        map_option (\<lambda>created.
          (case created of
             (Panic, s, os) \<Rightarrow> (Panic, s, os)
           | (r, s, os) \<Rightarrow>
               (case (case r of
                   Ok b \<Rightarrow> (OpenConnectionReply, s\<lparr>bridges := AList.update source b (bridges s)\<rparr>)
                 | _ \<Rightarrow> (NoFreeIncomingConnections, s)) of
                  (response, s) \<Rightarrow>
                    (case shim_send_to [message_id response, 0] source s of (r, s) \<Rightarrow> (r, s, os)))))
        (create_bridge env source s)
      else (case s of (s, os) \<Rightarrow> Some (Ok (), s, os)))"

text \<open>A datagram from an address with a bridge, which is dropped when handling it fails.\<close>

definition shim_client ::
  "('os, 'tcp, 'r, 'w) env \<Rightarrow> u8 list \<Rightarrow> sock_addr \<Rightarrow> 'tcp bridge \<Rightarrow> 'tcp shim \<Rightarrow>
   (unit res \<times> 'tcp shim) option" where
  "shim_client env bs source b s =
     (case bridge_raknet_receive env bs b of
        None \<Rightarrow> None
      | Some (Ok _, b) \<Rightarrow> Some (Ok (), s\<lparr>bridges := AList.update source b (bridges s)\<rparr>)
      | Some (Err _, b) \<Rightarrow>
          Some (Ok (), s\<lparr>bridges := AList.delete source (bridges s),
            raknet_socket := bridge_drop env b (raknet_socket s)\<rparr>)
      | Some (Panic, b) \<Rightarrow> Some (Panic, s))"

definition shim_datagram ::
  "('os, 'tcp, 'r, 'w) env \<Rightarrow> u8 list \<Rightarrow> nat \<Rightarrow> sock_addr \<Rightarrow> 'tcp shim \<times> 'os \<Rightarrow>
   (unit res \<times> 'tcp shim \<times> 'os) option" where
  "shim_datagram env BUF len source s =
     (case s of (shim, os) \<Rightarrow>
        (case map_of (bridges shim) source of
           None \<Rightarrow> shim_new_client env BUF len source s
         | Some b \<Rightarrow> map_option (\<lambda>(r, shim). (r, shim, os)) (shim_client env (take len BUF) source b shim)))"

text \<open>\<open>Shim::raknet_receive\<close>. With an arbitrary reader the loop need not end, which is \<open>None\<close>.\<close>

partial_function (option) shim_raknet_receive ::
  "('os, 'tcp, 'r, 'w) env \<Rightarrow> u8 list \<times> 'tcp shim \<times> 'os \<Rightarrow>
   (unit res \<times> u8 list \<times> 'tcp shim \<times> 'os) option" where
  "shim_raknet_receive env s =
     (case s of (BUF, shim, os) \<Rightarrow>
        (case udp_recv_from (length BUF) (raknet_socket shim) of (r, udp) \<Rightarrow>
           let shim = shim\<lparr>raknet_socket := udp\<rparr> in
           (case r of
              Err e \<Rightarrow> Some (if e = WouldBlock \<or> e = ConnectionReset then Ok () else Err e, BUF, shim, os)
            | Panic \<Rightarrow> Some (Panic, BUF, shim, os)
            | Ok (bs, source) \<Rightarrow>
                let BUF = bs @ drop (length bs) BUF in
                (case shim_datagram env BUF (length bs) source (shim, os) of
                   None \<Rightarrow> None
                 | Some (Ok _, s) \<Rightarrow> shim_raknet_receive env (BUF, s)
                 | Some (r, s) \<Rightarrow> Some (r, BUF, s)))))"

section \<open>A step of a shim\<close>

text \<open>\<open>retain\<close> with its closure: the bridges that are kept and the commands of all that succeeded.\<close>

fun retain_bridges ::
  "('os, 'tcp, 'r, 'w) env \<Rightarrow> (sock_addr \<times> sock_addr) list \<Rightarrow> (sock_addr \<times> 'tcp bridge) list \<Rightarrow>
   u8 list \<times> 'os \<times> udp_socket \<Rightarrow>
   (((sock_addr \<times> 'tcp bridge) list \<times> 'tcp shim_command list) res \<times> u8 list \<times> 'os \<times> udp_socket) option" where
  "retain_bridges env addrs [] s = Some (Ok ([], []), s)"
| "retain_bridges env addrs ((a, b) # rest) s =
     (case s of (BUF, os, udp) \<Rightarrow>
        (case bridge_tcpudp_receive env addrs (BUF, os, udp, b) of
           None \<Rightarrow> None
         | Some (Panic, BUF, os, udp, b) \<Rightarrow> Some (Panic, BUF, os, udp)
         | Some (Ok cmds, BUF, os, udp, b) \<Rightarrow>
             map_option (\<lambda>(r, s). (map_res (\<lambda>(bs, more). ((a, b) # bs, cmds @ more)) r, s))
               (retain_bridges env addrs rest (BUF, os, udp))
         | Some (Err _, BUF, os, udp, b) \<Rightarrow>
             retain_bridges env addrs rest (BUF, os, bridge_drop env b udp)))"

definition shim_step ::
  "('os, 'tcp, 'r, 'w) env \<Rightarrow> (sock_addr \<times> sock_addr) list \<Rightarrow> u8 list \<times> 'tcp shim \<times> 'os \<Rightarrow>
   ('tcp shim_command list res \<times> u8 list \<times> 'tcp shim \<times> 'os) option" where
  "shim_step env addrs s =
     (case shim_raknet_receive env s of
        None \<Rightarrow> None
      | Some (Err e, s) \<Rightarrow> Some (Err e, s)
      | Some (Panic, s) \<Rightarrow> Some (Panic, s)
      | Some (Ok _, BUF, shim, os) \<Rightarrow>
          map_option (\<lambda>(r, BUF, os, udp).
            (map_res snd r, BUF,
             shim\<lparr>raknet_socket := udp, bridges := (case r of Ok (bs, _) \<Rightarrow> bs | _ \<Rightarrow> bridges shim)\<rparr>, os))
          (retain_bridges env addrs (bridges shim) (BUF, os, raknet_socket shim)))"

section \<open>The invariant of a shim\<close>

text \<open>There is one bridge per client address, between that client and the shim's server.\<close>

definition shim_ok :: "'tcp shim \<Rightarrow> bool" where
  "shim_ok s \<longleftrightarrow> distinct (map fst (bridges s)) \<and>
     (\<forall>(a, b)\<in>set (bridges s). bridge_ok (connect_addr s) a b)"

text \<open>What an operation may not change of a shim, and what it keeps.\<close>

definition shim_kept :: "'tcp shim \<Rightarrow> 'tcp shim \<Rightarrow> bool" where
  "shim_kept s s' \<longleftrightarrow> connect_addr s' = connect_addr s \<and> (shim_ok s \<longrightarrow> shim_ok s') \<and>
     udp_inbox (raknet_socket s') = udp_inbox (raknet_socket s) \<and>
     udp_local (raknet_socket s') = udp_local (raknet_socket s) \<and>
     sent_more (raknet_socket s) (raknet_socket s')"

lemma shim_kept_refl: "shim_kept s s"
  by (simp add: shim_kept_def sent_more_refl)

lemma shim_kept_trans: "shim_kept s s' \<Longrightarrow> shim_kept s' s'' \<Longrightarrow> shim_kept s s''"
  unfolding shim_kept_def using sent_more_trans by auto

lemma set_alist_update: "(x, y) \<in> set (AList.update a b q) \<Longrightarrow> x = a \<and> y = b \<or> (x, y) \<in> set q"
  by (induction q) (auto split: if_splits)

lemma shim_ok_update:
  "shim_ok s \<Longrightarrow> bridge_ok (connect_addr s) a b \<Longrightarrow> shim_ok (s\<lparr>bridges := AList.update a b (bridges s)\<rparr>)"
  by (auto simp: shim_ok_def AList.distinct_update dest: set_alist_update)

lemma shim_ok_delete: "shim_ok s \<Longrightarrow> shim_ok (s\<lparr>bridges := AList.delete a (bridges s)\<rparr>)"
  using AList.distinct_delete [of "bridges s" a] by (auto simp: shim_ok_def AList.delete_eq)

lemma shim_ok_socket [simp]: "shim_ok (s\<lparr>raknet_socket := u\<rparr>) = shim_ok s"
  by (simp add: shim_ok_def)

lemma shim_ok_socket_bridges:
  "shim_ok (s\<lparr>bridges := bs\<rparr>) \<Longrightarrow> shim_ok (s\<lparr>bridges := bs, raknet_socket := u\<rparr>)"
  by (simp add: shim_ok_def)

lemma shim_ok_bridge: "shim_ok s \<Longrightarrow> map_of (bridges s) a = Some b \<Longrightarrow> bridge_ok (connect_addr s) a b"
  by (auto simp: shim_ok_def dest: map_of_SomeD)

lemma shim_kept_sent: "sent_to a (raknet_socket s) u \<Longrightarrow> shim_kept s (s\<lparr>raknet_socket := u\<rparr>)"
  using sent_to_more by (simp add: shim_kept_def sent_to_def)

section \<open>Every operation of a shim keeps it\<close>

lemma tu_connect_new:
  "tu_connect env a os = Some (Ok c, os') \<Longrightarrow> \<exists>tcp udp. c = tu_new tcp udp a"
  by (auto simp: tu_connect_def then_do_eq_Ok and_then_eq_Ok)

lemma bridge_ok_new: "bridge_ok server client (bridge_new (connection_new client) (tu_new tcp udp server))"
  by (simp add: bridge_ok_def bridge_new_def connection_new_def send_part_new_def tu_new_def wf_buffer_def)

lemma create_bridge_kept:
  assumes "create_bridge env source (s, os) = Some (r, s', os')"
  shows "shim_kept s s' \<and> bridges s' = bridges s \<and> (\<forall>b. r = Ok b \<longrightarrow> bridge_ok (connect_addr s) source b)"
proof (cases "os_clone env (raknet_socket s)")
  case (Ok x)
  note def = create_bridge_def
  show ?thesis
  proof (cases "tu_connect env (connect_addr s) os")
    case (Some y)
    obtain r1 os1 where y: "y = (r1, os1)" by (cases y)
    show ?thesis
    proof (cases r1)
      case ok: (Ok t)
      then obtain tcp udp where "t = tu_new tcp udp (connect_addr s)"
        using tu_connect_new [of env "connect_addr s" os t os1] Some y by blast
      then show ?thesis using assms Ok Some y ok by (auto simp: def bridge_ok_new shim_kept_refl)
    next
      case (Err e)
      let ?u = "snd (connection_drop (env_checks env) (env_writer env) (connection_new source, raknet_socket s))"
      have "sent_to (client_addr (connection_new source)) (raknet_socket s) ?u"
        by (rule connection_drop_sent_to)
      then show ?thesis using assms Ok Some y Err shim_kept_sent by (auto simp: def)
    qed (use assms Ok Some y in \<open>auto simp: def shim_kept_refl\<close>)
  qed (use assms Ok in \<open>simp add: def\<close>)
qed (use assms in \<open>auto simp: create_bridge_def shim_kept_refl\<close>)

lemma shim_send_to_kept: "shim_send_to bs a s = (r, s') \<Longrightarrow> shim_kept s s' \<and> bridges s' = bridges s"
  by (auto simp: shim_send_to_def intro!: shim_kept_sent dest: sent_to_send split: prod.splits)

lemma shim_new_client_kept:
  assumes "shim_new_client env BUF len source (s, os) = Some (r, s', os')"
  shows "shim_kept s s'"
proof (cases "len \<le> 2 \<and> BUF ! 0 = message_id OpenConnectionRequest")
  case True
  obtain r1 s1 os1 where c: "create_bridge env source (s, os) = Some (r1, s1, os1)"
    using assms True by (auto simp: shim_new_client_def)
  note k = create_bridge_kept [OF c]
  show ?thesis
  proof (cases r1)
    case (Ok b)
    let ?s = "s1\<lparr>bridges := AList.update source b (bridges s1)\<rparr>"
    have "shim_kept s ?s" using k Ok shim_ok_update [of s1 source b] by (auto simp: shim_kept_def)
    moreover have "shim_kept ?s s'" using assms True c Ok
      by (auto simp: shim_new_client_def split: prod.splits dest: shim_send_to_kept)
    ultimately show ?thesis by (rule shim_kept_trans)
  next
    case (Err e)
    then have "shim_kept s1 s'" using assms True c
      by (auto simp: shim_new_client_def split: prod.splits dest: shim_send_to_kept)
    then show ?thesis using k shim_kept_trans by blast
  next
    case Panic
    then show ?thesis using assms True c k by (auto simp: shim_new_client_def)
  qed
next
  case False
  then show ?thesis using assms by (auto simp: shim_new_client_def shim_kept_refl)
qed

lemma shim_client_kept:
  assumes "shim_client env bs source b s = Some (r, s')" and "map_of (bridges s) source = Some b"
  shows "shim_kept s s'"
proof -
  obtain r1 b1 where b: "bridge_raknet_receive env bs b = Some (r1, b1)"
    using assms(1) by (auto simp: shim_client_def split: option.splits)
  have o: "shim_ok s \<Longrightarrow> bridge_ok (connect_addr s) source b1"
    using bridge_raknet_receive_kept [OF b] shim_ok_bridge [OF _ assms(2)] by blast
  show ?thesis
  proof (cases r1)
    case (Ok x)
    then show ?thesis using assms(1) b o shim_ok_update [of s source b1]
      by (auto simp: shim_client_def shim_kept_def sent_more_refl)
  next
    case (Err e)
    then have s': "s' = s\<lparr>bridges := AList.delete source (bridges s),
        raknet_socket := bridge_drop env b1 (raknet_socket s)\<rparr>"
      using assms(1) b by (simp add: shim_client_def)
    have "sent_to (client_addr (raknet b1)) (raknet_socket s) (bridge_drop env b1 (raknet_socket s))"
      by (rule bridge_drop_sent_to)
    then show ?thesis using shim_ok_socket_bridges [OF shim_ok_delete]
      by (auto simp: s' shim_kept_def sent_to_def sent_more_def)
  next
    case Panic
    then show ?thesis using assms(1) b by (auto simp: shim_client_def shim_kept_refl)
  qed
qed

lemma shim_datagram_kept:
  assumes "shim_datagram env BUF len source (s, os) = Some (r, s', os')"
  shows "shim_kept s s'"
proof (cases "map_of (bridges s) source")
  case None
  then show ?thesis using assms shim_new_client_kept by (auto simp: shim_datagram_def)
next
  case (Some b)
  then show ?thesis using assms shim_client_kept [OF _ Some] by (auto simp: shim_datagram_def)
qed

lemma udp_recv_from_Ok:
  "udp_recv_from n u = (Ok (bs, a), u') \<Longrightarrow>
   \<exists>d rest. udp_inbox u = Ok (d, a) # rest \<and> bs = take n d \<and> u' = u\<lparr>udp_inbox := rest\<rparr>"
  by (auto simp: udp_recv_from_def split: list.splits res.splits)

lemma udp_recv_from_local: "udp_recv_from n u = (r, u') \<Longrightarrow> udp_local u' = udp_local u"
  by (auto simp: udp_recv_from_def split: list.splits res.splits)

section \<open>Every operation of a shim ends\<close>

text \<open>Every attempt to connect to a server ends.\<close>

definition connects :: "('os, 'tcp, 'r, 'w) env \<Rightarrow> bool" where
  "connects env \<longleftrightarrow> (\<forall>a os. os_tcp_connect env a os \<noteq> None)"

lemma if_map_option: "x \<noteq> None \<Longrightarrow> (if c then map_option f x else Some y) \<noteq> None"
  by simp

lemma shim_datagram_total:
  assumes "reader_laws (env_reader env) rbits" and "connects env"
  shows "\<exists>r s' os'. shim_datagram env BUF len source (s, os) = Some (r, s', os')"
proof (cases "map_of (bridges s) source")
  case None
  have "tu_connect env (connect_addr s) os \<noteq> None" using assms(2) by (simp add: tu_connect_def connects_def)
  then have "create_bridge env source (s, os) \<noteq> None"
    by (auto simp: create_bridge_def Let_def split: res.splits)
  then have "shim_new_client env BUF len source (s, os) \<noteq> None"
    unfolding shim_new_client_def prod.case by (rule if_map_option)
  then obtain y where "shim_new_client env BUF len source (s, os) = Some y" by blast
  then show ?thesis using None by (cases y) (simp add: shim_datagram_def)
next
  case (Some b)
  obtain r b' where b: "bridge_raknet_receive env (take len BUF) b = Some (r, b')"
    using bridge_raknet_receive_total [OF assms(1)] by blast
  show ?thesis using Some b by (cases r) (auto simp: shim_datagram_def shim_client_def)
qed

lemma shim_raknet_receive_total:
  assumes "reader_laws (env_reader env) rbits" and "connects env"
  shows "\<exists>r B s' os'. shim_raknet_receive env (BUF, s, os) = Some (r, B, s', os') \<and>
    connect_addr s' = connect_addr s \<and> udp_local (raknet_socket s') = udp_local (raknet_socket s) \<and>
    (shim_ok s \<longrightarrow> shim_ok s') \<and> length B = length BUF"
proof (induction "length (udp_inbox (raknet_socket s))" arbitrary: BUF s os rule: less_induct)
  case less
  obtain r u where u: "udp_recv_from (length BUF) (raknet_socket s) = (r, u)" by fastforce
  note l = udp_recv_from_local [OF u]
  note simps = shim_raknet_receive.simps [of env "(BUF, s, os)"]
  show ?case
  proof (cases r)
    case (Ok x)
    obtain bs source where x: "x = (bs, source)" by (cases x)
    let ?s = "s\<lparr>raknet_socket := u\<rparr>" and ?B = "bs @ drop (length bs) BUF"
    obtain d rest where i: "udp_inbox (raknet_socket s) = Ok (d, source) # rest" "bs = take (length BUF) d"
      "u = (raknet_socket s)\<lparr>udp_inbox := rest\<rparr>" using udp_recv_from_Ok u Ok x by metis
    then have B: "length ?B = length BUF" by simp
    obtain r1 s1 os1 where d: "shim_datagram env ?B (length bs) source (?s, os) = Some (r1, s1, os1)"
      using shim_datagram_total [OF assms] by blast
    have k: "connect_addr s1 = connect_addr s" "shim_ok s \<longrightarrow> shim_ok s1"
      "length (udp_inbox (raknet_socket s1)) < length (udp_inbox (raknet_socket s))"
      "udp_local (raknet_socket s1) = udp_local (raknet_socket s)"
      using shim_datagram_kept [OF d] i l by (auto simp: shim_kept_def)
    show ?thesis
    proof (cases r1)
      case ok: (Ok y)
      from less.hyps [OF k(3), of ?B os1] k B show ?thesis
        by (auto simp: simps u Ok x d ok)
    qed (use k B in \<open>auto simp: simps u Ok x d\<close>)
  qed (use l in \<open>auto simp: simps u\<close>)
qed

lemma subseq_distinct: "subseq xs ys \<Longrightarrow> distinct ys \<Longrightarrow> distinct xs"
proof -
  assume "subseq xs ys" "distinct ys"
  then have "distinct xs \<and> set xs \<subseteq> set ys" by (induction rule: list_emb.induct) auto
  then show ?thesis by simp
qed

lemma retain_bridges_total:
  assumes "tcp_laws (env_tcp env) unread sent" and "\<forall>(a, b)\<in>set bs. bridge_ok server a b"
  shows "\<exists>r B os' u'. retain_bridges env addrs bs (BUF, os, u) = Some (r, B, os', u') \<and>
    length B = length BUF \<and> udp_local u' = udp_local u \<and>
    (\<forall>kept cmds. r = Ok (kept, cmds) \<longrightarrow> subseq (map fst kept) (map fst bs) \<and>
      (\<forall>(a, b)\<in>set kept. bridge_ok server a b) \<and> (\<forall>cmd\<in>set cmds. fresh_command env cmd))"
  using assms(2)
proof (induction bs arbitrary: BUF os u)
  case (Cons ab bs)
  obtain a b where ab: "ab = (a, b)" by (cases ab)
  then have "bridge_ok server a b" using Cons.prems by simp
  then obtain r B os1 u1 b1 where b: "bridge_tcpudp_receive env addrs (BUF, os, u, b) = Some (r, B, os1, u1, b1)"
    "bridge_ok server a b1" "length B = length BUF" "sent_to a u u1"
    "\<forall>cmds. r = Ok cmds \<longrightarrow> (\<forall>cmd\<in>set cmds. fresh_command env cmd)"
    using bridge_tcpudp_receive_total [OF assms(1)] by blast
  have l: "udp_local u1 = udp_local u" using b(4) by (simp add: sent_to_def)
  show ?case
  proof (cases r)
    case (Ok cmds)
    obtain r2 B2 os2 u2 where 2: "retain_bridges env addrs bs (B, os1, u1) = Some (r2, B2, os2, u2)"
      "length B2 = length B" "udp_local u2 = udp_local u1"
      "\<forall>kept cmds. r2 = Ok (kept, cmds) \<longrightarrow> subseq (map fst kept) (map fst bs) \<and>
        (\<forall>(a, b)\<in>set kept. bridge_ok server a b) \<and> (\<forall>cmd\<in>set cmds. fresh_command env cmd)"
      using Cons.IH [of B os1 u1] Cons.prems by auto
    then show ?thesis using b Ok l by (cases r2) (auto simp: ab)
  next
    case (Err e)
    obtain r2 B2 os2 u2 where 2: "retain_bridges env addrs bs (B, os1, bridge_drop env b1 u1) = Some (r2, B2, os2, u2)"
      "length B2 = length B" "udp_local u2 = udp_local (bridge_drop env b1 u1)"
      "\<forall>kept cmds. r2 = Ok (kept, cmds) \<longrightarrow> subseq (map fst kept) (map fst bs) \<and>
        (\<forall>(a, b)\<in>set kept. bridge_ok server a b) \<and> (\<forall>cmd\<in>set cmds. fresh_command env cmd)"
      using Cons.IH [of B os1 "bridge_drop env b1 u1"] Cons.prems by auto
    have "udp_local (bridge_drop env b1 u1) = udp_local u1"
      using bridge_drop_sent_to [of b1 u1 env] by (simp add: sent_to_def)
    then show ?thesis using b Err 2 l by (auto simp: ab)
  next
    case Panic
    then show ?thesis using b l by (auto simp: ab)
  qed
qed simp

lemma shim_step_total:
  assumes "reader_laws (env_reader env) rbits" and "tcp_laws (env_tcp env) unread sent" and "connects env"
    and "shim_ok s"
  shows "\<exists>r B s' os'. shim_step env addrs (BUF, s, os) = Some (r, B, s', os') \<and>
    connect_addr s' = connect_addr s \<and> udp_local (raknet_socket s') = udp_local (raknet_socket s) \<and>
    shim_ok s' \<and> length B = length BUF \<and>
    (\<forall>cmds. r = Ok cmds \<longrightarrow> (\<forall>cmd\<in>set cmds. fresh_command env cmd))"
proof -
  obtain r1 B1 s1 os1 where 1: "shim_raknet_receive env (BUF, s, os) = Some (r1, B1, s1, os1)"
    "connect_addr s1 = connect_addr s" "udp_local (raknet_socket s1) = udp_local (raknet_socket s)"
    "shim_ok s1" "length B1 = length BUF"
    using shim_raknet_receive_total [OF assms(1,3)] assms(4) by blast
  obtain r2 B2 os2 u2 where 2: "retain_bridges env addrs (bridges s1) (B1, os1, raknet_socket s1) = Some (r2, B2, os2, u2)"
    "length B2 = length B1" "udp_local u2 = udp_local (raknet_socket s1)"
    "\<forall>kept cmds. r2 = Ok (kept, cmds) \<longrightarrow> subseq (map fst kept) (map fst (bridges s1)) \<and>
      (\<forall>(a, b)\<in>set kept. bridge_ok (connect_addr s1) a b) \<and> (\<forall>cmd\<in>set cmds. fresh_command env cmd)"
    using retain_bridges_total [OF assms(2), of "bridges s1" "connect_addr s1"] 1(4) unfolding shim_ok_def by metis
  show ?thesis
  proof (cases r1)
    case (Ok x)
    show ?thesis
    proof (cases r2)
      case ok: (Ok y)
      obtain kept cmds where y: "y = (kept, cmds)" by (cases y)
      have "distinct (map fst kept)"
        using 2(4) ok y 1(4) by (auto simp: shim_ok_def intro: subseq_distinct)
      then show ?thesis using 1 2 Ok ok y by (auto simp: shim_step_def shim_ok_def)
    qed (use 1 2 Ok in \<open>auto simp: shim_step_def shim_ok_def\<close>)
  qed (use 1 in \<open>auto simp: shim_step_def\<close>)
qed

section \<open>Saying goodbye to a client\<close>

lemma connection_drop_sends:
  assumes "writer_laws W wbits" and "udp_reliable u" and "\<not> conn_closed c"
  shows "snd (connection_drop checks W (c, u)) = u\<lparr>udp_sent := udp_sent u @ [(sp_address (conn_send c),
    datagram (conn_acks c) (conn_time c) \<lparr>message_number = sp_message_number (conn_send c),
      rel_data = UnreliableData, split_info = None, rak_data = [message_id DisconnectNotification]\<rparr>)]\<rparr>"
proof -
  let ?p = "mk_packet Unreliable [message_id DisconnectNotification]" and ?sp = "conn_send c"
  have "process_outgoing_packets [?p] ?sp =
      ([\<lparr>message_number = sp_message_number ?sp, rel_data = UnreliableData, split_info = None,
        rak_data = [message_id DisconnectNotification]\<rparr>], ?sp\<lparr>sp_message_number := sp_message_number ?sp + 1\<rparr>)"
    using outgoing_fits [of ?p ?sp UnreliableData ?sp] by (simp add: fits_def next_rel_data_def)
  from writer_laws.send_packets_datagrams [OF assms(1,2) this] show ?thesis
    using assms(3) by (simp add: connection_drop_def connection_send_def)
qed

lemma bridge_drop_sends:
  assumes "writer_laws (env_writer env) wbits" and "udp_reliable u" and "\<not> conn_closed (raknet b)"
  shows "bridge_drop env b u =
    u\<lparr>udp_sent := udp_sent u @ [(sp_address (conn_send (raknet b)), goodbye (raknet b))]\<rparr>"
  using connection_drop_sends [OF assms] by (simp add: bridge_drop_def goodbye_def)

text \<open>A shim that is dropped says goodbye to every client with an open connection.\<close>

lemma shim_drop_sends:
  assumes "writer_laws (env_writer env) wbits" and "udp_reliable (raknet_socket s)"
    and "\<forall>(a, b)\<in>set (bridges s). \<not> conn_closed (raknet b)"
  shows "snd (shim_drop env s) = (raknet_socket s)\<lparr>udp_sent := udp_sent (raknet_socket s) @
    map (\<lambda>(a, b). (sp_address (conn_send (raknet b)), goodbye (raknet b))) (bridges s)\<rparr>"
proof -
  have "fold (\<lambda>(_, b). bridge_drop env b) bs u = u\<lparr>udp_sent := udp_sent u @
      map (\<lambda>(a, b). (sp_address (conn_send (raknet b)), goodbye (raknet b))) bs\<rparr>"
    if "udp_reliable u" "\<forall>(a, b)\<in>set bs. \<not> conn_closed (raknet b)" for bs u
    using that
    by (induction bs arbitrary: u) (auto simp: bridge_drop_sends [OF assms(1)] udp_reliable_def)
  from this [OF assms(2,3)] show ?thesis by (simp add: shim_drop_def)
qed

section \<open>Properties\<close>

text \<open>C33: an open-connection request from an unknown address, when the server can be reached, gives that
  address a bridge with a fresh RakNet connection and is answered with an open-connection reply;
  no other bridge is touched.\<close>

theorem new_client_accepted:
  assumes "map_of (bridges s) source = None" and "len \<le> 2" and "BUF ! 0 = 9"
    and "os_clone env (raknet_socket s) = Ok ()" and "tu_connect env (connect_addr s) os = Some (Ok t, os')"
    and "udp_reliable (raknet_socket s)"
  shows "\<exists>s'. shim_datagram env BUF len source (s, os) = Some (Ok (), s', os') \<and>
    map_of (bridges s') source = Some \<lparr>raknet = connection_new source, tcpudp = t\<rparr> \<and>
    (\<forall>a. a \<noteq> source \<longrightarrow> map_of (bridges s') a = map_of (bridges s) a) \<and>
    udp_sent (raknet_socket s') = udp_sent (raknet_socket s) @ [(source, [10, 0])]"
  using assms
  by (simp add: shim_datagram_def shim_new_client_def create_bridge_def shim_send_to_def bridge_new_def
      udp_send_to_reliable AList.update_conv')

definition sample_shim :: "script_tcp shim" where
  "sample_shim = \<lparr>connect_addr = localhost 21836, raknet_socket = udp_idle, bridges = []\<rparr>"

theorem new_client_accepted_witness:
  "\<exists>s' t. shim_datagram sample_env (9 # replicate 1199 0) 1 (localhost 7) (sample_shim, 0) = Some (Ok (), s', 1) \<and>
    map_of (bridges s') (localhost 7) = Some \<lparr>raknet = connection_new (localhost 7), tcpudp = t\<rparr> \<and>
    udp_sent (raknet_socket s') = [(localhost 7, [10, 0])]"
proof -
  obtain t where "tu_connect sample_env (connect_addr sample_shim) 0 = Some (Ok t, 1)"
    by (simp add: tu_connect_def sample_env_def)
  from new_client_accepted [OF _ _ _ _ this, of "localhost 7" 1 "9 # replicate 1199 0"] show ?thesis
    by (auto simp: sample_shim_def sample_env_def udp_idle_def udp_reliable_def)
qed

text \<open>When the server cannot be reached no bridge is added; the RakNet connection that was made for the
  client is dropped again, so the client is sent a RakNet disconnect notification before the
  refusal.\<close>

theorem new_client_refused:
  assumes "writer_laws (env_writer env) wbits" and "map_of (bridges s) source = None" and "len \<le> 2"
    and "BUF ! 0 = 9" and "os_clone env (raknet_socket s) = Ok ()"
    and "tu_connect env (connect_addr s) os = Some (Err e, os')" and "udp_reliable (raknet_socket s)"
  shows "\<exists>s'. shim_datagram env BUF len source (s, os) = Some (Ok (), s', os') \<and> bridges s' = bridges s \<and>
    udp_sent (raknet_socket s') = udp_sent (raknet_socket s) @
      [(source, datagram rl_new 0 \<lparr>message_number = 0, rel_data = UnreliableData, split_info = None,
          rak_data = [message_id DisconnectNotification]\<rparr>), (source, [18, 0])]"
  using assms(2-7) connection_drop_sends [OF assms(1,7), of "connection_new source" "env_checks env"]
  by (simp add: shim_datagram_def shim_new_client_def create_bridge_def shim_send_to_def
      udp_send_to_reliable connection_new_def) (simp add: send_part_new_def)

theorem new_client_refused_witness:
  "\<exists>s'. shim_datagram (sample_env\<lparr>os_tcp_connect := (\<lambda>a n. Some (Err ConnectionRefused, n))\<rparr>)
      (9 # replicate 1199 0) 2 (localhost 7) (sample_shim, 0) = Some (Ok (), s', 0) \<and> bridges s' = [] \<and>
    last (udp_sent (raknet_socket s')) = (localhost 7, [18, 0])"
proof -
  let ?env = "sample_env\<lparr>os_tcp_connect := (\<lambda>a n. Some (Err ConnectionRefused, n))\<rparr>"
  have t: "tu_connect ?env (connect_addr sample_shim) 0 = Some (Err ConnectionRefused, 0)"
    by (simp add: tu_connect_def)
  have w: "writer_laws (env_writer ?env) id" using codec_writer [OF bits_codec] by (simp add: sample_env_def)
  show ?thesis using new_client_refused [OF w _ _ _ _ t, of "localhost 7" 2 "9 # replicate 1199 0"]
    by (auto simp: sample_shim_def sample_env_def udp_idle_def udp_reliable_def)
qed

text \<open>Any other datagram from an unknown address is ignored.\<close>

theorem unknown_sources_ignored:
  assumes "map_of (bridges s) source = None" and "2 < len \<or> BUF ! 0 \<noteq> 9"
  shows "shim_datagram env BUF len source (s, os) = Some (Ok (), s, os)"
  using assms by (auto simp: shim_datagram_def shim_new_client_def)

theorem unknown_sources_ignored_witness:
  "shim_datagram sample_env (9 # replicate 1199 0) 3 (localhost 7) (sample_shim, 0) = Some (Ok (), sample_shim, 0)"
  by (rule unknown_sources_ignored) (simp_all add: sample_shim_def)

text \<open>C32: when handling a client's datagram fails, that client's bridge is removed and the client is sent
  one datagram, a disconnect notification that every peer connection reads back without a packet to
  deliver and that closes it; the bridges of the other clients stay as they are and the shim goes
  on.\<close>

theorem failing_bridge_removed:
  assumes "codec_laws R rbits (env_writer env) wbits" and "map_of (bridges s) source = Some b"
    and "bridge_raknet_receive env (take len BUF) b = Some (Err e, b')" and "udp_reliable (raknet_socket s)"
    and "\<not> conn_closed (raknet b')" and "length (ranges (conn_acks (raknet b'))) < 2 ^ 16"
  shows "\<exists>s' d. shim_datagram env BUF len source (s, os) = Some (Ok (), s', os) \<and>
    map_of (bridges s') source = None \<and>
    (\<forall>a. a \<noteq> source \<longrightarrow> map_of (bridges s') a = map_of (bridges s) a) \<and>
    udp_sent (raknet_socket s') = udp_sent (raknet_socket s) @ [(sp_address (conn_send (raknet b')), d)] \<and>
    d = goodbye (raknet b') \<and> (\<forall>c. \<exists>c'. handle_datagram R d c = Some (Ok [], c') \<and> conn_closed c')"
  using assms(2,3) bridge_drop_sends [OF codec_writer [OF assms(1)] assms(4,5)] goodbye_closes [OF assms(1,6)]
  by (simp add: shim_datagram_def shim_client_def AList.delete_conv')

theorem failing_bridge_removed_witness:
  "\<exists>s' d. shim_datagram sample_env (replicate 1200 0) 0 (localhost 5)
      (sample_shim\<lparr>bridges := [(localhost 5, sample_bridge), (localhost 6, sample_bridge)]\<rparr>, 0) = Some (Ok (), s', 0) \<and>
    map_of (bridges s') (localhost 5) = None \<and> map_of (bridges s') (localhost 6) = Some sample_bridge \<and>
    udp_sent (raknet_socket s') = [(localhost 5, d)] \<and>
    (\<forall>c. \<exists>c'. handle_datagram bits_reader d c = Some (Ok [], c') \<and> conn_closed c')"
proof -
  let ?s = "sample_shim\<lparr>bridges := [(localhost 5, sample_bridge), (localhost 6, sample_bridge)]\<rparr>"
  have r: "bridge_raknet_receive sample_env (take 0 (replicate 1200 0)) sample_bridge =
      Some (Err UnexpectedEof, sample_bridge)"
    by (simp add: bridge_raknet_receive_def handle_datagram_def handle_header_def sample_env_def bits_reader_def
        take_read_def)
  have w: "codec_laws bits_reader id (env_writer sample_env) id" by (simp add: sample_env_def bits_codec)
  have s: "map_of (bridges ?s) (localhost 5) = Some sample_bridge" "udp_reliable (raknet_socket ?s)"
    "\<not> conn_closed (raknet sample_bridge)" "length (ranges (conn_acks (raknet sample_bridge))) < 2 ^ 16"
    "localhost 6 \<noteq> localhost 5" "map_of (bridges ?s) (localhost 6) = Some sample_bridge"
    "udp_sent (raknet_socket ?s) = []" "sp_address (conn_send (raknet sample_bridge)) = localhost 5"
    by (simp_all add: sample_shim_def sample_bridge_def bridge_new_def connection_new_def udp_idle_def
        udp_reliable_def send_part_new_def localhost_def rl_new_def)
  show ?thesis using failing_bridge_removed [OF w s(1) r s(2-4), of 0] s(5-8) by force
qed

text \<open>When the server side of a bridge fails in a step, the bridge is not kept, its client is sent a
  disconnect notification, and the step goes on with the other bridges.\<close>

theorem failing_server_removes_bridge:
  assumes "writer_laws (env_writer env) wbits" and "udp_reliable u" and "\<not> conn_closed (raknet b)"
    and "tu_receive (env_endio env) (env_tcp env) (BUF, tcpudp b) = Some (Err e, BUF', c)"
  shows "retain_bridges env addrs ((a, b) # rest) (BUF, os, u) = retain_bridges env addrs rest
    (BUF', os, u\<lparr>udp_sent := udp_sent u @ [(sp_address (conn_send (raknet b)), goodbye (raknet b))]\<rparr>)"
  using assms(4) bridge_drop_sends [OF assms(1,2), of "b\<lparr>tcpudp := c\<rparr>"] assms(3)
  by (simp add: bridge_tcpudp_receive_def)

theorem failing_server_removes_bridge_witness:
  "retain_bridges sample_env [] [(localhost 5, sample_bridge\<lparr>tcpudp := tu_sample\<lparr>tu_tcp :=
      \<lparr>st_reads = [Inl ConnectionReset], st_writes = [], st_sent = []\<rparr>\<rparr>\<rparr>)] ([], 0, udp_idle) =
    Some (Ok ([], []), [], 0, udp_idle\<lparr>udp_sent := [(localhost 5, goodbye (raknet sample_bridge))]\<rparr>)"
proof -
  let ?c = "tu_sample\<lparr>tu_tcp := \<lparr>st_reads = [Inl ConnectionReset], st_writes = [], st_sent = []\<rparr>\<rparr>"
  have "\<exists>c. tu_receive (env_endio sample_env) (env_tcp sample_env) ([], ?c) = Some (Err ConnectionReset, [], c)"
    by (simp add: tu_receive_def receive_tcp.simps tcp_step_def read_part_def script_tcp_def sample_env_def
        tu_sample_def tu_new_def)
  then obtain c where t: "tu_receive (env_endio sample_env) (env_tcp sample_env)
      ([], tcpudp (sample_bridge\<lparr>tcpudp := ?c\<rparr>)) = Some (Err ConnectionReset, [], c)" by auto
  have w: "writer_laws (env_writer sample_env) id" using codec_writer [OF bits_codec] by (simp add: sample_env_def)
  show ?thesis using failing_server_removes_bridge [OF w _ _ t, of udp_idle "[]" "localhost 5" "[]" 0]
    by (auto simp: sample_bridge_def bridge_new_def connection_new_def udp_idle_def udp_reliable_def send_part_new_def)
qed

text \<open>C39: a redirect packet that is shorter than its host field, sent by one client's server, panics the
  step of the shim, and with it the program with all its other clients: the slice of the host is
  taken without looking at the length of the packet.\<close>

theorem short_redirect_panics:
  assumes "tu_receive (env_endio env) (env_tcp env) (BUF, tcpudp b) = Some (Ok (ps @ p # qs), BUF', c)"
    and "\<forall>q\<in>set ps. target_at q = None" and "short_redirect p"
    and "shim_raknet_receive env (BUF0, s0, os0) = Some (Ok (), BUF, s, os)" and "bridges s = (a, b) # rest"
  shows "\<exists>s'. shim_step env addrs (BUF0, s0, os0) = Some (Panic, BUF', s', os)"
  using assms scan_packets_short_redirect [OF assms(2,3), of env addrs qs os]
  by (simp add: shim_step_def bridge_tcpudp_receive_def)

theorem short_redirect_panics_witness:
  "\<exists>BUF' s'. shim_step sample_env [] ([], sample_shim\<lparr>bridges := [(localhost 5, sample_bridge\<lparr>tcpudp := tu_sample\<lparr>tu_tcp :=
      \<lparr>st_reads = [Inr (frame [83, 5, 0, 14, 0, 0, 0, 0, 0])], st_writes = [], st_sent = []\<rparr>\<rparr>\<rparr>)]\<rparr>, 0) =
    Some (Panic, BUF', s', 0)"
proof -
  let ?p = "mk_packet ReliableOrdered [83, 5, 0, 14, 0, 0, 0, 0, 0]"
  let ?b = "sample_bridge\<lparr>tcpudp := tu_sample\<lparr>tu_tcp :=
      \<lparr>st_reads = [Inr (frame (data ?p))], st_writes = [], st_sent = []\<rparr>\<rparr>\<rparr>"
  let ?s = "sample_shim\<lparr>bridges := [(localhost 5, ?b)]\<rparr>"
  have "\<exists>c. tu_receive (env_endio sample_env) (env_tcp sample_env) ([], tcpudp ?b) = Some (Ok ([] @ ?p # []), [], c)"
    using receive_one_frame [of "data ?p" "[]" "[]"]
    by (simp add: tu_receive_def sample_env_def tu_sample_def tu_new_def receive_udp_end)
  then obtain c where t: "tu_receive (env_endio sample_env) (env_tcp sample_env) ([], tcpudp ?b) =
      Some (Ok ([] @ ?p # []), [], c)" by blast
  have p: "\<forall>q\<in>set []. target_at q = None" "short_redirect ?p" by (simp_all add: short_redirect_def)
  have "shim_raknet_receive sample_env ([], ?s, 0) = Some (Ok (), [], ?s, 0)"
    by (simp add: shim_raknet_receive.simps udp_recv_from_def sample_shim_def udp_idle_def)
  from short_redirect_panics [OF t p this, of "localhost 5" "[]" "[]"] show ?thesis
    by (intro exI [of _ "[]"]) simp
qed

end
