(* ===== verification/Turn.thy ===== *)
theory Turn
  imports Shim
begin

text \<open>
  What one step of a shim does for one client, whatever the other clients do: the datagrams of a
  client reach its bridge in order and undisturbed, and what a kept bridge has to acknowledge is sent
  to its client in the same step.
\<close>

section \<open>The datagrams of one client\<close>

text \<open>What the loop hands to the bridge of client \<open>a\<close> of the datagrams that have arrived: those from
  \<open>a\<close>, cut to the receive buffer.\<close>

fun from_client :: "nat \<Rightarrow> sock_addr \<Rightarrow> (u8 list \<times> sock_addr) list \<Rightarrow> u8 list list" where
  "from_client n a [] = []"
| "from_client n a ((d, x) # ms) = (if x = a then take n d # from_client n a ms else from_client n a ms)"

lemma create_bridge_bridges:
  "create_bridge env source (s, os) = Some (r, s', os') \<Longrightarrow> bridges s' = bridges s"
  using create_bridge_kept [of env source s os r s' os'] by simp

lemma shim_datagram_other:
  assumes "shim_datagram env BUF len source (s, os) = Some (r, s', os')" and "a \<noteq> source"
  shows "map_of (bridges s') a = map_of (bridges s) a"
proof (cases "map_of (bridges s) source")
  case None
  then have n: "shim_new_client env BUF len source (s, os) = Some (r, s', os')"
    using assms(1) by (simp add: shim_datagram_def)
  show ?thesis
  proof (cases "len \<le> 2 \<and> BUF ! 0 = message_id OpenConnectionRequest")
    case True
    then obtain r1 s1 os1 where c: "create_bridge env source (s, os) = Some (r1, s1, os1)"
      using n by (auto simp: shim_new_client_def)
    show ?thesis using n True c create_bridge_bridges [OF c] assms(2)
      by (cases r1) (auto simp: shim_new_client_def AList.update_conv' split: prod.splits dest!: shim_send_to_kept)
  qed (use n in \<open>auto simp: shim_new_client_def\<close>)
next
  case (Some b)
  then show ?thesis using assms
    by (auto simp: shim_datagram_def shim_client_def AList.update_conv' AList.delete_conv'
        split: option.splits res.splits)
qed

lemma shim_datagram_own:
  assumes "map_of (bridges s) a = Some b" and "bridge_raknet_receive env (take len BUF) b = Some (Ok x, b')"
  shows "shim_datagram env BUF len a (s, os) = Some (Ok (), s\<lparr>bridges := AList.update a b' (bridges s)\<rparr>, os)"
  using assms by (simp add: shim_datagram_def shim_client_def)

lemma shim_receive_client:
  assumes "shim_raknet_receive env (BUF, s, os) = Some (Ok (), BUF', s', os')"
    and "udp_inbox (raknet_socket s) = map Ok ms"
    and "map_of (bridges s) a = Some b"
    and "bridge_raknet_datagrams env (from_client (length BUF) a ms) b = Some (Ok (), b')"
  shows "map_of (bridges s') a = Some b' \<and> (shim_ok s \<longrightarrow> shim_ok s') \<and>
    sent_more (raknet_socket s) (raknet_socket s')"
  using assms
proof (induction ms arbitrary: BUF s os b)
  case Nil
  then show ?case by (auto simp: shim_raknet_receive.simps [of _ "(BUF, s, os)"] udp_recv_from_def sent_more_def)
next
  case (Cons m ms)
  obtain d source where m: "m = (d, source)" by (cases m)
  let ?u = "(raknet_socket s)\<lparr>udp_inbox := map Ok ms\<rparr>" and ?bs = "take (length BUF) d"
  let ?s = "s\<lparr>raknet_socket := ?u\<rparr>" and ?B = "?bs @ drop (length ?bs) BUF"
  have u: "udp_recv_from (length BUF) (raknet_socket s) = (Ok (?bs, source), ?u)"
    using Cons.prems(2) by (simp add: udp_recv_from_def m)
  have B: "length ?B = length BUF" by simp
  have take: "take (length ?bs) ?B = ?bs" by (simp add: min_def)
  note simps = shim_raknet_receive.simps [of env "(BUF, s, os)"]
  obtain r1 s1 os1 where dg: "shim_datagram env ?B (length ?bs) source (?s, os) = Some (r1, s1, os1)"
    using Cons.prems(1) by (auto simp: simps u Let_def split: option.splits)
  then have "r1 = Ok ()" and rest: "shim_raknet_receive env (?B, s1, os1) = Some (Ok (), BUF', s', os')"
    using Cons.prems(1) by (cases r1; auto simp: simps u Let_def)+
  have i: "udp_inbox (raknet_socket s1) = map Ok ms"
    and k: "shim_ok s \<longrightarrow> shim_ok s1" "sent_more (raknet_socket s) (raknet_socket s1)"
    using shim_datagram_kept [OF dg] by (auto simp: shim_kept_def sent_more_def udp_reliable_def)
  show ?case
  proof (cases "source = a")
    case False
    then have "map_of (bridges s1) a = Some b" using shim_datagram_other [OF dg] Cons.prems(3) by simp
    then show ?thesis using Cons.IH [OF rest i] Cons.prems(4) False B m k sent_more_trans by simp
  next
    case True
    then obtain b1 where b1: "bridge_raknet_receive env ?bs b = Some (Ok (), b1)"
      "bridge_raknet_datagrams env (from_client (length BUF) a ms) b1 = Some (Ok (), b')"
      using Cons.prems(4) m by (auto split: option.splits prod.splits res.splits)
    have "map_of (bridges ?s) a = Some b" using Cons.prems(3) by simp
    from shim_datagram_own [OF this, of env "length ?bs" ?B "()" b1 os] b1(1) take
    have "s1 = ?s\<lparr>bridges := AList.update a b1 (bridges s)\<rparr>"
      using dg True by simp
    then have "map_of (bridges s1) a = Some b1" by (simp add: AList.update_conv')
    then show ?thesis using Cons.IH [OF rest i] b1(2) B k sent_more_trans by simp
  qed
qed

text \<open>Datagrams of a client that its bridge accepts are taken off the socket one by one.\<close>

lemma shim_receive_own_prefix:
  assumes "udp_inbox (raknet_socket s) = map Ok (map (\<lambda>d. (d, a)) ds @ tail)"
    and "map_of (bridges s) a = Some b" and "bridge_raknet_datagrams env ds b = Some (Ok (), b')"
    and "\<forall>d\<in>set ds. length d \<le> length BUF"
  shows "\<exists>BUF' bs'. length BUF' = length BUF \<and> map_of bs' = (map_of (bridges s))(a \<mapsto> b') \<and>
    shim_raknet_receive env (BUF, s, os) = shim_raknet_receive env (BUF',
      s\<lparr>raknet_socket := (raknet_socket s)\<lparr>udp_inbox := map Ok tail\<rparr>, bridges := bs'\<rparr>, os)"
  using assms
proof (induction ds arbitrary: BUF s b)
  case Nil
  then have "(raknet_socket s)\<lparr>udp_inbox := map Ok tail\<rparr> = raknet_socket s" "b' = b" by simp_all
  then show ?case using Nil(2) by (intro exI [of _ BUF] exI [of _ "bridges s"]) (simp add: fun_upd_idem)
next
  case (Cons d ds)
  let ?u = "(raknet_socket s)\<lparr>udp_inbox := map Ok (map (\<lambda>d. (d, a)) ds @ tail)\<rparr>"
  have u: "udp_recv_from (length BUF) (raknet_socket s) = (Ok (d, a), ?u)"
    using Cons.prems(1,4) by (simp add: udp_recv_from_def)
  obtain b1 where b1: "bridge_raknet_receive env d b = Some (Ok (), b1)"
    "bridge_raknet_datagrams env ds b1 = Some (Ok (), b')"
    using Cons.prems(3) by (auto split: option.splits prod.splits res.splits)
  let ?B = "d @ drop (length d) BUF"
  let ?s = "s\<lparr>raknet_socket := ?u, bridges := AList.update a b1 (bridges s)\<rparr>"
  have B: "length ?B = length BUF" using Cons.prems(4) by simp
  have "shim_datagram env ?B (length d) a (s\<lparr>raknet_socket := ?u\<rparr>, os) = Some (Ok (), ?s, os)"
    using shim_datagram_own [of "s\<lparr>raknet_socket := ?u\<rparr>" a b env "length d" ?B "()" b1 os] Cons.prems(2) b1(1)
    by simp
  then have 1: "shim_raknet_receive env (BUF, s, os) = shim_raknet_receive env (?B, ?s, os)"
    by (simp add: shim_raknet_receive.simps [of env "(BUF, s, os)"] u)
  have i: "udp_inbox (raknet_socket ?s) = map Ok (map (\<lambda>d. (d, a)) ds @ tail)"
    "map_of (bridges ?s) a = Some b1" "\<forall>d\<in>set ds. length d \<le> length ?B"
    using Cons.prems(4) B by (simp_all add: AList.update_conv')
  from Cons.IH [OF i(1,2) b1(2) i(3)] obtain BUF' bs' where "length BUF' = length ?B"
    "map_of bs' = (map_of (bridges ?s))(a \<mapsto> b')" "shim_raknet_receive env (?B, ?s, os) =
      shim_raknet_receive env (BUF', ?s\<lparr>raknet_socket := (raknet_socket ?s)\<lparr>udp_inbox := map Ok tail\<rparr>, bridges := bs'\<rparr>, os)"
    by blast
  then show ?case using 1 B
    by (intro exI [of _ BUF'] exI [of _ bs']) (simp add: AList.update_conv')
qed

section \<open>Bridges that are kept\<close>

lemma retain_bridges_sent_more:
  "retain_bridges env addrs bs (BUF, os, u) = Some (r, BUF', os', u') \<Longrightarrow> sent_more u u'"
proof (induction bs arbitrary: BUF os u r)
  case Nil
  then show ?case by (simp add: sent_more_refl)
next
  case (Cons ab bs)
  obtain a b where ab: "ab = (a, b)" by (cases ab)
  obtain r1 B1 os1 u1 b1 where b: "bridge_tcpudp_receive env addrs (BUF, os, u, b) = Some (r1, B1, os1, u1, b1)"
    using Cons.prems by (auto simp: ab split: option.splits)
  have 1: "sent_more u u1" using bridge_tcpudp_receive_sent_to [OF b] sent_to_more by blast
  show ?case
  proof (cases r1)
    case (Ok cmds)
    then obtain r2 where "retain_bridges env addrs bs (B1, os1, u1) = Some (r2, BUF', os', u')"
      using Cons.prems b by (auto simp: ab)
    then show ?thesis using Cons.IH 1 sent_more_trans by blast
  next
    case (Err e)
    then have "retain_bridges env addrs bs (B1, os1, bridge_drop env b1 u1) = Some (r, BUF', os', u')"
      using Cons.prems b by (simp add: ab)
    then have "sent_more (bridge_drop env b1 u1) u'" by (rule Cons.IH)
    then show ?thesis using 1 sent_to_more [OF bridge_drop_sent_to] sent_more_trans by blast
  next
    case Panic
    then show ?thesis using Cons.prems b 1 by (simp add: ab)
  qed
qed

lemma retain_bridges_one:
  assumes "retain_bridges env addrs bs (BUF, os, u) = Some (Ok (kept, cmds), BUF', os', u')"
    and "(a, b') \<in> set kept"
  obtains b B1 os1 u1 new B2 os2 u2 where "(a, b) \<in> set bs" "sent_more u u1"
    "bridge_tcpudp_receive env addrs (B1, os1, u1, b) = Some (Ok new, B2, os2, u2, b')"
    "sent_more u2 u'" "set new \<subseteq> set cmds"
  using assms
proof (induction bs arbitrary: BUF os u kept cmds thesis)
  case (Cons xb bs)
  obtain x b where xb: "xb = (x, b)" by (cases xb)
  obtain r1 B1 os1 u1 b1 where b: "bridge_tcpudp_receive env addrs (BUF, os, u, b) = Some (r1, B1, os1, u1, b1)"
    using Cons.prems(2) by (auto simp: xb split: option.splits)
  have 1: "sent_more u u1" using bridge_tcpudp_receive_sent_to [OF b] sent_to_more by blast
  show ?case
  proof (cases r1)
    case (Ok new)
    then obtain r2 where r2: "retain_bridges env addrs bs (B1, os1, u1) = Some (r2, BUF', os', u')"
      "map_res (\<lambda>(bs, more). ((x, b1) # bs, new @ more)) r2 = Ok (kept, cmds)"
      using Cons.prems(2) b by (auto simp: xb)
    then obtain k2 more where k: "r2 = Ok (k2, more)" "kept = (x, b1) # k2" "cmds = new @ more"
      by (cases r2) auto
    show ?thesis
    proof (cases "(a, b') = (x, b1)")
      case True
      then show ?thesis using b Ok k(3) retain_bridges_sent_more [OF r2(1)] sent_more_refl [of u]
        by (intro Cons.prems(1) [of b u BUF os new B1 os1 u1]) (simp_all add: xb)
    next
      case False
      then have m: "(a, b') \<in> set k2" using Cons.prems(3) k(2) by auto
      show ?thesis
      proof (rule Cons.IH [OF _ r2(1) [unfolded k(1)] m])
        fix c B3 o3 u3 w B4 o4 u4
        assume "(a, c) \<in> set bs" "sent_more u1 u3"
          "bridge_tcpudp_receive env addrs (B3, o3, u3, c) = Some (Ok w, B4, o4, u4, b')"
          "sent_more u4 u'" "set w \<subseteq> set more"
        then show ?thesis using sent_more_trans [OF 1] k(3)
          by (intro Cons.prems(1) [of c u3 B3 o3 w B4 o4 u4]) auto
      qed
    qed
  next
    case (Err e)
    then have m: "retain_bridges env addrs bs (B1, os1, bridge_drop env b1 u1) = Some (Ok (kept, cmds), BUF', os', u')"
      using Cons.prems(2) b by (simp add: xb)
    show ?thesis
    proof (rule Cons.IH [OF _ m Cons.prems(3)])
      fix c B3 o3 u3 w B4 o4 u4
      assume "(a, c) \<in> set bs" "sent_more (bridge_drop env b1 u1) u3"
        "bridge_tcpudp_receive env addrs (B3, o3, u3, c) = Some (Ok w, B4, o4, u4, b')"
        "sent_more u4 u'" "set w \<subseteq> set cmds"
      then show ?thesis
        using sent_more_trans [OF sent_more_trans [OF 1 sent_to_more [OF bridge_drop_sent_to [of b1 u1 env]]]]
        by (intro Cons.prems(1) [of c u3 B3 o3 w B4 o4 u4]) auto
    qed
  next
    case Panic
    then show ?thesis using Cons.prems(2) b by (simp add: xb)
  qed
qed simp

section \<open>Acknowledgements in a datagram\<close>

text \<open>What a peer reads at the start of a datagram: the time and the acknowledgements, if there are any.\<close>

definition read_acks :: "'r bit_reader \<Rightarrow> u8 list \<Rightarrow> (u32 \<times> range_list) option res" where
  "read_acks R d =
     and_then (br_bit R (br_new R d)) (\<lambda>(has_acks, r).
       if has_acks
       then and_then (br_u32 R r) (\<lambda>(t, r). and_then (rl_read R r) (\<lambda>(acks, r). Ok (Some (t, acks))))
       else Ok None)"

context reader_laws
begin

lemma read_acks_wire:
  assumes "length (ranges acks) < 2 ^ 16" and "\<not> rl_is_empty acks"
    and "bytes_bits d = acks_wire acks t @ rest"
  shows "read_acks R d = Ok (Some (t, acks))"
proof -
  let ?rest = "bytes_bits (u32_le t) @ rl_wire acks @ rest"
  have d: "rbits (br_new R d) = True # ?rest" using assms(2,3) by (simp add: rd_new acks_wire_def)
  obtain r1 where 1: "br_bit R (br_new R d) = Ok (True, r1)" "rbits r1 = ?rest"
    using rd_bit [of "br_new R d"] by (auto simp: d map_state_eq_Ok)
  obtain r2 where 2: "br_u32 R r1 = Ok (t, r2)" "rbits r2 = rl_wire acks @ rest"
    using rd_u32 [of r1] 1(2) by (auto simp: map_state_eq_Ok)
  obtain r3 where 3: "rl_read R r2 = Ok (acks, r3)"
    using sim_rl_read [of r2] rl_read_wire [OF assms(1), of rest] 2(2) by (auto simp: map_state_eq_Ok)
  show ?thesis by (simp add: read_acks_def 1 2 3)
qed

end

lemma datagrams_acks:
  assumes "\<not> rl_is_empty acks"
  obtains d ds rest where "datagrams acks t qs = d # ds" "bytes_bits d = acks_wire acks t @ rest"
proof (cases qs)
  case Nil
  then show thesis using assms by (intro that [of "bytes_of_bits (acks_wire acks t)" "[]"]) (simp_all add: pad_bits_def)
next
  case (Cons q qs')
  then show thesis
    by (intro that [of "datagram acks t q" "map (datagram rl_new t) qs'"]) (simp_all add: datagram_def pad_bits_def)
qed

section \<open>Properties\<close>

text \<open>C7: clients do not disturb each other. If the datagrams a client sends to deliver its packets have
  arrived at the shim in order, mixed with any datagrams of other clients, known or new, then after
  the shim has handled all of them this client's packets, and nothing else of it, have been passed
  on to the server: framed in order on the TCP stream, or as UDP datagrams.\<close>

theorem clients_relayed_independently:
  assumes "codec_laws (env_reader env) rbits W wbits" and "endio_laws (env_endio env)"
    and "tcp_full (env_tcp env) unread sent full" and "full (tu_tcp (tcpudp b))"
    and "udp_reliable (tu_udp (tcpudp b))" and "udp_reliable udp"
    and "\<not> conn_closed client" and "synced (conn_send client) (conn_recv (raknet b))"
    and "\<forall>p\<in>set ps. \<not> is_disconnect (data p) \<and> length (data p) \<le> 255 * 1178"
    and "length (ranges (conn_acks client)) < 2 ^ 16" and "ps \<noteq> []"
    and "connection_send checks W ps (client, udp) =
      (Ok (), client', udp\<lparr>udp_sent := udp_sent udp @ map (Pair shim_addr) ds\<rparr>)"
    and "udp_inbox (raknet_socket s) = map Ok ms" and "from_client (length BUF) a ms = ds"
    and "map_of (bridges s) a = Some b"
    and "shim_raknet_receive env (BUF, s, os) = Some (Ok (), BUF', s', os')"
  shows "\<exists>b'. map_of (bridges s') a = Some b' \<and>
    sent (tu_tcp (tcpudp b')) = sent (tu_tcp (tcpudp b)) @ tcp_wire ps \<and>
    udp_sent (tu_udp (tcpudp b')) = udp_sent (tu_udp (tcpudp b)) @
      map (Pair (tu_peer (tcpudp b))) (udp_wire (seq_num_send (tcpudp b)) ps) \<and>
    synced (conn_send client') (conn_recv (raknet b'))"
proof -
  obtain ds' client'' b' where b: "connection_send checks W ps (client, udp) = (Ok (), client'', udp\<lparr>udp_sent :=
      udp_sent udp @ map (Pair (sp_address (conn_send client''))) ds'\<rparr>)"
    "bridge_raknet_datagrams env ds' b = Some (Ok (), b')"
    "sent (tu_tcp (tcpudp b')) = sent (tu_tcp (tcpudp b)) @ tcp_wire ps"
    "udp_sent (tu_udp (tcpudp b')) = udp_sent (tu_udp (tcpudp b)) @
      map (Pair (tu_peer (tcpudp b))) (udp_wire (seq_num_send (tcpudp b)) ps)"
    "synced (conn_send client'') (conn_recv (raknet b'))"
    using bridge_relays_client [OF assms(1-11)] by blast
  then have c: "client'' = client'" and "udp\<lparr>udp_sent := udp_sent udp @ map (Pair (sp_address (conn_send client''))) ds'\<rparr> =
      udp\<lparr>udp_sent := udp_sent udp @ map (Pair shim_addr) ds\<rparr>" using assms(12) by auto
  from arg_cong [OF this(2), of udp_sent]
  have "map (Pair (sp_address (conn_send client''))) ds' = map (Pair shim_addr) ds" by simp
  from arg_cong [OF this, of "map snd"] have "ds' = ds" by (simp add: o_def)
  then have "map_of (bridges s') a = Some b'"
    using shim_receive_client [OF assms(16,13,15)] assms(14) b(2) by simp
  then show ?thesis using b(3-5) c by blast
qed

text \<open>C14: what a client is owed is sent to it without waiting for more traffic. If its datagrams are
  handled without error and its bridge is kept, then in the same step of the shim one datagram is
  sent to the client that starts with all acknowledgements the bridge had collected, readable as
  such, and none is left pending.\<close>

theorem acks_sent_in_same_step:
  assumes "codec_laws R rbits (env_writer env) wbits" and "shim_ok s" and "udp_reliable (raknet_socket s)"
    and "udp_inbox (raknet_socket s) = map Ok ms" and "map_of (bridges s) a = Some b"
    and "bridge_raknet_datagrams env (from_client (length BUF) a ms) b = Some (Ok (), b1)"
    and "conn_acks (raknet b1) \<noteq> rl_new" and "length (ranges (conn_acks (raknet b1))) < 2 ^ 16"
    and "shim_step env addrs (BUF, s, os) = Some (Ok cmds, BUF', s', os')"
    and "map_of (bridges s') a = Some b'"
  shows "\<exists>before d later. udp_sent (raknet_socket s') = udp_sent (raknet_socket s) @ before @ (a, d) # later \<and>
    read_acks R d = Ok (Some (conn_time (raknet b1), conn_acks (raknet b1))) \<and>
    conn_acks (raknet b') = rl_new"
proof -
  obtain x B1 s1 os1 where 1: "shim_raknet_receive env (BUF, s, os) = Some (Ok x, B1, s1, os1)"
    using assms(9) by (auto simp: shim_step_def split: option.splits res.splits)
  then obtain r os2 u2 where 2: "retain_bridges env addrs (bridges s1) (B1, os1, raknet_socket s1) =
      Some (r, BUF', os2, u2)" "map_res snd r = Ok cmds"
    "s' = s1\<lparr>raknet_socket := u2, bridges := (case r of Ok (bs, _) \<Rightarrow> bs | _ \<Rightarrow> bridges s1)\<rparr>"
    using assms(9) by (auto simp: shim_step_def)
  then obtain kept new where r: "r = Ok (kept, new)" by (cases r) auto
  have s1: "map_of (bridges s1) a = Some b1" "shim_ok s1" "sent_more (raknet_socket s) (raknet_socket s1)"
    using shim_receive_client [of env BUF s os B1 s1 os1 ms a b b1] 1 assms(2,4-6) by auto
  have "(a, b') \<in> set kept" using assms(10) 2(3) r by (auto dest: map_of_SomeD)
  then obtain b0 B3 os3 u3 w B4 os4 u4 where 3: "(a, b0) \<in> set (bridges s1)" "sent_more (raknet_socket s1) u3"
    "bridge_tcpudp_receive env addrs (B3, os3, u3, b0) = Some (Ok w, B4, os4, u4, b')" "sent_more u4 u2"
    using retain_bridges_one [OF 2(1) [unfolded r]] by metis
  have b0: "b0 = b1" using s1(1,2) 3(1) by (simp add: shim_ok_def)
  have a: "client_addr (raknet b1) = a" using shim_ok_bridge [OF s1(2,1)] by (simp add: bridge_ok_def)
  obtain ps where c: "connection_send (env_checks env) (env_writer env) ps (raknet b1, u3) = (Ok (), raknet b', u4)"
    using bridge_tcpudp_receive_sends [OF 3(3)] b0 by blast
  have rel: "udp_reliable u3" using assms(3) s1(3) 3(2) by (auto simp: sent_more_def)
  obtain qs sp' where o: "process_outgoing_packets ps (conn_send (raknet b1)) = (qs, sp')" by fastforce
  have opn: "\<not> conn_closed (raknet b1)" using c by (auto simp: connection_send_def)
  have sent: "raknet b' = (raknet b1)\<lparr>conn_send := sp', conn_acks := rl_new\<rparr>"
    "udp_sent u4 = udp_sent u3 @ map (Pair a) (datagrams (conn_acks (raknet b1)) (conn_time (raknet b1)) qs)"
    using c opn writer_laws.send_packets_datagrams [OF codec_writer [OF assms(1)] rel o] address_outgoing_all [OF o] a
    by (auto simp: connection_send_def)
  have ne: "\<not> rl_is_empty (conn_acks (raknet b1))" using assms(7) by (simp add: rl_is_empty_eq)
  then obtain d ds rest where d: "datagrams (conn_acks (raknet b1)) (conn_time (raknet b1)) qs = d # ds"
    "bytes_bits d = acks_wire (conn_acks (raknet b1)) (conn_time (raknet b1)) @ rest" by (rule datagrams_acks)
  obtain xs ys zs where more: "udp_sent (raknet_socket s1) = udp_sent (raknet_socket s) @ xs"
    "udp_sent u3 = udp_sent (raknet_socket s1) @ ys" "udp_sent u2 = udp_sent u4 @ zs"
    using s1(3) 3(2,4) by (auto simp: sent_more_def)
  have "udp_sent (raknet_socket s') = udp_sent (raknet_socket s) @ (xs @ ys) @ (a, d) # (map (Pair a) ds @ zs)"
    using more sent(2) d(1) 2(3) by simp
  moreover have "read_acks R d = Ok (Some (conn_time (raknet b1), conn_acks (raknet b1)))"
    by (rule reader_laws.read_acks_wire [OF codec_reader [OF assms(1)] assms(8) ne d(2)])
  ultimately show ?thesis using sent(1) by fastforce
qed

text \<open>A shim with one client, whose datagrams have arrived with one of a stranger.\<close>

lemma from_client_own: "\<forall>d\<in>set ds. length d \<le> n \<Longrightarrow> from_client n a (map (\<lambda>d. (d, a)) ds) = ds"
  by (induction ds) simp_all

lemma from_client_append: "from_client n a (ms @ ms') = from_client n a ms @ from_client n a ms'"
  by (induction ms) auto

theorem clients_relayed_independently_witness:
  "\<exists>ms s' b' BUF BUF'. (\<exists>ds. ms = ds @ [([1, 2, 3], localhost 6)]) \<and>
    shim_raknet_receive sample_env (BUF, sample_shim\<lparr>raknet_socket := udp_idle\<lparr>udp_inbox := map Ok ms\<rparr>,
      bridges := [(localhost 5, sample_bridge)]\<rparr>, 0) = Some (Ok (), BUF', s', 0) \<and>
    map_of (bridges s') (localhost 5) = Some b' \<and> st_sent (tu_tcp (tcpudp b')) = [1, 0, 0, 0, 7]"
proof -
  let ?ps = "[mk_packet Reliable [7]]" and ?client = "connection_new (localhost 4)"
  have laws: "codec_laws (env_reader sample_env) id bits_writer id" "endio_laws (env_endio sample_env)"
    "tcp_full (env_tcp sample_env) st_unread st_sent (\<lambda>t. st_writes t = [])"
    by (simp_all add: sample_env_def bits_codec le_endio_laws script_full)
  have state: "st_writes (tu_tcp (tcpudp sample_bridge)) = []" "udp_reliable (tu_udp (tcpudp sample_bridge))"
    "udp_reliable udp_idle" "\<not> conn_closed ?client" "synced (conn_send ?client) (conn_recv (raknet sample_bridge))"
    "\<forall>p\<in>set ?ps. \<not> is_disconnect (data p) \<and> length (data p) \<le> 255 * 1178"
    "length (ranges (conn_acks ?client)) < 2 ^ 16" "?ps \<noteq> []"
    by (simp_all add: sample_bridge_def bridge_new_def tu_sample_def tu_new_def udp_idle_def udp_reliable_def
        connection_new_def synced_new rl_new_def)
  obtain ds client' b1 where c: "connection_send True bits_writer ?ps (?client, udp_idle) = (Ok (), client',
      udp_idle\<lparr>udp_sent := udp_sent udp_idle @ map (Pair (sp_address (conn_send client'))) ds\<rparr>)"
    "bridge_raknet_datagrams sample_env ds sample_bridge = Some (Ok (), b1)"
    using bridge_relays_client [OF laws state, of True] by blast
  define BUF :: "u8 list" where "BUF = replicate (3 + sum_list (map length ds)) 0"
  have "length d \<le> sum_list (map length ds)" if "d \<in> set ds" for d
    using that member_le_sum_list [of "length d" "map length ds"] by simp
  then have len: "\<forall>d\<in>set ds. length d \<le> length BUF" "3 \<le> length BUF"
    by (auto simp: BUF_def trans_le_add2)
  let ?ms = "map (\<lambda>d. (d, localhost 5)) ds @ [([1, 2, 3], localhost 6)]"
  let ?s = "sample_shim\<lparr>raknet_socket := udp_idle\<lparr>udp_inbox := map Ok ?ms\<rparr>, bridges := [(localhost 5, sample_bridge)]\<rparr>"
  have ne: "localhost 6 \<noteq> localhost 5" by (simp add: localhost_def)
  obtain B2 bs2 where r: "length B2 = length BUF"
    "map_of bs2 = (map_of (bridges ?s))(localhost 5 \<mapsto> b1)" "shim_raknet_receive sample_env (BUF, ?s, 0) =
      shim_raknet_receive sample_env (B2, ?s\<lparr>raknet_socket := (raknet_socket ?s)\<lparr>udp_inbox :=
        map Ok [([1, 2, 3], localhost 6)]\<rparr>, bridges := bs2\<rparr>, 0)"
    using shim_receive_own_prefix [of ?s "localhost 5" ds "[([1, 2, 3], localhost 6)]", OF _ _ c(2) len(1)]
    by auto blast
  then have "map_of bs2 (localhost 6) = None" using ne by simp
  then obtain B3 s3 where s3: "shim_raknet_receive sample_env (BUF, ?s, 0) = Some (Ok (), B3, s3, 0)"
    using r(1,3) len(2) by (auto simp: shim_raknet_receive.simps udp_recv_from_def shim_datagram_def
        shim_new_client_def Let_def)
  have f: "from_client (length BUF) (localhost 5) ?ms = ds"
    using len(1) ne by (simp add: from_client_append from_client_own)
  have "udp_inbox (raknet_socket ?s) = map Ok ?ms" "map_of (bridges ?s) (localhost 5) = Some sample_bridge"
    by simp_all
  from clients_relayed_independently [OF laws state c(1) this(1) f this(2) s3]
  obtain b' where "map_of (bridges s3) (localhost 5) = Some b'" "st_sent (tu_tcp (tcpudp b')) = [1, 0, 0, 0, 7]"
    by (auto simp: sample_bridge_def bridge_new_def tu_sample_def tu_new_def tcp_wire_def is_stream_def
        frame_def u32_le_def)
  then show ?thesis using s3 by blast
qed

theorem acks_sent_in_same_step_witness:
  "\<exists>s' d. shim_step sample_env [] (replicate 1200 0, sample_shim\<lparr>bridges := [(localhost 5,
      sample_bridge\<lparr>raknet := (connection_new (localhost 5))\<lparr>conn_acks := \<lparr>ranges = [mk_range 3 4]\<rparr>\<rparr>\<rparr>)]\<rparr>, 0) =
      Some (Ok [], replicate 1200 0, s', 0) \<and>
    udp_sent (raknet_socket s') = [(localhost 5, d)] \<and>
    read_acks bits_reader d = Ok (Some (0, \<lparr>ranges = [mk_range 3 4]\<rparr>))"
proof -
  let ?acks = "\<lparr>ranges = [mk_range 3 4]\<rparr>"
  let ?b = "sample_bridge\<lparr>raknet := (connection_new (localhost 5))\<lparr>conn_acks := ?acks\<rparr>\<rparr>"
  let ?s = "sample_shim\<lparr>bridges := [(localhost 5, ?b)]\<rparr>" and ?BUF = "replicate 1200 0 :: u8 list"
  have w: "codec_laws bits_reader id (env_writer sample_env) id" by (simp add: sample_env_def bits_codec)
  have rel: "udp_reliable udp_idle" by (simp add: udp_idle_def udp_reliable_def)
  have "tu_receive le_endio script_tcp (?BUF, tcpudp ?b) = Some (Ok [], ?BUF, tcpudp ?b)"
    by (simp add: tu_receive_def receive_tcp.simps tcp_step_def read_part_def script_tcp_def sample_bridge_def
        bridge_new_def tu_sample_def tu_new_def receive_udp_end)
  moreover obtain rc u where c: "connection_send True bits_writer [] (raknet ?b, udp_idle) = (Ok (), rc, u)"
    "udp_sent u = [(localhost 5, bytes_of_bits (acks_wire ?acks 0))]"
    using writer_laws.send_packets_datagrams [OF codec_writer [OF bits_codec] rel, of "[]"]
    by (simp add: connection_send_def connection_new_def send_part_new_def udp_idle_def rl_is_empty_def)
  ultimately have st: "shim_step sample_env [] (?BUF, ?s, 0) =
      Some (Ok [], ?BUF, ?s\<lparr>raknet_socket := u, bridges := [(localhost 5, ?b\<lparr>raknet := rc\<rparr>)]\<rparr>, 0)"
    by (simp add: shim_step_def shim_raknet_receive.simps udp_recv_from_def sample_shim_def udp_idle_def
        bridge_tcpudp_receive_def sample_env_def)
  have ok: "shim_ok ?s" "udp_reliable (raknet_socket ?s)" "udp_inbox (raknet_socket ?s) = map Ok []"
    "map_of (bridges ?s) (localhost 5) = Some ?b"
    "bridge_raknet_datagrams sample_env (from_client (length ?BUF) (localhost 5) []) ?b = Some (Ok (), ?b)"
    "conn_acks (raknet ?b) \<noteq> rl_new" "length (ranges (conn_acks (raknet ?b))) < 2 ^ 16"
    by (simp_all add: shim_ok_def bridge_ok_def sample_shim_def sample_bridge_def bridge_new_def tu_sample_def
        tu_new_def wf_buffer_def connection_new_def send_part_new_def udp_idle_def udp_reliable_def rl_new_def)
  have "map_of (bridges (?s\<lparr>raknet_socket := u, bridges := [(localhost 5, ?b\<lparr>raknet := rc\<rparr>)]\<rparr>)) (localhost 5) =
      Some (?b\<lparr>raknet := rc\<rparr>)" by simp
  from acks_sent_in_same_step [OF w ok st this] c(2) st show ?thesis
    by (fastforce simp: sample_shim_def udp_idle_def connection_new_def Cons_eq_append_conv)
qed

end
