(* ===== verification/Program.thy ===== *)
theory Program
  imports Turn
begin

text \<open>
  The main loop of \<open>src/main.rs\<close>: it steps every shim and carries out the commands the bridges
  return. The program is a transition system, \<open>reachable\<close>, in which turns of the loop alternate with
  arbitrary changes of the network; \<open>program_ok\<close> and \<open>relays_ok\<close> are its invariants.
\<close>

section \<open>The main loop\<close>

record ('os, 'tcp) program =
  relay_addrs :: "(sock_addr \<times> sock_addr) list"
  running :: "'tcp shim list"
  recv_buffer :: "u8 list"
  op_sys :: 'os

fun step_shims ::
  "('os, 'tcp, 'r, 'w) env \<Rightarrow> (sock_addr \<times> sock_addr) list \<Rightarrow> 'tcp shim list \<Rightarrow> u8 list \<times> 'os \<Rightarrow>
   ('tcp shim_command list res \<times> 'tcp shim list \<times> u8 list \<times> 'os) option" where
  "step_shims env addrs [] s = Some (Ok [], [], s)"
| "step_shims env addrs (shim # rest) s =
     (case s of (BUF, os) \<Rightarrow>
        (case shim_step env addrs (BUF, shim, os) of
           None \<Rightarrow> None
         | Some (Ok cmds, BUF, shim, os) \<Rightarrow>
             map_option (\<lambda>(r, shims, s). (map_res (\<lambda>more. cmds @ more) r, shim # shims, s))
               (step_shims env addrs rest (BUF, os))
         | Some (r, BUF, shim, os) \<Rightarrow> Some (r, shim # rest, BUF, os)))"

fun run_commands ::
  "('os, 'tcp, 'r, 'w) env \<Rightarrow> 'tcp shim_command list \<Rightarrow> ('os, 'tcp) program \<Rightarrow>
   unit res \<times> ('os, 'tcp) program" where
  "run_commands env [] p = (Ok (), p)"
| "run_commands env (NewShim connect shim # cmds) p =
     then_do (listen_addr env shim, p) (\<lambda>listen p.
       run_commands env cmds (p\<lparr>relay_addrs := AList.update connect listen (relay_addrs p), running := running p @ [shim]\<rparr>))"

text \<open>One turn of the loop of \<open>main\<close>; an error ends the program.\<close>

definition main_turn ::
  "('os, 'tcp, 'r, 'w) env \<Rightarrow> ('os, 'tcp) program \<Rightarrow> (unit res \<times> ('os, 'tcp) program) option" where
  "main_turn env p =
     map_option (\<lambda>(r, shims, BUF, os).
       then_do (r, p\<lparr>running := shims, recv_buffer := BUF, op_sys := os\<rparr>) (\<lambda>cmds. run_commands env cmds))
     (step_shims env (relay_addrs p) (running p) (recv_buffer p, op_sys p))"

text \<open>The start of \<open>main\<close>, with the domain that was read from the configuration file.\<close>

definition main_init ::
  "('os, 'tcp, 'r, 'w) env \<Rightarrow> u8 list \<Rightarrow> 'os \<Rightarrow> ('os, 'tcp) program res \<times> 'os" where
  "main_init env connect_domain os =
     (let listen = localhost 1001 in
      case os_resolve env (connect_domain, 21836) os of (r, os) \<Rightarrow>
      then_do (unwrap_first r, os) (\<lambda>connect os.
      then_do (shim_new env listen connect os) (\<lambda>shim os.
        (Ok \<lparr>relay_addrs = [(connect, listen)], running = [shim],
             recv_buffer = replicate MAX_PACKET_SIZE 0, op_sys = os\<rparr>, os))))"

section \<open>Every operation ends and keeps the shims\<close>

text \<open>The end points of a shim: the server it relays to and the local address it listens on.\<close>

definition shim_ends :: "'tcp shim \<Rightarrow> sock_addr \<times> sock_addr" where
  "shim_ends s = (connect_addr s, udp_local (raknet_socket s))"

lemma step_shims_total:
  assumes "reader_laws (env_reader env) rbits" and "tcp_laws (env_tcp env) unread sent" and "connects env"
    and "\<forall>s\<in>set ss. shim_ok s"
  shows "\<exists>r ss' B os'. step_shims env addrs ss (BUF, os) = Some (r, ss', B, os') \<and>
    map shim_ends ss' = map shim_ends ss \<and> (\<forall>s\<in>set ss'. shim_ok s) \<and> length B = length BUF \<and>
    (\<forall>cmds. r = Ok cmds \<longrightarrow> (\<forall>cmd\<in>set cmds. fresh_command env cmd))"
  using assms(4)
proof (induction ss arbitrary: BUF os)
  case (Cons s ss)
  obtain r B s' os1 where s: "shim_step env addrs (BUF, s, os) = Some (r, B, s', os1)"
    "connect_addr s' = connect_addr s" "udp_local (raknet_socket s') = udp_local (raknet_socket s)"
    "shim_ok s'" "length B = length BUF" "\<forall>cmds. r = Ok cmds \<longrightarrow> (\<forall>cmd\<in>set cmds. fresh_command env cmd)"
    using shim_step_total [OF assms(1-3), of s] Cons.prems by auto blast
  have e: "shim_ends s' = shim_ends s" using s(2,3) by (simp add: shim_ends_def)
  obtain r2 ss2 B2 os2 where 2: "step_shims env addrs ss (B, os1) = Some (r2, ss2, B2, os2)"
    "map shim_ends ss2 = map shim_ends ss" "\<forall>s\<in>set ss2. shim_ok s" "length B2 = length B"
    "\<forall>cmds. r2 = Ok cmds \<longrightarrow> (\<forall>cmd\<in>set cmds. fresh_command env cmd)"
    using Cons.IH [of B os1] Cons.prems by auto
  show ?case
  proof (cases r)
    case (Ok cmds)
    then show ?thesis using s e 2 by (cases r2) auto
  qed (use s e Cons.prems in auto)
qed simp

lemma step_shims_Ok:
  assumes "reader_laws (env_reader env) rbits" and "tcp_laws (env_tcp env) unread sent" and "connects env"
    and "\<forall>s\<in>set ss. shim_ok s" and "step_shims env addrs ss (BUF, os) = Some (Ok cmds, ss', BUF', os')"
  shows "map shim_ends ss' = map shim_ends ss" and "\<forall>cmd\<in>set cmds. fresh_command env cmd"
  using step_shims_total [OF assms(1-4), of addrs BUF os] assms(5) by auto

section \<open>The invariants\<close>

text \<open>Every shim is well formed, the receive buffer has its fixed length, and the servers with an entry
  in the map of relays are exactly those that a running shim relays to.\<close>

definition program_ok :: "('os, 'tcp) program \<Rightarrow> bool" where
  "program_ok p \<longleftrightarrow> (\<forall>s\<in>set (running p). shim_ok s) \<and> length (recv_buffer p) = MAX_PACKET_SIZE \<and>
     fst ` set (relay_addrs p) = connect_addr ` set (running p)"

text \<open>Every entry of the map of relays is the server and the listening address of a running shim, and
  shims listen on the loopback device only.\<close>

definition listens_locally :: "'tcp shim \<Rightarrow> bool" where
  "listens_locally s \<longleftrightarrow> addr_ip (snd (shim_ends s)) = IPv4 127 0 0 1"

definition relays_ok :: "('os, 'tcp) program \<Rightarrow> bool" where
  "relays_ok p \<longleftrightarrow> set (relay_addrs p) \<subseteq> shim_ends ` set (running p) \<and>
     (\<forall>s\<in>set (running p). listens_locally s)"

lemma fresh_listens_locally:
  assumes "os_laws env" and "fresh_command env (NewShim a s)"
  shows "listens_locally s"
  using assms(2) os_laws.bind_ip [OF assms(1)]
  by (auto simp: fresh_command_def listens_locally_def shim_ends_def localhost_def)

lemma connect_addrs_of_ends: "connect_addr ` set ss = fst ` shim_ends ` set ss"
  by (simp add: image_image shim_ends_def)

lemma listens_locally_ends:
  "(\<forall>s\<in>set ss. listens_locally s) \<longleftrightarrow> (\<forall>e\<in>shim_ends ` set ss. addr_ip (snd e) = IPv4 127 0 0 1)"
  by (simp add: listens_locally_def)

lemma program_ok_command:
  assumes "program_ok p" and "fresh_command env (NewShim a s)"
  shows "program_ok (p\<lparr>relay_addrs := AList.update a l (relay_addrs p), running := running p @ [s]\<rparr>)"
  using assms by (auto simp: program_ok_def fresh_command_def shim_ok_def AList.dom_update)

lemma run_commands_ok:
  assumes "program_ok p" and "\<forall>cmd\<in>set cmds. fresh_command env cmd"
  shows "program_ok (snd (run_commands env cmds p))"
  using assms
proof (induction env cmds p rule: run_commands.induct)
  case (2 env a s cmds p)
  then show ?case using program_ok_command [of p env a s]
    by (cases "listen_addr env s") auto
qed simp

lemma run_commands_relays:
  assumes "os_laws env" and "relays_ok p" and "\<forall>cmd\<in>set cmds. fresh_command env cmd"
  shows "relays_ok (snd (run_commands env cmds p))"
  using assms(2,3)
proof (induction cmds arbitrary: p)
  case (Cons cmd cmds)
  obtain a s where cmd: "cmd = NewShim a s" by (cases cmd)
  show ?case
  proof (cases "listen_addr env s")
    case (Ok l)
    then have "shim_ends s = (a, l)" using Cons.prems(2) os_laws.local_addr_ok [OF assms(1)]
      by (simp add: cmd shim_ends_def fresh_command_def listen_addr_Ok local_addr_def)
    moreover have "listens_locally s"
      using fresh_listens_locally [OF assms(1), of a s] Cons.prems(2) by (simp add: cmd)
    ultimately have "relays_ok (p\<lparr>relay_addrs := AList.update a l (relay_addrs p), running := running p @ [s]\<rparr>)"
      using Cons.prems(1) by (force simp: relays_ok_def dest: set_alist_update)
    then show ?thesis using Cons.IH Cons.prems(2) by (simp add: cmd Ok)
  qed (use Cons.prems in \<open>simp_all add: cmd\<close>)
qed simp

lemma main_turn_total:
  assumes "reader_laws (env_reader env) rbits" and "tcp_laws (env_tcp env) unread sent" and "connects env"
    and "program_ok p"
  shows "\<exists>r p'. main_turn env p = Some (r, p') \<and> program_ok p' \<and>
    (os_laws env \<longrightarrow> relays_ok p \<longrightarrow> relays_ok p')"
proof -
  have "\<forall>s\<in>set (running p). shim_ok s" using assms(4) by (simp add: program_ok_def)
  then obtain r ss B os where s: "step_shims env (relay_addrs p) (running p) (recv_buffer p, op_sys p) =
      Some (r, ss, B, os)" "map shim_ends ss = map shim_ends (running p)" "\<forall>s\<in>set ss. shim_ok s"
    "length B = length (recv_buffer p)"
    "\<forall>cmds. r = Ok cmds \<longrightarrow> (\<forall>cmd\<in>set cmds. fresh_command env cmd)"
    using step_shims_total [OF assms(1-3)] by blast
  let ?p = "p\<lparr>running := ss, recv_buffer := B, op_sys := os\<rparr>"
  have e: "shim_ends ` set ss = shim_ends ` set (running p)"
    using arg_cong [OF s(2), of set] by simp
  have ok: "program_ok ?p"
    using assms(4) s(3,4) e by (simp add: program_ok_def connect_addrs_of_ends)
  have rel: "relays_ok p \<Longrightarrow> relays_ok ?p" using e by (simp add: relays_ok_def listens_locally_ends)
  show ?thesis
  proof (cases r)
    case (Ok cmds)
    then show ?thesis using run_commands_ok [OF ok, of cmds env] run_commands_relays [OF _ rel, of env cmds] s(1,5)
      by (cases "run_commands env cmds ?p") (auto simp: main_turn_def)
  qed (use s(1) ok rel in \<open>auto simp: main_turn_def\<close>)
qed

lemma main_init_ok: "main_init env d os = (Ok p, os') \<Longrightarrow> program_ok p"
  by (auto simp: main_init_def then_do_eq_Ok shim_new_def and_then_eq_Ok program_ok_def shim_ok_def Let_def
      split: prod.splits)

lemma main_init_relays:
  assumes "os_laws env" and "main_init env d os = (Ok p, os')"
  shows "relays_ok p"
proof -
  have "udp_local u = localhost 1001" if "os_bind env (localhost 1001) os1 = (Ok u, os2)" for u os1 os2
    using os_laws.bind_fixed [OF assms(1) that] by (simp add: localhost_def)
  then show ?thesis using assms(2)
    by (auto simp: main_init_def then_do_eq_Ok shim_new_def and_then_eq_Ok relays_ok_def shim_ends_def listens_locally_def localhost_def Let_def
        split: prod.splits)
qed

section \<open>Reachable states\<close>

text \<open>Between turns the network and the operating system may change the sockets and streams in any way,
  but not the program's own state, nor the address a socket is bound to.\<close>

definition same_bridge :: "'tcp bridge \<Rightarrow> 'tcp bridge \<Rightarrow> bool" where
  "same_bridge b b' \<longleftrightarrow> raknet b' = raknet b \<and> partial_packet (tcpudp b') = partial_packet (tcpudp b) \<and>
     seq_num_recv (tcpudp b') = seq_num_recv (tcpudp b) \<and>
     seq_num_send (tcpudp b') = seq_num_send (tcpudp b) \<and> tu_peer (tcpudp b') = tu_peer (tcpudp b)"

definition same_shim :: "'tcp shim \<Rightarrow> 'tcp shim \<Rightarrow> bool" where
  "same_shim s s' \<longleftrightarrow> shim_ends s' = shim_ends s \<and>
     list_all2 (rel_prod (=) same_bridge) (bridges s) (bridges s')"

definition network :: "('os, 'tcp) program \<Rightarrow> ('os, 'tcp) program \<Rightarrow> bool" where
  "network p p' \<longleftrightarrow> relay_addrs p' = relay_addrs p \<and> recv_buffer p' = recv_buffer p \<and>
     list_all2 same_shim (running p) (running p')"

inductive reachable :: "('os, 'tcp, 'r, 'w) env \<Rightarrow> u8 list \<Rightarrow> ('os, 'tcp) program \<Rightarrow> bool"
  for env :: "('os, 'tcp, 'r, 'w) env" and connect_domain :: "u8 list" where
  start: "main_init env connect_domain os = (Ok p, os') \<Longrightarrow> reachable env connect_domain p"
| turn: "reachable env connect_domain p \<Longrightarrow> main_turn env p = Some (Ok (), p') \<Longrightarrow> reachable env connect_domain p'"
| wait: "reachable env connect_domain p \<Longrightarrow> network p p' \<Longrightarrow> reachable env connect_domain p'"

lemma same_bridge_ok: "same_bridge b b' \<Longrightarrow> bridge_ok server a b \<Longrightarrow> bridge_ok server a b'"
  by (simp add: same_bridge_def bridge_ok_def)

lemma same_bridges_ok:
  "list_all2 (rel_prod (=) same_bridge) bs bs' \<Longrightarrow> map fst bs' = map fst bs \<and>
    ((\<forall>(a, b)\<in>set bs. bridge_ok server a b) \<longrightarrow> (\<forall>(a, b)\<in>set bs'. bridge_ok server a b))"
  by (induction rule: list_all2_induct) (auto dest: same_bridge_ok)

lemma same_shim_ok: "same_shim s s' \<Longrightarrow> shim_ok s \<Longrightarrow> shim_ok s'"
  using same_bridges_ok [of "bridges s" "bridges s'" "connect_addr s"]
  unfolding same_shim_def shim_ok_def shim_ends_def by simp

lemma same_shims:
  "list_all2 same_shim ss ss' \<Longrightarrow> shim_ends ` set ss' = shim_ends ` set ss \<and>
    ((\<forall>s\<in>set ss. shim_ok s) \<longrightarrow> (\<forall>s\<in>set ss'. shim_ok s))"
  by (induction rule: list_all2_induct) (auto simp: same_shim_ok, auto simp: same_shim_def)

lemma network_ok:
  assumes "network p p'"
  shows "(program_ok p \<longrightarrow> program_ok p') \<and> (relays_ok p \<longrightarrow> relays_ok p')"
  using assms same_shims [of "running p" "running p'"]
  by (simp add: network_def program_ok_def relays_ok_def connect_addrs_of_ends listens_locally_ends)

lemma reachable_ok:
  assumes "reader_laws (env_reader env) rbits" and "tcp_laws (env_tcp env) unread sent" and "connects env"
    and "reachable env connect_domain p"
  shows "program_ok p \<and> (os_laws env \<longrightarrow> relays_ok p)"
  using assms(4)
proof induction
  case (start os p os')
  then show ?case by (blast intro: main_init_ok main_init_relays)
next
  case (turn p p')
  then show ?case using main_turn_total [OF assms(1-3), of p] by auto
next
  case (wait p p')
  then show ?case using network_ok by blast
qed

section \<open>Properties\<close>

lemma sample_reachable: "\<exists>p. reachable sample_env [97] p"
proof -
  obtain p os' where "main_init sample_env [97] 0 = (Ok p, os')"
    by (auto simp: main_init_def sample_env_def unwrap_first_def shim_new_def Let_def)
  then show ?thesis by (blast intro: reachable.start)
qed

lemma sample_env_laws:
  "reader_laws (env_reader sample_env) id" "writer_laws (env_writer sample_env) id"
  "tcp_laws (env_tcp sample_env) st_unread st_sent" "connects sample_env" "os_laws sample_env"
  "endio_laws (env_endio sample_env)"
  using codec_reader [OF bits_codec] codec_writer [OF bits_codec] script_laws sample.os_laws_axioms le_endio_laws
  by (simp_all add: connects_def sample_env_def)

lemma bridge_ok_types:
  assumes "bridge_ok server client b"
  shows "sp_address (conn_send (raknet b)) = client \<and> tu_peer (tcpudp b) = server \<and>
    (let buf = partial_packet (tcpudp b) in length (length_bytes buf) = 4 \<and>
      (if reading_length buf then buf_offset buf \<le> 4
       else buf_offset buf \<le> length (buffer buf) \<and>
         length (buffer buf) = unat (le_u32 (length_bytes buf))))"
  using assms unfolding bridge_ok_def wf_buffer_def Let_def by blast

text \<open>C18: the fixed-size state keeps its sizes in every reachable state: the receive buffer has the maximum
  datagram size, a shim has one bridge per client, every bridge sends to the client it is listed
  under and is connected to the server of its shim, and its frame buffer has a length field of four
  bytes, an offset within bounds and, while data is read, room for exactly the announced length.\<close>

theorem reachable_types:
  assumes "reader_laws (env_reader env) rbits" and "tcp_laws (env_tcp env) unread sent" and "connects env"
    and "reachable env connect_domain p"
  shows "length (recv_buffer p) = MAX_PACKET_SIZE \<and>
    (\<forall>s\<in>set (running p). distinct (map fst (bridges s)) \<and>
      (\<forall>(client, b)\<in>set (bridges s). sp_address (conn_send (raknet b)) = client \<and>
        tu_peer (tcpudp b) = connect_addr s \<and>
        (let buf = partial_packet (tcpudp b) in length (length_bytes buf) = 4 \<and>
          (if reading_length buf then buf_offset buf \<le> 4
           else buf_offset buf \<le> length (buffer buf) \<and>
             length (buffer buf) = unat (le_u32 (length_bytes buf))))))"
proof -
  have p: "program_ok p" using reachable_ok [OF assms] by blast
  have s: "distinct (map fst (bridges s)) \<and> (\<forall>(a, b)\<in>set (bridges s). bridge_ok (connect_addr s) a b)"
    if "s \<in> set (running p)" for s using p that unfolding program_ok_def shim_ok_def by blast
  have l: "length (recv_buffer p) = MAX_PACKET_SIZE" using p unfolding program_ok_def by blast
  have o: "bridge_ok (connect_addr s) client b" if "s \<in> set (running p)" "(client, b) \<in> set (bridges s)"
    for s client b using s [OF that(1)] that(2) by auto
  show ?thesis using l s bridge_ok_types [OF o] by (intro conjI ballI case_prodI2) blast+
qed

theorem reachable_types_witness:
  "\<exists>p. reachable sample_env [97] p \<and> length (recv_buffer p) = MAX_PACKET_SIZE"
  using sample_reachable reachable_types [OF sample_env_laws(1,3,4)] by blast

text \<open>C13: in every reachable state the map of relays is right: the address it gives for a server is the
  loopback address on which a running shim for that server listens, and every running shim's server
  is in the map.\<close>

theorem relays_listen:
  assumes "reader_laws (env_reader env) rbits" and "tcp_laws (env_tcp env) unread sent" and "connects env"
    and "os_laws env" and "reachable env connect_domain p"
  shows "(\<forall>server a. map_of (relay_addrs p) server = Some a \<longrightarrow> addr_ip a = IPv4 127 0 0 1 \<and>
      (\<exists>s\<in>set (running p). connect_addr s = server \<and> udp_local (raknet_socket s) = a)) \<and>
    (\<forall>s\<in>set (running p). \<exists>a. map_of (relay_addrs p) (connect_addr s) = Some a)"
proof -
  have p: "program_ok p" "relays_ok p" using reachable_ok [OF assms(1-3,5)] assms(4) by auto
  have "connect_addr s \<in> fst ` set (relay_addrs p)" if "s \<in> set (running p)" for s
    using p(1) that by (auto simp: program_ok_def)
  then have "\<exists>a. map_of (relay_addrs p) (connect_addr s) = Some a" if "s \<in> set (running p)" for s
    using that by (metis map_of_eq_None_iff not_Some_eq)
  moreover have "addr_ip a = IPv4 127 0 0 1 \<and>
      (\<exists>s\<in>set (running p). connect_addr s = server \<and> udp_local (raknet_socket s) = a)"
    if m: "map_of (relay_addrs p) server = Some a" for server a
  proof -
    obtain s where "s \<in> set (running p)" "shim_ends s = (server, a)"
      using p(2) map_of_SomeD [OF m] by (auto simp: relays_ok_def)
    then show ?thesis using p(2) by (auto simp: relays_ok_def listens_locally_def shim_ends_def)
  qed
  ultimately show ?thesis by blast
qed

lemma run_commands_running:
  "run_commands env cmds p = (Ok (), p') \<Longrightarrow>
   running p' = running p @ map (\<lambda>cmd. case cmd of NewShim a s \<Rightarrow> s) cmds"
proof (induction cmds arbitrary: p)
  case (Cons cmd cmds)
  then show ?case by (cases cmd) (auto simp: then_do_eq_Ok)
qed simp

lemma sample_init:
  "\<exists>s. main_init sample_env [97] 0 = (Ok \<lparr>relay_addrs = [(\<lparr>addr_ip = IPv4 10 0 0 1, addr_port = 21836\<rparr>, localhost 1001)],
     running = [s], recv_buffer = replicate MAX_PACKET_SIZE 0, op_sys = 1\<rparr>, 1)"
  by (auto simp: main_init_def sample_env_def unwrap_first_def shim_new_def Let_def)

theorem relays_listen_witness:
  "\<exists>p s. reachable sample_env [97] p \<and> s \<in> set (running p) \<and>
    connect_addr s = \<lparr>addr_ip = IPv4 10 0 0 1, addr_port = 21836\<rparr> \<and> udp_local (raknet_socket s) = localhost 1001"
proof -
  obtain s where "main_init sample_env [97] 0 = (Ok \<lparr>relay_addrs =
      [(\<lparr>addr_ip = IPv4 10 0 0 1, addr_port = 21836\<rparr>, localhost 1001)], running = [s],
      recv_buffer = replicate MAX_PACKET_SIZE 0, op_sys = 1\<rparr>, 1)" (is "_ = (Ok ?p, 1)")
    using sample_init by blast
  then have r: "reachable sample_env [97] ?p" by (rule reachable.start)
  have "map_of (relay_addrs ?p) \<lparr>addr_ip = IPv4 10 0 0 1, addr_port = 21836\<rparr> = Some (localhost 1001)" by simp
  then obtain s' where "s' \<in> set (running ?p)" "connect_addr s' = \<lparr>addr_ip = IPv4 10 0 0 1, addr_port = 21836\<rparr>"
    "udp_local (raknet_socket s') = localhost 1001"
    using relays_listen [OF sample_env_laws(1,3,4,5) r] by blast
  then show ?thesis using r by blast
qed

lemma main_turn_Ok:
  assumes "main_turn env p = Some (Ok (), p')"
    and "step_shims env (relay_addrs p) (running p) (recv_buffer p, op_sys p) = Some (Ok cmds, ss, BUF, os)"
  shows "run_commands env cmds (p\<lparr>running := ss, recv_buffer := BUF, op_sys := os\<rparr>) = (Ok (), p')"
  using assms by (simp add: main_turn_def)

lemma main_turn_steps:
  assumes "main_turn env p = Some (Ok (), p')"
  shows "\<exists>cmds ss BUF os. step_shims env (relay_addrs p) (running p) (recv_buffer p, op_sys p) =
    Some (Ok cmds, ss, BUF, os)"
proof -
  obtain r ss BUF os where r: "step_shims env (relay_addrs p) (running p) (recv_buffer p, op_sys p) =
      Some (r, ss, BUF, os)" using assms by (auto simp: main_turn_def)
  then show ?thesis using assms by (cases r) (auto simp: main_turn_def)
qed

text \<open>What became of a packet \<open>p\<close> from the server when \<open>q\<close> was sent on: a redirect points to a shim of
  \<open>shims\<close> that listens on the loopback device and relays to the server the original address resolves
  to; any other packet is sent as it is.\<close>

definition points_to_relay ::
  "('os, 'tcp, 'r, 'w) env \<Rightarrow> 'tcp shim list \<Rightarrow> packet \<Rightarrow> packet \<Rightarrow> bool" where
  "points_to_relay env shims p q \<longleftrightarrow>
     (case target_at p of
        None \<Rightarrow> q = p
      | Some (h, k) \<Rightarrow> \<exists>s\<in>set shims. \<exists>t rest os os'.
          addr_ip (udp_local (raknet_socket s)) = IPv4 127 0 0 1 \<and>
          read_target env h k (data p) = Ok t \<and> os_resolve env t os = (Ok (connect_addr s # rest), os') \<and>
          read_target env h k (data q) = Ok (localhost_ip, addr_port (udp_local (raknet_socket s))))"

lemma scan_packet_points:
  assumes "os_laws env" and "endio_laws (env_endio env)"
    and "set addrs \<subseteq> shim_ends ` set shims" and "\<forall>s\<in>set shims. listens_locally s"
    and "scan_packet env addrs p os = (Ok (q, new), os')"
    and "\<forall>a s. NewShim a s \<in> set new \<longrightarrow> s \<in> set shims"
  shows "points_to_relay env shims p q"
proof (cases "target_at p")
  case None
  then show ?thesis using assms(5) by (simp add: points_to_relay_def scan_packet_eq)
next
  case (Some hk)
  obtain h k where hk: "target_at p = Some (h, k)" using Some by (cases hk) simp
  obtain t a rest os1 and relay :: sock_addr where t: "read_target env h k (data p) = Ok t"
    "os_resolve env t os = (Ok (a # rest), os1)" "find_relay env addrs a os1 = (Ok (relay, new), os')"
    "read_target env h k (data q) = Ok (localhost_ip, addr_port relay)"
    using scan_packet_relay [OF assms(2) hk assms(5)] by blast
  have "\<exists>s\<in>set shims. shim_ends s = (a, relay)"
    using t(3)
  proof (cases rule: find_relay_cases)
    case 1
    then show ?thesis using map_of_SomeD assms(3) by fastforce
  next
    case (2 s)
    then have "udp_local (raknet_socket s) = relay"
      using os_laws.local_addr_ok [OF assms(1)] by (simp add: local_addr_def)
    moreover have "s \<in> set shims" using 2(2) assms(6) by simp
    ultimately show ?thesis using 2(3) by (auto simp: shim_ends_def)
  qed
  then obtain s where s: "s \<in> set shims" "connect_addr s = a" "udp_local (raknet_socket s) = relay"
    by (auto simp: shim_ends_def)
  then have "addr_ip relay = IPv4 127 0 0 1" using assms(4) by (auto simp: listens_locally_def shim_ends_def)
  then show ?thesis using s t(1,2,4) unfolding points_to_relay_def hk option.case prod.case by blast
qed

text \<open>A bridge that a step of a shim keeps, and a shim that a turn steps.\<close>

lemma shim_step_bridge:
  assumes "shim_step env addrs (BUF, s, os) = Some (Ok cmds, BUF', s', os')"
    and "(a, b') \<in> set (bridges s')"
  shows "\<exists>BUF1 s1 os1 b B1 os2 u1 ps qs B2 new os3 u2.
    shim_raknet_receive env (BUF, s, os) = Some (Ok (), BUF1, s1, os1) \<and> (a, b) \<in> set (bridges s1) \<and>
    tu_receive (env_endio env) (env_tcp env) (B1, tcpudp b) = Some (Ok ps, B2, tcpudp b') \<and>
    scan_packets env addrs ps os2 = (Ok (qs, new), os3) \<and> set new \<subseteq> set cmds \<and>
    sent_more (raknet_socket s1) u1 \<and>
    connection_send (env_checks env) (env_writer env) qs (raknet b, u1) = (Ok (), raknet b', u2) \<and>
    sent_more u2 (raknet_socket s')"
proof -
  obtain BUF1 s1 os1 where 1: "shim_raknet_receive env (BUF, s, os) = Some (Ok (), BUF1, s1, os1)"
    using assms(1) by (auto simp: shim_step_def split: option.splits res.splits)
  then obtain r B u where 2: "retain_bridges env addrs (bridges s1) (BUF1, os1, raknet_socket s1) = Some (r, B, os', u)"
    "map_res snd r = Ok cmds" "s' = s1\<lparr>raknet_socket := u, bridges := (case r of Ok (bs, _) \<Rightarrow> bs | _ \<Rightarrow> bridges s1)\<rparr>"
    using assms(1) by (auto simp: shim_step_def)
  then obtain kept where k: "r = Ok (kept, cmds)" "bridges s' = kept" "raknet_socket s' = u" by (cases r) auto
  obtain b B1 os2 u1 new B2 os3 u2 where "(a, b) \<in> set (bridges s1)" "sent_more (raknet_socket s1) u1"
    "bridge_tcpudp_receive env addrs (B1, os2, u1, b) = Some (Ok new, B2, os3, u2, b')"
    "sent_more u2 u" "set new \<subseteq> set cmds"
    using retain_bridges_one [OF 2(1) [unfolded k(1)], of a b'] assms(2) unfolding k(2) by metis
  then show ?thesis using bridge_tcpudp_receive_sends [of env addrs B1 os2 u1 b new B2 os3 u2 b'] 1 k(3) by blast
qed

lemma step_shims_one:
  assumes "step_shims env addrs ss (BUF, os) = Some (Ok cmds, ss', BUF', os')" and "s' \<in> set ss'"
  shows "\<exists>s B1 os1 B2 os2 new. s \<in> set ss \<and>
    shim_step env addrs (B1, s, os1) = Some (Ok new, B2, s', os2) \<and> set new \<subseteq> set cmds"
  using assms
proof (induction ss arbitrary: BUF os cmds ss')
  case (Cons s ss)
  obtain new B1 s1 os1 where 1: "shim_step env addrs (BUF, s, os) = Some (Ok new, B1, s1, os1)"
    using Cons.prems(1) by (auto split: option.splits res.splits)
  then obtain r ss2 where "step_shims env addrs ss (B1, os1) = Some (r, ss2, BUF', os')"
    "map_res (\<lambda>more. new @ more) r = Ok cmds" "ss' = s1 # ss2"
    using Cons.prems(1) by auto
  then obtain more where 2: "step_shims env addrs ss (B1, os1) = Some (Ok more, ss2, BUF', os')"
    "cmds = new @ more" "ss' = s1 # ss2" by (cases r) auto
  show ?case
  proof (cases "s' = s1")
    case True
    then show ?thesis using 1 2(2) by fastforce
  next
    case False
    then have "s' \<in> set ss2" using Cons.prems(2) 2(3) by simp
    from Cons.IH [OF 2(1) this] show ?thesis using 2(2) by fastforce
  qed
qed simp

text \<open>C12: a redirect never points nowhere. Take a client whose bridge is kept in a turn that ends well:
  the packets its server sent are read, rewritten and sent on to the client, one for one; and every
  redirect among them then carries the address of a shim that runs after the turn, listens on the
  loopback device and relays to the server the original address resolved to, whether it was running
  before or was started by the commands of this turn. (A bridge that is not kept, since its client or
  its server has failed, sends its client a disconnect notification instead; the shims its rewriting had
  started are lost with the commands.)\<close>

theorem redirects_reach_running_shim:
  assumes "reader_laws (env_reader env) rbits" and "tcp_laws (env_tcp env) unread sent" and "connects env"
    and "os_laws env" and "endio_laws (env_endio env)" and "reachable env connect_domain p"
    and "main_turn env p = Some (Ok (), p')" and "s' \<in> set (running p')" and "(a, b') \<in> set (bridges s')"
  shows "\<exists>s BUF os BUF1 s1 os1 b B1 ps B2 qs u1 u2. s \<in> set (running p) \<and>
    shim_raknet_receive env (BUF, s, os) = Some (Ok (), BUF1, s1, os1) \<and> (a, b) \<in> set (bridges s1) \<and>
    tu_receive (env_endio env) (env_tcp env) (B1, tcpudp b) = Some (Ok ps, B2, tcpudp b') \<and>
    list_all2 (points_to_relay env (running p')) ps qs \<and>
    sent_more (raknet_socket s1) u1 \<and>
    connection_send (env_checks env) (env_writer env) qs (raknet b, u1) = (Ok (), raknet b', u2) \<and>
    sent_more u2 (raknet_socket s')"
proof -
  have p: "program_ok p" "relays_ok p" using reachable_ok [OF assms(1-3,6)] assms(4) by auto
  then have p': "relays_ok p'" using main_turn_total [OF assms(1-3) p(1)] assms(4,7) by auto
  obtain cmds ss BUF' os' where st: "step_shims env (relay_addrs p) (running p) (recv_buffer p, op_sys p) =
      Some (Ok cmds, ss, BUF', os')" using main_turn_steps [OF assms(7)] by blast
  have run: "running p' = ss @ map (\<lambda>cmd. case cmd of NewShim a s \<Rightarrow> s) cmds"
    using run_commands_running [OF main_turn_Ok [OF assms(7) st]] by simp
  have ok: "\<forall>s\<in>set (running p). shim_ok s" using p(1) by (simp add: program_ok_def)
  note tot = step_shims_Ok [OF assms(1-3) ok st]
  have ends: "shim_ends ` set ss = shim_ends ` set (running p)" using arg_cong [OF tot(1), of set] by simp
  have "bridges (case cmd of NewShim a s \<Rightarrow> s) = []" if "cmd \<in> set cmds" for cmd
    using tot(2) that by (cases cmd) (auto simp: fresh_command_def)
  then have "s' \<in> set ss" using assms(8,9) unfolding run set_append set_map by force
  from step_shims_one [OF st this] obtain s B os B2 os2 new where s: "s \<in> set (running p)"
    "shim_step env (relay_addrs p) (B, s, os) = Some (Ok new, B2, s', os2)" "set new \<subseteq> set cmds" by blast
  from shim_step_bridge [OF s(2) assms(9)] obtain BUF1 s1 os1 b B1 os3 u1 ps qs B3 more os4 u2 where
    1: "shim_raknet_receive env (B, s, os) = Some (Ok (), BUF1, s1, os1)" "(a, b) \<in> set (bridges s1)"
    "tu_receive (env_endio env) (env_tcp env) (B1, tcpudp b) = Some (Ok ps, B3, tcpudp b')" and
    2: "scan_packets env (relay_addrs p) ps os3 = (Ok (qs, more), os4)" "set more \<subseteq> set new" and
    3: "sent_more (raknet_socket s1) u1"
    "connection_send (env_checks env) (env_writer env) qs (raknet b, u1) = (Ok (), raknet b', u2)"
    "sent_more u2 (raknet_socket s')" by blast
  have new: "s0 \<in> set (running p')" if "NewShim a0 s0 \<in> set more" for a0 s0
    using that 2(2) s(3) unfolding run by force
  have addrs: "set (relay_addrs p) \<subseteq> shim_ends ` set (running p')" "\<forall>s\<in>set (running p'). listens_locally s"
  proof -
    have "shim_ends ` set (running p) \<subseteq> shim_ends ` set (running p')" unfolding ends [symmetric] run by auto
    then show "set (relay_addrs p) \<subseteq> shim_ends ` set (running p')" using p(2) by (auto simp: relays_ok_def)
    show "\<forall>s\<in>set (running p'). listens_locally s" using p' by (simp add: relays_ok_def)
  qed
  have "list_all2 (points_to_relay env (running p')) ps qs"
    using scan_packets_each [OF 2(1)]
    by (rule list_all2_mono) (use scan_packet_points [OF assms(4,5) addrs] new in blast)
  then show ?thesis using s(1) 1 3 by blast
qed

text \<open>A client connects, its server redirects it to another server, and the redirect is relayed.\<close>

definition redirect_to :: "u16 \<Rightarrow> packet" where
  "redirect_to port = mk_packet ReliableOrdered ([83, 5, 0, 14, 0, 0, 0, 0] @ fix_bytes [97, 46, 98] @ u16_le port)"

lemma redirect_to_target:
  "target_at (redirect_to port) = Some (8, 41)"
  "read_target sample_env 8 41 (data (redirect_to port)) = Ok ([97, 46, 98], port)"
proof -
  show "target_at (redirect_to port) = Some (8, 41)"
    by (simp add: target_at_def redirect_to_def fix_bytes_def)
  have "read_fix (fix_bytes [97, 46, 98] @ u16_le port) = Ok ([97, 46, 98], u16_le port)"
    by (rule read_fix_bytes) simp_all
  moreover have "drop 41 (data (redirect_to port)) = u16_le port"
    by (simp add: redirect_to_def length_fix_bytes)
  moreover have "en_read_u16 le_endio (u16_le port) = Ok (port, [])"
    by (simp add: endio_laws.en_simps [OF le_endio_laws] take_bytes_read_def)
  ultimately show "read_target sample_env 8 41 (data (redirect_to port)) = Ok ([97, 46, 98], port)"
    by (simp add: read_target_def slice_from_def redirect_to_def length_fix_bytes localhost_name_def sample_env_def)
qed

abbreviation lu_server :: "u16 \<Rightarrow> sock_addr" where
  "lu_server port \<equiv> \<lparr>addr_ip = IPv4 10 0 0 1, addr_port = port\<rparr>"

definition stream_of :: "u8 list list \<Rightarrow> script_tcp" where
  "stream_of ds = \<lparr>st_reads = map Inr ds, st_writes = [], st_sent = []\<rparr>"

definition one_client_bridge :: "u8 list list \<Rightarrow> script_tcp bridge" where
  "one_client_bridge ds = bridge_new (connection_new (localhost 5))
     (tu_new (stream_of ds) (udp_idle\<lparr>udp_local := localhost 3000\<rparr>) (lu_server 21836))"

definition one_client :: "u8 list list \<Rightarrow> u8 list \<Rightarrow> (nat, script_tcp) program" where
  "one_client ds BUF = \<lparr>relay_addrs = [(lu_server 21836, localhost 1001)],
     running = [\<lparr>connect_addr = lu_server 21836,
       raknet_socket = udp_idle\<lparr>udp_local := localhost 1001, udp_sent := [(localhost 5, [10, 0])]\<rparr>,
       bridges = [(localhost 5, one_client_bridge ds)]\<rparr>],
     recv_buffer = BUF, op_sys = 2\<rparr>"

lemma shim_receive_idle:
  "udp_inbox (raknet_socket s) = [] \<Longrightarrow> shim_raknet_receive env (BUF, s, os) = Some (Ok (), BUF, s, os)"
  by (simp add: shim_raknet_receive.simps udp_recv_from_def)

lemma one_client_quiet:
  "bridge_tcpudp_receive sample_env addrs (BUF, os, u, one_client_bridge []) =
    Some (Ok [], BUF, os, u, one_client_bridge [])"
  by (simp add: bridge_tcpudp_receive_def tu_receive_def receive_tcp.simps tcp_step_def read_part_def sample_env_def
      script_tcp_def one_client_bridge_def bridge_new_def tu_new_def stream_of_def receive_udp.simps udp_idle_def
      connection_send_def connection_new_def send_packets_def send_acks_def send_part_new_def rl_new_def rl_is_empty_def)

lemma one_client_reachable: "\<exists>BUF. reachable sample_env [97] (one_client ds BUF)"
proof -
  let ?s = "\<lparr>connect_addr = lu_server 21836, raknet_socket = udp_idle\<lparr>udp_local := localhost 1001\<rparr>, bridges = []\<rparr>
    :: script_tcp shim"
  let ?p = "\<lparr>relay_addrs = [(lu_server 21836, localhost 1001)], running = [?s],
      recv_buffer = replicate MAX_PACKET_SIZE 0, op_sys = 1\<rparr> :: (nat, script_tcp) program"
  let ?s' = "?s\<lparr>raknet_socket := udp_idle\<lparr>udp_local := localhost 1001, udp_inbox := [Ok ([9, 0], localhost 5)]\<rparr>\<rparr>"
  let ?p' = "?p\<lparr>running := [?s']\<rparr>"
  let ?B = "[9, 0] @ drop (Suc (Suc 0)) (replicate MAX_PACKET_SIZE (0 :: u8))"
  have "main_init sample_env [97] 0 = (Ok ?p, 1)"
    by (simp add: main_init_def sample_env_def unwrap_first_def shim_new_def Let_def localhost_def)
  then have "reachable sample_env [97] ?p" by (rule reachable.start)
  moreover have "network ?p ?p'"
    by (simp add: network_def same_shim_def shim_ends_def)
  ultimately have r: "reachable sample_env [97] ?p'" by (rule reachable.wait)
  have port: "addr_port (localhost k) = k" for k by (simp add: localhost_def)
  have "shim_raknet_receive sample_env (recv_buffer ?p', ?s', 1) = Some (Ok (), ?B, hd (running (one_client [] ?B)), 2)"
    by (subst shim_raknet_receive.simps)
      (simp add: MAX_PACKET_SIZE_def udp_recv_from_def shim_datagram_def shim_new_client_def create_bridge_def
        tu_connect_def sample_env_def one_client_def one_client_bridge_def shim_send_to_def udp_send_to_def udp_idle_def
        shim_receive_idle stream_of_def port del: drop_replicate)
  then have "main_turn sample_env ?p' = Some (Ok (), one_client [] ?B)"
    by (simp add: main_turn_def shim_step_def one_client_quiet one_client_def)
  then have t: "reachable sample_env [97] (one_client [] ?B)" by (rule reachable.turn [OF r])
  moreover have "network (one_client [] ?B) (one_client ds ?B)"
    by (simp add: network_def one_client_def same_shim_def shim_ends_def same_bridge_def one_client_bridge_def
        bridge_new_def tu_new_def)
  ultimately have "reachable sample_env [97] (one_client ds ?B)" by (rule reachable.wait)
  then show ?thesis by blast
qed

lemma one_client_redirect:
  "\<exists>c. tu_receive le_endio script_tcp (BUF, tcpudp (one_client_bridge [frame (data (redirect_to 1002))])) =
    Some (Ok [redirect_to 1002], BUF, c)"
proof -
  have l: "length (data (redirect_to 1002)) = 43" by (simp add: redirect_to_def length_fix_bytes)
  then have "data (redirect_to 1002) \<noteq> []" "length (data (redirect_to 1002)) < 2 ^ 32" by auto
  from receive_one_frame [OF this] show ?thesis
    by (simp add: one_client_bridge_def bridge_new_def tu_new_def stream_of_def tu_receive_def receive_udp_end udp_idle_def)
      (simp add: redirect_to_def)
qed

lemma one_client_turn:
  "\<exists>b' s s' BUF' n. main_turn sample_env (one_client [frame (data (redirect_to 1002))] BUF) = Some (Ok (),
      \<lparr>relay_addrs = [(lu_server 21836, localhost 1001), (lu_server 1002, localhost 2000)], running = [s, s'],
        recv_buffer = BUF', op_sys = n\<rparr>) \<and>
    bridges s = [(localhost 5, b')] \<and> connect_addr s = lu_server 21836 \<and> connect_addr s' = lu_server 1002"
proof -
  let ?p = "one_client [frame (data (redirect_to 1002))] BUF" and ?b = "one_client_bridge [frame (data (redirect_to 1002))]"
  let ?s = "hd (running ?p)" and ?s' = "\<lparr>connect_addr = lu_server 1002, raknet_socket = udp_idle, bridges = []\<rparr>"
  let ?q = "(redirect_to 1002)\<lparr>data := patched 8 41 2000 (data (redirect_to 1002))\<rparr>"
  obtain c where c: "tu_receive le_endio script_tcp (BUF, tcpudp ?b) = Some (Ok [redirect_to 1002], BUF, c)"
    using one_client_redirect by blast
  have res: "os_resolve sample_env ([97, 46, 98], 1002) 2 = (Ok [lu_server 1002], 2)"
    "os_nonblocking sample_env udp_idle = Ok ()" by (simp_all add: sample_env_def)
  have "find_relay sample_env (relay_addrs ?p) (lu_server 1002) 2 = (Ok (localhost 2000, [NewShim (lu_server 1002) ?s']), 3)"
    using find_relay_new [OF _ sample_bind_free(1) res(2) sample_bind_free(2), of "relay_addrs ?p" "lu_server 1002" 2]
    by (simp add: one_client_def)
  from scan_packet_redirect [OF sample_env_laws(6) redirect_to_target res(1) this]
  have sc: "scan_packets sample_env (relay_addrs ?p) [redirect_to 1002] 2 = (Ok ([?q], [NewShim (lu_server 1002) ?s']), 3)"
    by (simp add: localhost_def)
  have rel: "udp_reliable (raknet_socket ?s)" by (simp add: one_client_def udp_reliable_def udp_idle_def)
  obtain qs sp where o: "process_outgoing_packets [?q] (conn_send (raknet ?b)) = (qs, sp)" by fastforce
  have "\<not> conn_closed (raknet ?b)" by (simp add: one_client_bridge_def bridge_new_def connection_new_def)
  then obtain r u where "connection_send True bits_writer [?q] (raknet ?b, raknet_socket ?s) = (Ok (), r, u)"
    using writer_laws.send_packets_datagrams [OF codec_writer [OF bits_codec] rel o]
    by (simp add: connection_send_def)
  then have "bridge_tcpudp_receive sample_env (relay_addrs ?p) (BUF, 2, raknet_socket ?s, ?b) =
      Some (Ok [NewShim (lu_server 1002) ?s'], BUF, 3, u, ?b\<lparr>tcpudp := c, raknet := r\<rparr>)"
    using c sc by (simp add: bridge_tcpudp_receive_def sample_env_def)
  then have "shim_step sample_env (relay_addrs ?p) (BUF, ?s, 2) = Some (Ok [NewShim (lu_server 1002) ?s'], BUF,
      ?s\<lparr>raknet_socket := u, bridges := [(localhost 5, ?b\<lparr>tcpudp := c, raknet := r\<rparr>)]\<rparr>, 3)"
    by (simp add: shim_step_def shim_receive_idle one_client_def udp_idle_def)
  moreover have "listen_addr sample_env ?s' = Ok (localhost 2000)"
    by (simp add: listen_addr_Ok local_addr_def sample_bind_free)
  ultimately show ?thesis by (simp add: main_turn_def one_client_def)
qed

theorem redirects_reach_running_shim_witness:
  "\<exists>p p' s' b' b B1 B2 ps qs. reachable sample_env [97] p \<and> main_turn sample_env p = Some (Ok (), p') \<and>
    s' \<in> set (running p') \<and> (localhost 5, b') \<in> set (bridges s') \<and>
    tu_receive le_endio script_tcp (B1, tcpudp (b :: script_tcp bridge)) = Some (Ok ps, B2, tcpudp b') \<and>
    ps = [redirect_to 1002] \<and> list_all2 (points_to_relay sample_env (running p')) ps qs \<and>
    map connect_addr (running p) = [lu_server 21836] \<and> map connect_addr (running p') = [lu_server 21836, lu_server 1002]"
proof -
  let ?ds = "[frame (data (redirect_to 1002))]"
  obtain BUF where r: "reachable sample_env [97] (one_client ?ds BUF)" using one_client_reachable by blast
  obtain b' s s' BUF' n where t: "main_turn sample_env (one_client ?ds BUF) = Some (Ok (),
      \<lparr>relay_addrs = [(lu_server 21836, localhost 1001), (lu_server 1002, localhost 2000)], running = [s, s'],
        recv_buffer = BUF', op_sys = n\<rparr>)" (is "_ = Some (Ok (), ?p')")
    "bridges s = [(localhost 5, b')]" "connect_addr s = lu_server 21836" "connect_addr s' = lu_server 1002"
    using one_client_turn [of BUF] by blast
  have m: "s \<in> set (running ?p')" "(localhost 5, b') \<in> set (bridges s)" using t(2) by simp_all
  from redirects_reach_running_shim [OF sample_env_laws(1,3-6) r t(1) m] obtain s0 B os B0 s1 os1 b B1 ps B2 qs u1 u2 where
    x: "s0 \<in> set (running (one_client ?ds BUF))"
    "shim_raknet_receive sample_env (B, s0, os) = Some (Ok (), B0, s1, os1)" "(localhost 5, b) \<in> set (bridges s1)"
    "tu_receive (env_endio sample_env) (env_tcp sample_env) (B1, tcpudp b) = Some (Ok ps, B2, tcpudp b')"
    "list_all2 (points_to_relay sample_env (running ?p')) ps qs" by blast
  have s0: "udp_inbox (raknet_socket s0) = []" "bridges s0 = [(localhost 5, one_client_bridge ?ds)]"
    using x(1) by (auto simp: one_client_def udp_idle_def)
  then have "b = one_client_bridge ?ds" using x(2,3) by (auto simp: shim_receive_idle)
  then have "ps = [redirect_to 1002]"
    using x(4) one_client_redirect [of B1] by (auto simp: sample_env_def)
  moreover have "tu_receive le_endio script_tcp (B1, tcpudp b) = Some (Ok ps, B2, tcpudp b')"
    using x(4) by (simp add: sample_env_def)
  moreover have "map connect_addr (running (one_client ?ds BUF)) = [lu_server 21836]"
    "map connect_addr (running ?p') = [lu_server 21836, lu_server 1002]"
    using t(3,4) by (simp_all add: one_client_def)
  ultimately show ?thesis using r t(1) m x(5)
    by - (rule exI [of _ "one_client ?ds BUF"], rule exI [of _ ?p'], rule exI [of _ s], rule exI [of _ b'],
        rule exI [of _ b], rule exI [of _ B1], rule exI [of _ B2], rule exI [of _ ps], rule exI [of _ qs],
        intro conjI)
qed

end
