(* ===== verification/Tls.thy ===== *)
theory Tls
  imports Program
begin

text \<open>
  \<open>src/tcpudp/tls.rs\<close>: the TLS stream in the place of a TCP stream. The session comes from the crate
  \<open>rustls\<close> and the check of the domain name from \<open>webpki\<close>: they and the socket below are the parameter
  \<open>tls\<close>. Connecting waits for the handshake in two nested loops, which need not end. The lemmas say
  when it ends and what it returns, and what a handshake that stalls does to the program.
\<close>

section \<open>The session and the socket\<close>

text \<open>\<open>StreamOwned\<close> owns a session and a socket. What the peer and the network do to the socket in the
  meantime is part of the result of the operations on it.\<close>

record ('sess, 'sock) tls_stream =
  ts_sess :: 'sess
  ts_sock :: 'sock

text \<open>\<open>fs::read_to_string\<close>, \<open>DNSNameRef::try_from_ascii_str(_).is_ok()\<close>, \<open>ClientSession::new\<close> with the
  configuration of the trusted roots, the operations of \<open>TcpStream\<close>, \<open>is_handshaking\<close>, \<open>complete_io\<close>,
  and reading and writing through both.\<close>

record ('os, 'sess, 'sock) tls =
  read_config :: "'os \<Rightarrow> u8 list res \<times> 'os"
  valid_dns_name :: "u8 list \<Rightarrow> bool"
  session_new :: "u8 list \<Rightarrow> 'sess"
  sock_connect :: "sock_addr \<Rightarrow> 'os \<Rightarrow> 'sock res \<times> 'os"
  sock_nonblocking :: "bool \<Rightarrow> 'sock \<Rightarrow> unit res"
  sock_local_addr :: "'sock \<Rightarrow> sock_addr res"
  is_handshaking :: "'sess \<Rightarrow> bool"
  complete_io :: "('sess, 'sock) tls_stream \<Rightarrow> (nat \<times> nat) res \<times> ('sess, 'sock) tls_stream"
  stream_read :: "nat \<Rightarrow> ('sess, 'sock) tls_stream \<Rightarrow> u8 list res \<times> ('sess, 'sock) tls_stream"
  stream_write :: "u8 list \<Rightarrow> ('sess, 'sock) tls_stream \<Rightarrow> nat res \<times> ('sess, 'sock) tls_stream"

section \<open>Connecting\<close>

text \<open>\<open>lu.lcdruniverse.org\<close>\<close>

definition default_domain :: "u8 list" where
  "default_domain = map of_char ''lu.lcdruniverse.org''"

definition config_domain :: "u8 list res \<Rightarrow> u8 list res" where
  "config_domain r = (case r of Ok s \<Rightarrow> Ok s | Err _ \<Rightarrow> Ok default_domain | Panic \<Rightarrow> Panic)"

text \<open>\<open>while let Err(e) = stream.sess.complete_io(&mut stream.sock)\<close>; the sleep is left out.\<close>

partial_function (option) complete_loop ::
  "('os, 'sess, 'sock) tls \<Rightarrow> ('sess, 'sock) tls_stream \<Rightarrow> (unit res \<times> ('sess, 'sock) tls_stream) option" where
  "complete_loop T s =
     (case complete_io T s of
        (Ok _, s) \<Rightarrow> Some (Ok (), s)
      | (Err e, s) \<Rightarrow> if e \<noteq> WouldBlock then Some (Err e, s) else complete_loop T s
      | (Panic, s) \<Rightarrow> Some (Panic, s))"

text \<open>\<open>while stream.sess.is_handshaking()\<close>\<close>

partial_function (option) handshake_loop ::
  "('os, 'sess, 'sock) tls \<Rightarrow> ('sess, 'sock) tls_stream \<Rightarrow> (unit res \<times> ('sess, 'sock) tls_stream) option" where
  "handshake_loop T s =
     (if is_handshaking T (ts_sess s) then
        (case complete_loop T s of
           None \<Rightarrow> None
         | Some (Ok _, s) \<Rightarrow> handshake_loop T s
         | Some (r, s) \<Rightarrow> Some (r, s))
      else Some (Ok (), s))"

text \<open>The part of \<open>Tcp::connect\<close> before the loops: a stream with a new session.\<close>

definition open_stream ::
  "('os, 'sess, 'sock) tls \<Rightarrow> sock_addr \<Rightarrow> 'os \<Rightarrow> ('sess, 'sock) tls_stream res \<times> 'os" where
  "open_stream T addr os =
     (case read_config T os of (r, os) \<Rightarrow>
      then_do (config_domain r, os) (\<lambda>connect_domain os.
      then_do (if valid_dns_name T connect_domain then Ok connect_domain else Panic, os) (\<lambda>dns_name os.
        let sess = session_new T dns_name in
      then_do (sock_connect T addr os) (\<lambda>sock os.
      then_do (sock_nonblocking T True sock, os) (\<lambda>_ os.
        (Ok \<lparr>ts_sess = sess, ts_sock = sock\<rparr>, os))))))"

text \<open>\<open>Tcp::connect\<close>\<close>

definition tls_connect ::
  "('os, 'sess, 'sock) tls \<Rightarrow> sock_addr \<Rightarrow> 'os \<Rightarrow> (('sess, 'sock) tls_stream res \<times> 'os) option" where
  "tls_connect T addr os =
     (case open_stream T addr os of
        (Ok s, os) \<Rightarrow> map_option (\<lambda>(r, s). (map_res (\<lambda>_. s) r, os)) (handshake_loop T s)
      | (r, os) \<Rightarrow> Some (r, os))"

section \<open>The stream once connected\<close>

definition tls_local_addr :: "('os, 'sess, 'sock) tls \<Rightarrow> ('sess, 'sock) tls_stream \<Rightarrow> sock_addr res" where
  "tls_local_addr T s = sock_local_addr T (ts_sock s)"

definition tls_set_nonblocking ::
  "('os, 'sess, 'sock) tls \<Rightarrow> bool \<Rightarrow> ('sess, 'sock) tls_stream \<Rightarrow> unit res" where
  "tls_set_nonblocking T nonblocking s = sock_nonblocking T nonblocking (ts_sock s)"

text \<open>\<open>impl Read for Tcp\<close> and \<open>impl Write for Tcp\<close>\<close>

definition tls_tcp :: "('os, 'sess, 'sock) tls \<Rightarrow> ('sess, 'sock) tls_stream tcp_ops" where
  "tls_tcp T = \<lparr>tcp_read = stream_read T, tcp_write = stream_write T\<rparr>"

text \<open>The program with this stream: an environment whose stream is \<open>Tcp\<close>.\<close>

definition tls_env ::
  "('os, 'sess, 'sock) tls \<Rightarrow> ('os, 'x, 'r, 'w) env \<Rightarrow> ('os, ('sess, 'sock) tls_stream, 'r, 'w) env" where
  "tls_env T env =
     \<lparr>env_checks = env_checks env, env_reader = env_reader env, env_writer = env_writer env,
      env_endio = env_endio env, env_tcp = tls_tcp T, os_resolve = os_resolve env, os_bind = os_bind env,
      os_local_addr = os_local_addr env, os_nonblocking = os_nonblocking env, os_clone = os_clone env,
      os_udp_connect = os_udp_connect env, os_tcp_connect = tls_connect T,
      os_tcp_local_addr = tls_local_addr T, os_tcp_nonblocking = tls_set_nonblocking T True\<rparr>"

lemma tls_env_simps [simp]:
  "env_reader (tls_env T env) = env_reader env" "env_writer (tls_env T env) = env_writer env"
  "env_endio (tls_env T env) = env_endio env" "env_tcp (tls_env T env) = tls_tcp T"
  "os_clone (tls_env T env) = os_clone env" "os_tcp_connect (tls_env T env) = tls_connect T"
  by (simp_all add: tls_env_def)

section \<open>The handshake\<close>

text \<open>The reference: calls of \<open>complete_io\<close> that would block, one after the other.\<close>

inductive waits ::
  "('os, 'sess, 'sock) tls \<Rightarrow> ('sess, 'sock) tls_stream \<Rightarrow> ('sess, 'sock) tls_stream \<Rightarrow> bool"
  for T :: "('os, 'sess, 'sock) tls" where
  waits_refl: "waits T s s"
| waits_step: "complete_io T s = (Err WouldBlock, s1) \<Longrightarrow> waits T s1 s2 \<Longrightarrow> waits T s s2"

text \<open>What \<open>rustls\<close> documents of \<open>complete_io\<close> while the handshake is going on: it returns \<open>Ok\<close> only when the
  handshake is complete; when it would block the handshake is still going on.\<close>

locale tls_session_laws =
  fixes T :: "('os, 'sess, 'sock) tls"
  assumes complete_io_ok: "is_handshaking T (ts_sess s) \<Longrightarrow> complete_io T s = (Ok n, s') \<Longrightarrow>
      \<not> is_handshaking T (ts_sess s')"
    and complete_io_blocks: "is_handshaking T (ts_sess s) \<Longrightarrow> complete_io T s = (Err WouldBlock, s') \<Longrightarrow>
      is_handshaking T (ts_sess s')"

text \<open>And what an end of the handshake needs of the peer and the network: it blocks only finitely often,
  of which \<open>rank\<close> is a bound.\<close>

locale tls_progress = tls_session_laws T
  for T :: "('os, 'sess, 'sock) tls" +
  fixes rank :: "('sess, 'sock) tls_stream \<Rightarrow> nat"
  assumes complete_io_progress: "is_handshaking T (ts_sess s) \<Longrightarrow> complete_io T s = (Err WouldBlock, s') \<Longrightarrow>
      rank s' < rank s"

lemma complete_loop_waits:
  "waits T s s1 \<Longrightarrow> complete_io T s1 = (r, s2) \<Longrightarrow> r \<noteq> Err WouldBlock \<Longrightarrow>
   complete_loop T s = Some (map_res (\<lambda>_. ()) r, s2)"
proof (induction rule: waits.induct)
  case (waits_refl s)
  then show ?case by (cases r) (auto simp: complete_loop.simps [of T s])
next
  case (waits_step s s1 s3)
  then show ?case by (simp add: complete_loop.simps [of T s])
qed

context tls_session_laws
begin

lemma handshake_loop_waits:
  assumes "is_handshaking T (ts_sess s)" and "waits T s s1" and "complete_io T s1 = (r, s2)"
    and "r \<noteq> Err WouldBlock"
  shows "handshake_loop T s = Some (map_res (\<lambda>_. ()) r, s2) \<and> (\<forall>n. r = Ok n \<longrightarrow> \<not> is_handshaking T (ts_sess s2))"
proof -
  have "is_handshaking T (ts_sess s1)" using assms(2,1) by induction (auto dest: complete_io_blocks)
  then have n: "\<forall>n. r = Ok n \<longrightarrow> \<not> is_handshaking T (ts_sess s2)" using complete_io_ok assms(3) by blast
  show ?thesis using complete_loop_waits [OF assms(2-4)] assms(1) n
    by (cases r) (auto simp: handshake_loop.simps [of T s] handshake_loop.simps [of T s2])
qed

end

context tls_progress
begin

lemma waits_ends:
  assumes "is_handshaking T (ts_sess s)"
  shows "\<exists>s1 r s2. waits T s s1 \<and> complete_io T s1 = (r, s2) \<and> r \<noteq> Err WouldBlock"
  using assms
proof (induction "rank s" arbitrary: s rule: less_induct)
  case less
  obtain r s1 where c: "complete_io T s = (r, s1)" by fastforce
  show ?case
  proof (cases "r = Err WouldBlock")
    case True
    then have "complete_io T s = (Err WouldBlock, s1)" using c by simp
    then show ?thesis
      using less.hyps [OF complete_io_progress [OF less.prems] complete_io_blocks [OF less.prems]]
      by (blast intro: waits_step)
  next
    case False
    then show ?thesis using c by (blast intro: waits_refl)
  qed
qed

lemma tls_connect_ends: "tls_connect T addr os \<noteq> None"
proof (cases "open_stream T addr os")
  case (Pair r os')
  show ?thesis
  proof (cases r)
    case (Ok s)
    show ?thesis
    proof (cases "is_handshaking T (ts_sess s)")
      case True
      obtain s1 r1 s2 where "waits T s s1" "complete_io T s1 = (r1, s2)" "r1 \<noteq> Err WouldBlock"
        using waits_ends [OF True] by blast
      from handshake_loop_waits [OF True this] show ?thesis by (simp add: tls_connect_def Pair Ok)
    qed (simp add: tls_connect_def Pair Ok handshake_loop.simps [of T s])
  qed (simp_all add: tls_connect_def Pair)
qed

lemma tls_connects: "connects (tls_env T env)"
  using tls_connect_ends by (simp add: connects_def)

end

section \<open>A handshake that stalls\<close>

text \<open>\<open>stuck\<close> streams would block on every call.\<close>

definition stalls :: "('os, 'sess, 'sock) tls \<Rightarrow> (('sess, 'sock) tls_stream \<Rightarrow> bool) \<Rightarrow> bool" where
  "stalls T stuck \<longleftrightarrow>
     (\<forall>s. stuck s \<longrightarrow> is_handshaking T (ts_sess s) \<and> (\<exists>s'. complete_io T s = (Err WouldBlock, s') \<and> stuck s'))"

lemma complete_loop_not_stuck:
  fixes T :: "('os, 'sess, 'sock) tls"
  assumes "complete_loop T s = Some y"
  shows "stalls T stuck \<longrightarrow> \<not> stuck s"
  using _ assms
proof (rule complete_loop.raw_induct [where P = "\<lambda>T s y. stalls T stuck \<longrightarrow> \<not> stuck s"])
  fix f and T :: "('os, 'sess, 'sock) tls" and s y
  assume IH: "\<And>T s y. f T s = Some y \<Longrightarrow> stalls T stuck \<longrightarrow> \<not> stuck s"
    and step: "(case complete_io T s of (Ok _, s) \<Rightarrow> Some (Ok (), s)
      | (Err e, s) \<Rightarrow> if e \<noteq> WouldBlock then Some (Err e, s) else f T s
      | (Panic, s) \<Rightarrow> Some (Panic, s)) = Some y"
  show "stalls T stuck \<longrightarrow> \<not> stuck s"
  proof (intro impI notI)
    assume st: "stalls T stuck" "stuck s"
    then obtain s' where s': "complete_io T s = (Err WouldBlock, s')" "stuck s'"
      unfolding stalls_def by blast
    then have "f T s' = Some y" using step by simp
    then show False using IH st(1) s'(2) by blast
  qed
qed

lemma tls_connect_stalls:
  assumes "stalls T stuck" and "open_stream T addr os = (Ok s, os')" and "stuck s"
  shows "tls_connect T addr os = None"
proof -
  have "complete_loop T s = None" using complete_loop_not_stuck assms(1,3) by (metis not_Some_eq)
  moreover have "is_handshaking T (ts_sess s)" using assms(1,3) by (auto simp: stalls_def)
  ultimately show ?thesis using assms(2) by (simp add: tls_connect_def handshake_loop.simps [of T s])
qed

section \<open>A stream given by a script\<close>

text \<open>The session counts the rounds of the handshake that are left; the socket has a script of errors
  of \<open>complete_io\<close> to come and a stream for the data. A handshake with no more errors to come succeeds.\<close>

type_synonym script_sock = "io_error list \<times> script_tcp"

fun script_complete_io ::
  "(nat, script_sock) tls_stream \<Rightarrow> (nat \<times> nat) res \<times> (nat, script_sock) tls_stream" where
  "script_complete_io s =
     (case ts_sock s of
        ([], t) \<Rightarrow> (Ok (0, 0), s\<lparr>ts_sess := 0\<rparr>)
      | (e # es, t) \<Rightarrow> (Err e, s\<lparr>ts_sock := (es, t)\<rparr>))"

definition script_tls :: "io_error list \<Rightarrow> (nat, nat, script_sock) tls" where
  "script_tls script =
     \<lparr>read_config = (\<lambda>n. (Err (OtherError 2), n)), valid_dns_name = (\<lambda>bs. bs \<noteq> []), session_new = (\<lambda>_. 1),
      sock_connect = (\<lambda>a n. (Ok (script, \<lparr>st_reads = [], st_writes = [], st_sent = []\<rparr>), n + 1)),
      sock_nonblocking = (\<lambda>_ _. Ok ()), sock_local_addr = (\<lambda>_. Ok (localhost 3000)),
      is_handshaking = (\<lambda>n. n \<noteq> 0), complete_io = script_complete_io,
      stream_read = (\<lambda>n s. case tcp_read script_tcp n (snd (ts_sock s)) of
        (r, t) \<Rightarrow> (r, s\<lparr>ts_sock := (fst (ts_sock s), t)\<rparr>)),
      stream_write = (\<lambda>bs s. case tcp_write script_tcp bs (snd (ts_sock s)) of
        (r, t) \<Rightarrow> (r, s\<lparr>ts_sock := (fst (ts_sock s), t)\<rparr>))\<rparr>"

lemma script_tls_progress: "tls_progress (script_tls script) (\<lambda>s. length (fst (ts_sock s)))"
  by unfold_locales (auto simp: script_tls_def split: prod.splits list.splits)

interpretation script_tls: tls_progress "script_tls script" "\<lambda>s. length (fst (ts_sock s))"
  by (rule script_tls_progress)

lemma script_tls_tcp_laws:
  "tcp_laws (tls_tcp (script_tls script)) (\<lambda>s. st_unread (snd (ts_sock s))) (\<lambda>s. st_sent (snd (ts_sock s)))"
  by unfold_locales
    (auto simp: tls_tcp_def script_tls_def split: prod.splits
      dest: script.read_ok script.read_err script.write_ok script.write_err
      simp: script.read_panic script.write_panic)

interpretation script_tls_tcp: tcp_laws "tls_tcp (script_tls script)"
    "\<lambda>s. st_unread (snd (ts_sock s))" "\<lambda>s. st_sent (snd (ts_sock s))"
  by (rule script_tls_tcp_laws)

lemma script_tls_open:
  "open_stream (script_tls script) addr n =
    (Ok \<lparr>ts_sess = 1, ts_sock = (script, \<lparr>st_reads = [], st_writes = [], st_sent = []\<rparr>)\<rparr>, n + 1)"
  by (simp add: open_stream_def script_tls_def config_domain_def default_domain_def)

section \<open>Properties\<close>

text \<open>C19: once the socket is connected the handshake is waited for: calls of \<open>complete_io\<close> that would block
  are repeated, and the first that does not decides. If it succeeds the stream is returned with its
  handshake complete; any other error is returned, never \<open>WouldBlock\<close>.\<close>

theorem tls_connect_outcome:
  assumes "tls_session_laws T" and "open_stream T addr os = (Ok s, os')"
    and "is_handshaking T (ts_sess s)" and "waits T s s1" and "complete_io T s1 = (r, s2)"
    and "r \<noteq> Err WouldBlock"
  shows "tls_connect T addr os = Some (map_res (\<lambda>_. s2) r, os') \<and>
    (\<forall>n. r = Ok n \<longrightarrow> \<not> is_handshaking T (ts_sess s2))"
  using tls_session_laws.handshake_loop_waits [OF assms(1,3-6)] assms(2)
  by (cases r) (simp_all add: tls_connect_def)

theorem tls_connect_outcome_witness:
  "\<exists>s. tls_connect (script_tls [WouldBlock, WouldBlock]) (localhost 1) 0 = Some (Ok s, 1) \<and> ts_sess s = 0"
proof -
  let ?T = "script_tls [WouldBlock, WouldBlock]"
  let ?t = "\<lparr>st_reads = [], st_writes = [], st_sent = []\<rparr> :: script_tcp"
  let ?s = "\<lambda>es. \<lparr>ts_sess = 1 :: nat, ts_sock = (es, ?t)\<rparr>"
  have b: "complete_io ?T (?s (WouldBlock # es)) = (Err WouldBlock, ?s es)" for es
    by (simp add: script_tls_def)
  have "waits ?T (?s [WouldBlock, WouldBlock]) (?s [])"
    by (rule waits_step [OF b waits_step [OF b waits_refl]])
  moreover have "complete_io ?T (?s []) = (Ok (0, 0), \<lparr>ts_sess = 0, ts_sock = ([], ?t)\<rparr>)"
    "is_handshaking ?T (ts_sess (?s [WouldBlock, WouldBlock]))" by (simp_all add: script_tls_def)
  ultimately show ?thesis
    using tls_connect_outcome [OF script_tls.tls_session_laws_axioms script_tls_open, of "[WouldBlock, WouldBlock]"
        "?s []" "Ok (0, 0)" _ "localhost 1" 0] by simp
qed

text \<open>C15: with a session and a network on which handshakes make progress, connecting always returns, and
  so does every turn of the main loop of the program that runs over TLS.\<close>

theorem tls_program_turns_end:
  assumes "tls_progress T rank" and "reader_laws (env_reader env) rbits" and "tcp_laws (tls_tcp T) unread sent"
    and "reachable (tls_env T env) connect_domain p"
  shows "tls_connect T addr os \<noteq> None \<and> (\<exists>r p'. main_turn (tls_env T env) p = Some (r, p') \<and> program_ok p')"
proof -
  have c: "connects (tls_env T env)" by (rule tls_progress.tls_connects [OF assms(1)])
  have laws: "reader_laws (env_reader (tls_env T env)) rbits" "tcp_laws (env_tcp (tls_env T env)) unread sent"
    using assms(2,3) by simp_all
  from reachable_ok [OF laws c assms(4)] main_turn_total [OF laws c] show ?thesis
    using tls_progress.tls_connect_ends [OF assms(1)] by blast
qed

theorem tls_program_turns_end_witness:
  "\<exists>p r p'. reachable (tls_env (script_tls [WouldBlock]) sample_env) [97] p \<and>
    main_turn (tls_env (script_tls [WouldBlock]) sample_env) p = Some (r, p')"
proof -
  let ?env = "tls_env (script_tls [WouldBlock]) sample_env"
  obtain p os' where "main_init ?env [97] 0 = (Ok p, os')"
    by (auto simp: main_init_def tls_env_def sample_env_def unwrap_first_def shim_new_def Let_def)
  then have r: "reachable ?env [97] p" by (rule reachable.start)
  from tls_program_turns_end [OF script_tls_progress sample_env_laws(1) script_tls_tcp_laws this]
  show ?thesis using r by blast
qed

text \<open>C17: the handshake is waited for in the one thread of the program. If a server accepts the
  connection but never goes on with the handshake, the turn in which a client asks for it never
  ends, and with it all relaying for all other clients.\<close>

theorem stalled_handshake_hangs:
  assumes "stalls T stuck" and "running p = shim # others"
    and "udp_inbox (raknet_socket shim) = Ok (d, source) # waiting"
    and "map_of (bridges shim) source = None" and "d = [9] \<or> (\<exists>x. d = [9, x])"
    and "2 \<le> length (recv_buffer p)" and "\<And>u. os_clone env u = Ok ()"
    and "open_stream T (connect_addr shim) (op_sys p) = (Ok s, os')" and "stuck s"
  shows "main_turn (tls_env T env) p = None"
proof -
  let ?env = "tls_env T env" and ?u = "(raknet_socket shim)\<lparr>udp_inbox := waiting\<rparr>"
  have d: "take (length (recv_buffer p)) d = d" "length d \<le> 2" "d \<noteq> []" "hd d = 9"
    using assms(5,6) by auto
  have c: "tls_connect T (connect_addr shim) (op_sys p) = None"
    by (rule tls_connect_stalls [OF assms(1,8,9)])
  have "shim_datagram ?env (d @ drop (length d) (recv_buffer p)) (length d) source
      (shim\<lparr>raknet_socket := ?u\<rparr>, op_sys p) = None"
    using assms(4,7) d(2-4) c
    by (simp add: shim_datagram_def shim_new_client_def create_bridge_def tu_connect_def nth_append hd_conv_nth)
  then have "shim_raknet_receive ?env (recv_buffer p, shim, op_sys p) = None"
    using assms(3) d(1) by (simp add: shim_raknet_receive.simps [of ?env "(recv_buffer p, shim, op_sys p)"] udp_recv_from_def)
  then show ?thesis by (simp add: main_turn_def assms(2) shim_step_def)
qed

text \<open>A server that only lets \<open>complete_io\<close> block.\<close>

definition stalled_tls :: "(nat, nat, script_sock) tls" where
  "stalled_tls = (script_tls [])\<lparr>complete_io := (\<lambda>s. (Err WouldBlock, s))\<rparr>"

theorem stalled_handshake_hangs_witness:
  "main_turn (tls_env stalled_tls sample_env) \<lparr>relay_addrs = [(localhost 21836, localhost 1001)],
    running = [\<lparr>connect_addr = localhost 21836,
      raknet_socket = udp_idle\<lparr>udp_inbox := [Ok ([9, 6], localhost 7)]\<rparr>, bridges = []\<rparr>],
    recv_buffer = replicate 1200 0, op_sys = 0\<rparr> = None"
proof -
  let ?p = "\<lparr>relay_addrs = [(localhost 21836, localhost 1001)],
    running = [\<lparr>connect_addr = localhost 21836,
      raknet_socket = udp_idle\<lparr>udp_inbox := [Ok ([9, 6], localhost 7)]\<rparr>, bridges = []\<rparr>],
    recv_buffer = replicate 1200 0, op_sys = 0\<rparr> :: (nat, (nat, script_sock) tls_stream) program"
  have "stalls stalled_tls (\<lambda>s. ts_sess s = 1)" by (simp add: stalls_def stalled_tls_def script_tls_def)
  moreover have "open_stream stalled_tls (localhost 21836) 0 = (Ok \<lparr>ts_sess = 1,
      ts_sock = ([], \<lparr>st_reads = [], st_writes = [], st_sent = []\<rparr>)\<rparr>, 1)"
    using script_tls_open [of "[]" "localhost 21836" 0] by (simp add: stalled_tls_def open_stream_def)
  ultimately show ?thesis
    using stalled_handshake_hangs [of stalled_tls "\<lambda>s. ts_sess s = 1" ?p "hd (running ?p)" "[]" "[9, 6]" "localhost 7" "[]" sample_env]
    by (simp add: sample_env_def)
qed

end
