(* ===== verification/History.thy ===== *)
theory History
  imports Connection "HOL-Library.Sublist"
begin

text \<open>
  What a sending half makes of all the packets it is ever given, and what a receiving half has done
  with the part of these that has reached it, in whatever order and however often. The history of
  the sender is the list \<open>S\<close> of all packets passed to \<open>send_packets\<close>; a packet of it is written
  \<open>S = pre @ p # post\<close>, so that its indices are the numbers of packets of its kind in \<open>pre\<close>.
\<close>

section \<open>The sender's history\<close>

abbreviation ordered :: "packet list \<Rightarrow> packet list" where
  "ordered S \<equiv> filter (\<lambda>p. reliability p = ReliableOrdered) S"

abbreviation sequenced :: "packet list \<Rightarrow> packet list" where
  "sequenced S \<equiv> filter (\<lambda>p. reliability p = UnreliableSequenced) S"

abbreviation splits :: "packet list \<Rightarrow> packet list" where
  "splits S \<equiv> filter (\<lambda>p. \<not> fits p) S"

abbreviation parts_of :: "packet \<Rightarrow> u8 list list" where
  "parts_of p \<equiv> chunks (chunk_size p) (data p)"

abbreviation split_of :: "packet list \<Rightarrow> u16" where
  "split_of pre \<equiv> of_nat (length (splits pre))"

text \<open>The packets that \<open>p\<close> is sent as after \<open>pre\<close>.\<close>

definition wire :: "sock_addr \<Rightarrow> packet list \<Rightarrow> packet \<Rightarrow> raknet_packet list" where
  "wire a pre p = fst (process_outgoing_packet p (snd (process_outgoing_packets pre (send_part_new a))))"

lemma outgoing_append:
  "process_outgoing_packets (ps @ qs) sp =
    (case process_outgoing_packets ps sp of (xs, sp1) \<Rightarrow>
     case process_outgoing_packets qs sp1 of (ys, sp2) \<Rightarrow> (xs @ ys, sp2))"
  by (induction ps arbitrary: sp) (simp_all split: prod.splits)

lemma next_rel_data_counters:
  "sp_rel_ord_index (snd (next_rel_data rel sp)) = sp_rel_ord_index sp + of_bool (rel = ReliableOrdered)"
  "sp_unrel_seq_index (snd (next_rel_data rel sp)) = sp_unrel_seq_index sp + of_bool (rel = UnreliableSequenced)"
  "sp_address (snd (next_rel_data rel sp)) = sp_address sp"
  by (cases rel; simp add: next_rel_data_def)+

lemma outgoing_counters_one:
  assumes "process_outgoing_packet p sp = (xs, sp')"
  shows "sp_rel_ord_index sp' = sp_rel_ord_index sp + of_bool (reliability p = ReliableOrdered) \<and>
    sp_unrel_seq_index sp' = sp_unrel_seq_index sp + of_bool (reliability p = UnreliableSequenced) \<and>
    sp_split_packet_index sp' = sp_split_packet_index sp + of_bool (\<not> fits p) \<and>
    sp_address sp' = sp_address sp"
proof -
  have r: "next_rel_data (reliability p) sp =
      (fst (next_rel_data (reliability p) sp), snd (next_rel_data (reliability p) sp))" by simp
  have sp': "sp' = snd (process_outgoing_packet p sp)" using assms by simp
  show ?thesis
  proof (cases "fits p")
    case True
    show ?thesis unfolding sp' outgoing_fits [OF True r]
      by (simp add: next_rel_data_counters True del: of_bool_eq_iff)
  next
    case False
    show ?thesis unfolding sp' outgoing_split [OF False r refl]
      by (simp add: next_rel_data_counters False del: of_bool_eq_iff)
  qed
qed

lemma outgoing_counters:
  "process_outgoing_packets S sp = (xs, sp') \<Longrightarrow>
   sp_rel_ord_index sp' = sp_rel_ord_index sp + of_nat (length (ordered S)) \<and>
   sp_unrel_seq_index sp' = sp_unrel_seq_index sp + of_nat (length (sequenced S)) \<and>
   sp_split_packet_index sp' = sp_split_packet_index sp + split_of S \<and>
   sp_address sp' = sp_address sp"
proof (induction S arbitrary: sp xs sp')
  case (Cons p S)
  obtain xs1 sp1 where 1: "process_outgoing_packet p sp = (xs1, sp1)" by fastforce
  obtain xs2 sp2 where 2: "process_outgoing_packets S sp1 = (xs2, sp2)" by fastforce
  show ?case using Cons.prems Cons.IH [OF 2] outgoing_counters_one [OF 1] 1 2 by auto
qed simp

text \<open>The packets sent for the whole history are those of its packets, one after the other.\<close>

lemma outgoing_wire:
  assumes "process_outgoing_packets S (send_part_new a) = (xs, sp)" and "S = pre @ p # post"
  shows "\<exists>ys zs. xs = ys @ wire a pre p @ zs \<and> ys = fst (process_outgoing_packets pre (send_part_new a))"
  using assms by (auto simp: outgoing_append wire_def split: prod.splits)

lemma outgoing_origin:
  assumes "process_outgoing_packets S (send_part_new a) = (xs, sp)" and "x \<in> set xs"
  shows "\<exists>pre p post. S = pre @ p # post \<and> x \<in> set (wire a pre p)"
  using assms
proof (induction S arbitrary: xs sp rule: rev_induct)
  case (snoc p S)
  obtain ys sp1 where y: "process_outgoing_packets S (send_part_new a) = (ys, sp1)" by fastforce
  show ?case
  proof (cases "x \<in> set ys")
    case True
    then obtain pre q post where "S = pre @ q # post" "x \<in> set (wire a pre q)"
      using snoc.IH [OF y] by blast
    then show ?thesis by (intro exI [of _ pre] exI [of _ q] exI [of _ "post @ [p]"]) simp
  next
    case False
    then have "x \<in> set (wire a S p)"
      using snoc.prems y by (auto simp: outgoing_append wire_def split: prod.splits)
    then show ?thesis by blast
  qed
qed simp

text \<open>A packet that is sent belongs to one packet of the history, because its number does.\<close>

lemma outgoing_distinct:
  assumes "process_outgoing_packets S (send_part_new a) = (xs, sp)" and "length xs \<le> 2 ^ 32"
  shows "distinct xs"
proof -
  have "distinct (map (\<lambda>k. 0 + of_nat k :: u32) [0..<length xs])"
    using assms(2) by (auto simp: distinct_map inj_on_def of_nat_u32_eq_iff)
  then have "distinct (map message_number xs)"
    using outgoing_numbers [OF assms(1)] by (simp add: send_part_new_def)
  then show ?thesis by (simp add: distinct_map)
qed

lemma decompositions_less:
  assumes "S = pre @ p # post" and "S = pre' @ p' # post'" and "length pre < length pre'"
  shows "\<exists>us. pre' = pre @ p # us"
proof -
  have "pre' = take (length pre') (pre @ p # post)" using assms by (metis append_eq_conv_conj)
  then have "pre' = pre @ p # take (length pre' - Suc (length pre)) post"
    using assms(3) by (simp add: take_Cons' split: if_splits)
  then show ?thesis by blast
qed

lemma origin_unique:
  assumes "process_outgoing_packets S (send_part_new a) = (xs, sp)" and "distinct xs"
    and "S = pre @ p # post" "x \<in> set (wire a pre p)"
    and "S = pre' @ p' # post'" "x \<in> set (wire a pre' p')"
  shows "pre = pre'"
proof -
  have *: False if le: "length pre < length pre'" and at: "S = pre @ p # post" "S = pre' @ p' # post'"
    and x: "x \<in> set (wire a pre p)" "x \<in> set (wire a pre' p')" for pre p post pre' p' post'
  proof -
    obtain us where us: "pre' = pre @ p # us" using decompositions_less [OF at le] by blast
    obtain ys sp1 where y: "process_outgoing_packets pre' (send_part_new a) = (ys, sp1)" by fastforce
    then have "x \<in> set ys" using outgoing_wire [OF y us] x(1) by auto
    moreover obtain zs where "xs = ys @ wire a pre' p' @ zs"
      using outgoing_wire [OF assms(1) at(2)] y by auto
    ultimately show False using assms(2) x(2) by auto
  qed
  have "length pre = length pre'"
    using * [OF _ assms(3,5,4,6)] * [OF _ assms(5,3,6,4)] by (meson linorder_neqE_nat)
  then show ?thesis using assms(3,5) by auto
qed

text \<open>The form of the packets sent for \<open>p\<close>.\<close>

definition rel_data_at :: "packet list \<Rightarrow> reliability \<Rightarrow> reliability_data" where
  "rel_data_at pre rel =
     (case rel of
        Unreliable \<Rightarrow> UnreliableData
      | UnreliableSequenced \<Rightarrow> UnreliableSequencedData (of_nat (length (sequenced pre)))
      | Reliable \<Rightarrow> ReliableData
      | ReliableOrdered \<Rightarrow> ReliableOrderedData (of_nat (length (ordered pre))))"

lemma next_rel_data_at:
  assumes "process_outgoing_packets pre (send_part_new a) = (ys, sp)"
  shows "fst (next_rel_data rel sp) = rel_data_at pre rel"
  using outgoing_counters [OF assms]
  by (cases rel) (simp_all add: rel_data_at_def next_rel_data_def send_part_new_def)

lemma wire_fits:
  assumes "fits p" and "x \<in> set (wire a pre p)"
  shows "rel_data x = rel_data_at pre (reliability p)" "split_info x = None" "rak_data x = data p"
proof -
  obtain ys sp where y: "process_outgoing_packets pre (send_part_new a) = (ys, sp)" by fastforce
  obtain rel sp1 where r: "next_rel_data (reliability p) sp = (rel, sp1)" by fastforce
  show "rel_data x = rel_data_at pre (reliability p)" "split_info x = None" "rak_data x = data p"
    using assms outgoing_fits [OF assms(1) r] y r next_rel_data_at [OF y, of "reliability p"]
    by (auto simp: wire_def)
qed

lemma wire_split:
  assumes "\<not> fits p" and "x \<in> set (wire a pre p)"
  shows "rel_data x = rel_data_at pre (reliability p)" "\<exists>i. is_part (split_of pre) (parts_of p) i x"
proof -
  obtain ys sp where y: "process_outgoing_packets pre (send_part_new a) = (ys, sp)" by fastforce
  obtain rel sp1 where r: "next_rel_data (reliability p) sp = (rel, sp1)" by fastforce
  have s: "sp_split_packet_index sp = split_of pre"
    using outgoing_counters [OF y] by (simp add: send_part_new_def)
  show "rel_data x = rel_data_at pre (reliability p)" "\<exists>i. is_part (split_of pre) (parts_of p) i x"
    using assms outgoing_split [OF assms(1) r refl] y r s next_rel_data_at [OF y, of "reliability p"]
    by (auto simp: wire_def is_part_def)
qed

lemma wire_all_parts:
  assumes "\<not> fits p" and "i < length (parts_of p)"
  shows "\<exists>x\<in>set (wire a pre p). is_part (split_of pre) (parts_of p) i x"
proof -
  obtain ys sp where y: "process_outgoing_packets pre (send_part_new a) = (ys, sp)" by fastforce
  obtain rel sp1 where r: "next_rel_data (reliability p) sp = (rel, sp1)" by fastforce
  have s: "sp_split_packet_index sp = split_of pre"
    using outgoing_counters [OF y] by (simp add: send_part_new_def)
  show ?thesis
    using assms outgoing_split [OF assms(1) r refl] y r s
    by (auto simp: wire_def is_part_def)
qed

lemma wire_nonempty: "wire a pre p \<noteq> []"
  using outgoing_one(3) [of p "snd (process_outgoing_packets pre (send_part_new a))"]
  by (cases "process_outgoing_packet p (snd (process_outgoing_packets pre (send_part_new a)))")
    (auto simp: wire_def)

lemma parts_of_split:
  assumes "\<not> fits p" and "length (data p) < 2 ^ 32"
  shows "1 < length (parts_of p)" "length (parts_of p) < 2 ^ 32" "concat (parts_of p) = data p"
  using length_chunks_bounds [OF chunk_size_bounds(1) [of p], of "data p"] chunk_size_bounds(3) [OF assms(1)]
    concat_chunks [OF chunk_size_bounds(1) [of p], of "data p"] assms(2) by auto

section \<open>The split queue\<close>

lemma of_nat_u16_eq_iff:
  "m < 2 ^ 16 \<Longrightarrow> n < 2 ^ 16 \<Longrightarrow> (of_nat m :: u16) = of_nat n \<longleftrightarrow> m = n"
  by (simp add: word_unat_eq_iff unsigned_of_nat take_bit_nat_eq_self)

text \<open>Every entry of the queue belongs to a split packet of the history, of which parts are missing.\<close>

definition queue_inv :: "packet list \<Rightarrow> (u16 \<times> u8 list option list) list \<Rightarrow> bool" where
  "queue_inv S q \<longleftrightarrow> (\<forall>sid parts. map_of q sid = Some parts \<longrightarrow>
     (\<exists>pre p post I. S = pre @ p # post \<and> \<not> fits p \<and> sid = split_of pre \<and> I \<noteq> {} \<and>
       \<not> {..<length (parts_of p)} \<subseteq> I \<and> parts = collected (parts_of p) I))"

definition holds_part :: "(u16 \<times> u8 list option list) list \<Rightarrow> u16 \<Rightarrow> nat \<Rightarrow> bool" where
  "holds_part q sid i \<longleftrightarrow> (\<exists>parts. map_of q sid = Some parts \<and> i < length parts \<and> parts ! i \<noteq> None)"

lemma holds_part_collecting:
  "collecting sid ds I q \<Longrightarrow> holds_part q sid i \<longleftrightarrow> i < length ds \<and> i \<in> I"
  by (cases "I = {}") (auto simp: holds_part_def collecting_def collected_def split: if_splits)

lemma queue_inv_extend: "queue_inv S q \<Longrightarrow> queue_inv (S @ T) q"
  unfolding queue_inv_def by (metis append_Cons append_assoc)

lemma split_unique:
  assumes "length (splits S) \<le> 2 ^ 16" and "split_of pre = split_of pre'"
    and "S = pre @ p # post" "\<not> fits p" and "S = pre' @ p' # post'" "\<not> fits p'"
  shows "pre = pre' \<and> p = p'"
proof -
  have "length (splits pre) < 2 ^ 16" "length (splits pre') < 2 ^ 16"
    using assms(1,4,6) arg_cong [OF assms(3), of "\<lambda>S. length (splits S)"]
      arg_cong [OF assms(5), of "\<lambda>S. length (splits S)"] by auto
  then have "length (splits pre) = length (splits pre')"
    using assms(2) by (simp add: of_nat_u16_eq_iff)
  then have "length pre = length pre'"
    using decompositions_less [OF assms(3,5)] decompositions_less [OF assms(5,3)] assms(4,6)
    by (cases "length pre" "length pre'" rule: linorder_cases) auto
  then show ?thesis using assms(3,5) by auto
qed

lemma queue_inv_collecting:
  assumes "queue_inv S q" and "length (splits S) \<le> 2 ^ 16" and "S = pre @ p # post" "\<not> fits p"
  shows "\<exists>I. collecting (split_of pre) (parts_of p) I q"
proof (cases "map_of q (split_of pre)")
  case None
  then show ?thesis by (intro exI [of _ "{}"]) (simp add: collecting_def)
next
  case (Some parts)
  then obtain pre' p' post' I where *: "S = pre' @ p' # post'" "\<not> fits p'" "split_of pre = split_of pre'"
    "I \<noteq> {}" "parts = collected (parts_of p') I"
    using assms(1) unfolding queue_inv_def by blast
  then have "p = p'" using split_unique [OF assms(2) *(3) assms(3,4) *(1,2)] by blast
  then show ?thesis using Some * by (intro exI [of _ I]) (simp add: collecting_def)
qed

lemma queue_inv_change:
  assumes "queue_inv S q" and "S = pre @ p # post" "\<not> fits p"
    and "collecting (split_of pre) (parts_of p) I q'" "I = {} \<or> \<not> {..<length (parts_of p)} \<subseteq> I"
    and "\<forall>j. j \<noteq> split_of pre \<longrightarrow> map_of q' j = map_of q j"
  shows "queue_inv S q'"
  unfolding queue_inv_def
proof (intro allI impI)
  fix sid parts assume sid: "map_of q' sid = Some parts"
  show "\<exists>pre p post I. S = pre @ p # post \<and> \<not> fits p \<and> sid = split_of pre \<and> I \<noteq> {} \<and>
      \<not> {..<length (parts_of p)} \<subseteq> I \<and> parts = collected (parts_of p) I"
  proof (cases "sid = split_of pre")
    case True
    then have "I \<noteq> {} \<and> parts = collected (parts_of p) I"
      using sid assms(4) by (simp add: collecting_def split: if_splits)
    then show ?thesis using True assms(2,3,5) by blast
  next
    case False
    then show ?thesis using sid assms(1,6) by (simp add: queue_inv_def)
  qed
qed

lemma take_split_history:
  assumes "queue_inv S (split_packet_queue rp)" and "length (splits S) \<le> 2 ^ 16"
    and "S = pre @ p # post" "x \<in> set (wire a pre p)" "length (data p) < 2 ^ 32"
  shows "\<exists>r q. take_split x rp = Ok (r, rp\<lparr>split_packet_queue := q\<rparr>) \<and> queue_inv S q \<and>
    (\<forall>sid i. sid \<noteq> split_of pre \<or> fits p \<or> r = None \<longrightarrow>
       holds_part (split_packet_queue rp) sid i \<longrightarrow> holds_part q sid i) \<and>
    (r = Some (x\<lparr>rak_data := data p\<rparr>) \<or> r = None \<and> \<not> fits p \<and>
       (\<forall>i. is_part (split_of pre) (parts_of p) i x \<longrightarrow> holds_part q (split_of pre) i))"
proof (cases "fits p")
  case True
  then show ?thesis using wire_fits [OF True assms(4)] assms(1)
    by (intro exI [of _ "Some x"] exI [of _ "split_packet_queue rp"]) (simp add: take_split_def)
next
  case False
  obtain i where i: "is_part (split_of pre) (parts_of p) i x" using wire_split [OF False assms(4)] by blast
  obtain I where I: "collecting (split_of pre) (parts_of p) I (split_packet_queue rp)"
    using queue_inv_collecting [OF assms(1-3) False] by blast
  note d = parts_of_split [OF False assms(5)]
  have u: "j = i" if "is_part (split_of pre) (parts_of p) j x" for j
    using i that d(2) by (auto simp: is_part_def of_nat_u32_eq_iff)
  have h: "holds_part q sid j = holds_part (split_packet_queue rp) sid j"
    if "\<forall>j. j \<noteq> split_of pre \<longrightarrow> map_of q j = map_of (split_packet_queue rp) j" "sid \<noteq> split_of pre" for q sid j
    using that by (simp add: holds_part_def)
  obtain q where q: "if {..<length (parts_of p)} \<subseteq> insert i I
      then take_split x rp = Ok (Some (x\<lparr>rak_data := concat (parts_of p)\<rparr>), rp\<lparr>split_packet_queue := q\<rparr>) \<and>
        collecting (split_of pre) (parts_of p) {} q
      else take_split x rp = Ok (None, rp\<lparr>split_packet_queue := q\<rparr>) \<and>
        collecting (split_of pre) (parts_of p) (insert i I) q"
    and other: "\<forall>j. j \<noteq> split_of pre \<longrightarrow> map_of q j = map_of (split_packet_queue rp) j"
    using take_split_part [OF i I d(1,2)] by blast
  show ?thesis
  proof (cases "{..<length (parts_of p)} \<subseteq> insert i I")
    case True
    then show ?thesis using q False d(3) h [OF other] queue_inv_change [OF assms(1,3) False _ _ other]
      by (intro exI [of _ "Some (x\<lparr>rak_data := data p\<rparr>)"] exI [of _ q]) auto
  next
    case nf: False
    then have c: "take_split x rp = Ok (None, rp\<lparr>split_packet_queue := q\<rparr>)"
      "collecting (split_of pre) (parts_of p) (insert i I) q" using q by auto
    have "holds_part q sid j" if "holds_part (split_packet_queue rp) sid j" for sid j
      using that h [OF other] holds_part_collecting [OF c(2)] holds_part_collecting [OF I]
      by (cases "sid = split_of pre") auto
    moreover have "i < length (parts_of p)" using i by (simp add: is_part_def)
    ultimately show ?thesis using c False queue_inv_change [OF assms(1,3) False c(2) _ other] u nf
      holds_part_collecting [OF c(2)]
      by (intro exI [of _ None] exI [of _ q]) auto
  qed
qed

section \<open>Delivery\<close>

text \<open>\<open>A\<close> are the positions of the ordered packets that have arrived, \<open>got\<close> is all that was delivered.\<close>

definition delivery_inv :: "packet list \<Rightarrow> nat set \<Rightarrow> receive_part \<Rightarrow> packet list \<Rightarrow> bool" where
  "delivery_inv S A rp got \<longleftrightarrow> (\<exists>n m.
     A \<subseteq> {..<length (ordered S)} \<and> ordered_inv 0 (\<lambda>k. ordered S ! k) A n rp \<and>
     ordered got = map (\<lambda>k. ordered S ! k) [0..<n] \<and>
     m \<le> length (sequenced S) \<and> unrel_seq_index rp = of_nat m \<and>
     subseq (sequenced got) (take m (sequenced S)) \<and> set got \<subseteq> set S)"

lemma ordered_inv_cong:
  "(\<And>k. k \<in> A \<Longrightarrow> src k = src' k) \<Longrightarrow> ordered_inv s src A n rp = ordered_inv s src' A n rp"
  by (auto simp: ordered_inv_def queued_def)

lemma delivery_inv_bounds:
  "A \<subseteq> {..<l} \<Longrightarrow> ordered_inv s src A n rp \<Longrightarrow> n \<le> l"
  by (auto simp: ordered_inv_def) (metis lessThan_iff lessThan_subset_iff order_trans)

lemma delivery_inv_extend:
  assumes "delivery_inv S A rp got"
  shows "delivery_inv (S @ T) A rp got"
proof -
  obtain n m where *: "A \<subseteq> {..<length (ordered S)}" "ordered_inv 0 (\<lambda>k. ordered S ! k) A n rp"
    "ordered got = map (\<lambda>k. ordered S ! k) [0..<n]" "m \<le> length (sequenced S)"
    "unrel_seq_index rp = of_nat m" "subseq (sequenced got) (take m (sequenced S))" "set got \<subseteq> set S"
    using assms by (auto simp: delivery_inv_def)
  have "n \<le> length (ordered S)" using delivery_inv_bounds [OF *(1,2)] .
  moreover have "ordered_inv 0 (\<lambda>k. ordered (S @ T) ! k) A n rp"
    using *(1) by (intro ordered_inv_cong [THEN iffD1, OF _ *(2)]) (auto simp: nth_append)
  moreover have "ordered got = map (\<lambda>k. ordered (S @ T) ! k) [0..<n]"
    using *(3) \<open>n \<le> _\<close> by (simp add: nth_append)
  moreover have "A \<subseteq> {..<length (ordered (S @ T))}" using *(1) by auto
  ultimately show ?thesis unfolding delivery_inv_def using *(4-7)
    by - (rule exI [of _ n], rule exI [of _ m], auto)
qed

lemma delivery_inv_start: "delivery_inv [] {} receive_part_default []"
  unfolding delivery_inv_def
  by (intro exI [of _ 0]) (simp add: ordered_inv_start receive_part_default_def)

lemma delivery_inv_queue [simp]:
  "delivery_inv S A (rp\<lparr>split_packet_queue := q\<rparr>) got = delivery_inv S A rp got"
  by (simp add: delivery_inv_def ordered_inv_def)

lemma deliver_ordered_history:
  assumes inv: "delivery_inv S A rp got" and S: "S = pre @ p # post" and p: "reliability p = ReliableOrdered"
    and x: "rel_data x = rel_data_at pre (reliability p)" "rak_data x = data p"
    and w: "length (ordered S) \<le> window"
  shows "\<exists>rp' new. deliver x rp out = (rp', out @ new) \<and>
    delivery_inv S (insert (length (ordered pre)) A) rp' (got @ new)"
proof -
  let ?k = "length (ordered pre)" and ?src = "\<lambda>k. ordered S ! k"
  obtain n m where *: "A \<subseteq> {..<length (ordered S)}" "ordered_inv 0 ?src A n rp"
    "ordered got = map ?src [0..<n]" "m \<le> length (sequenced S)"
    "unrel_seq_index rp = of_nat m" "subseq (sequenced got) (take m (sequenced S))" "set got \<subseteq> set S"
    using inv by (auto simp: delivery_inv_def)
  have k: "?k < length (ordered S)" "?src ?k = p" using S p by (simp_all add: nth_append)
  have x': "rel_data x = ReliableOrderedData (0 + of_nat ?k)" "packet_of x = ?src ?k"
    using x p k(2) by (cases p; simp add: rel_data_at_def packet_of_def mk_packet_def)+
  have "?k < n + window" "n \<le> ?k + 2 ^ 31"
    using k(1) w delivery_inv_bounds [OF *(1,2)] by (auto simp: window_def)
  then obtain rp' n' where d: "n \<le> n'" "deliver x rp out = (rp', out @ map ?src [n..<n'])"
    "ordered_inv 0 ?src (insert ?k A) n' rp'"
    using deliver_ordered [OF *(2) _ _ x', of out] by blast
  have A: "insert ?k A \<subseteq> {..<length (ordered S)}" using k(1) *(1) by simp
  have n': "n' \<le> length (ordered S)" using delivery_inv_bounds [OF A d(3)] .
  have src: "?src j \<in> set S \<and> reliability (?src j) = ReliableOrdered" if "j < n'" for j
    using nth_mem [of j "ordered S"] that n' by simp
  have new: "ordered (map ?src [n..<n']) = map ?src [n..<n']" "sequenced (map ?src [n..<n']) = []"
    "set (map ?src [n..<n']) \<subseteq> set S"
    using src by (auto simp: filter_id_conv filter_empty_conv)
  have s: "unrel_seq_index rp' = unrel_seq_index rp"
    using d(2) x'(1) by (auto simp: deliver_def split: if_splits prod.splits)
  have u: "[0..<n'] = [0..<n] @ [n..<n']" using upt_add_eq_append [of 0 n "n' - n"] d(1) by simp
  have "delivery_inv S (insert ?k A) rp' (got @ map ?src [n..<n'])"
    unfolding delivery_inv_def
    using A d(3) * new s by - (rule exI [of _ n'], rule exI [of _ m], (simp add: u))
  then show ?thesis using d(2) by blast
qed

lemma deliver_sequenced_history:
  assumes inv: "delivery_inv S A rp got" and S: "S = pre @ p # post" and p: "reliability p = UnreliableSequenced"
    and x: "rel_data x = rel_data_at pre (reliability p)" "rak_data x = data p"
    and w: "length (sequenced S) \<le> window"
  shows "\<exists>rp' new. deliver x rp out = (rp', out @ new) \<and> delivery_inv S A rp' (got @ new)"
proof -
  let ?k = "length (sequenced pre)"
  obtain n m where *: "A \<subseteq> {..<length (ordered S)}" "ordered_inv 0 (\<lambda>k. ordered S ! k) A n rp"
    "ordered got = map (\<lambda>k. ordered S ! k) [0..<n]" "m \<le> length (sequenced S)"
    "unrel_seq_index rp = of_nat m" "subseq (sequenced got) (take m (sequenced S))" "set got \<subseteq> set S"
    using inv by (auto simp: delivery_inv_def)
  have k: "?k < length (sequenced S)" "take (Suc ?k) (sequenced S) = sequenced pre @ [p]"
    "take ?k (sequenced S) = sequenced pre" using S p by simp_all
  have x': "rel_data x = UnreliableSequencedData (0 + of_nat ?k)" "packet_of x = p"
    using x p by (cases p; simp add: rel_data_at_def packet_of_def mk_packet_def)+
  have "?k < m + window" "m \<le> ?k + 2 ^ 31" using k(1) w *(4) by (auto simp: window_def)
  note d = deliver_sequenced [OF _ this x'(1), of rp out]
  show ?thesis
  proof (cases "m \<le> ?k")
    case True
    have "subseq (take m (sequenced S)) (take ?k (sequenced S))"
      using True by (metis prefix_imp_subseq take_is_prefix min.absorb1 take_take)
    then have "subseq (sequenced got) (sequenced pre)" using *(6) k(3) subseq_order.trans by auto
    then have "subseq (sequenced got @ [p]) (sequenced pre @ [p])" by (rule list_emb_append_mono) simp
    then have "delivery_inv S A (rp\<lparr>unrel_seq_index := of_nat (Suc ?k)\<rparr>) (got @ [p])"
      unfolding delivery_inv_def using * k p S
      by - (rule exI [of _ n], rule exI [of _ "Suc ?k"], (simp add: ordered_inv_def))
    then show ?thesis using d True *(5) x'(2) by auto
  next
    case False
    then show ?thesis using d *(5) inv by (intro exI [of _ rp] exI [of _ "[]"]) simp
  qed
qed

lemma deliver_plain_history:
  assumes inv: "delivery_inv S A rp got" and S: "S = pre @ p # post"
    and p: "reliability p = Unreliable \<or> reliability p = Reliable"
    and x: "rel_data x = rel_data_at pre (reliability p)" "rak_data x = data p"
  shows "deliver x rp out = (rp, out @ [p]) \<and> delivery_inv S A rp (got @ [p])"
proof
  show "deliver x rp out = (rp, out @ [p])"
    using x p by (cases p) (auto simp: deliver_def rel_data_at_def packet_of_def mk_packet_def)
  have "ordered (got @ [p]) = ordered got" "sequenced (got @ [p]) = sequenced got" "p \<in> set S"
    using p S by auto
  then show "delivery_inv S A rp (got @ [p])" using inv by (simp add: delivery_inv_def)
qed

text \<open>The packet \<open>p\<close> after \<open>pre\<close> has been handed on, or is queued as an ordered packet that is early.\<close>

definition reached :: "nat set \<Rightarrow> packet list \<Rightarrow> packet list \<Rightarrow> packet \<Rightarrow> bool" where
  "reached A got pre p \<longleftrightarrow> is_disconnect (data p) \<or>
     (case reliability p of
        ReliableOrdered \<Rightarrow> length (ordered pre) \<in> A
      | UnreliableSequenced \<Rightarrow> True
      | _ \<Rightarrow> p \<in> set got)"

lemma deliver_history:
  assumes "delivery_inv S A rp got" and "S = pre @ p # post"
    and "rel_data x = rel_data_at pre (reliability p)" "rak_data x = data p"
    and "length (ordered S) \<le> window" "length (sequenced S) \<le> window"
  shows "\<exists>rp' new A'. deliver x rp out = (rp', out @ new) \<and> delivery_inv S A' rp' (got @ new) \<and>
    A \<subseteq> A' \<and> reached A' (got @ new) pre p"
proof (cases "reliability p")
  case UnreliableSequenced
  then obtain rp' new where "deliver x rp out = (rp', out @ new)" "delivery_inv S A rp' (got @ new)"
    using deliver_sequenced_history [OF assms(1,2) _ assms(3,4,6)] by blast
  then show ?thesis using UnreliableSequenced by (force simp: reached_def)
next
  case ReliableOrdered
  then obtain rp' new where "deliver x rp out = (rp', out @ new)"
    "delivery_inv S (insert (length (ordered pre)) A) rp' (got @ new)"
    using deliver_ordered_history [OF assms(1,2) _ assms(3-5)] by blast
  then show ?thesis using ReliableOrdered by (force simp: reached_def)
qed (use deliver_plain_history [OF assms(1,2) _ assms(3,4), of out] in \<open>force simp: reached_def\<close>)+

section \<open>The receiver against the history\<close>

definition settled ::
  "nat set \<Rightarrow> packet list \<Rightarrow> (u16 \<times> u8 list option list) list \<Rightarrow> packet list \<Rightarrow> packet \<Rightarrow> raknet_packet \<Rightarrow> bool" where
  "settled A got q pre p x \<longleftrightarrow> reached A got pre p \<or>
     \<not> fits p \<and> (\<exists>i. is_part (split_of pre) (parts_of p) i x \<and> holds_part q (split_of pre) i)"

definition history_inv ::
  "sock_addr \<Rightarrow> packet list \<Rightarrow> raknet_packet set \<Rightarrow> receive_part \<Rightarrow> packet list \<Rightarrow> bool" where
  "history_inv a S X rp got \<longleftrightarrow> queue_inv S (split_packet_queue rp) \<and>
     (\<exists>A. delivery_inv S A rp got \<and>
       (\<forall>x\<in>X. \<exists>pre p post. S = pre @ p # post \<and> x \<in> set (wire a pre p) \<and>
          settled A got (split_packet_queue rp) pre p x))"

definition within_counters :: "packet list \<Rightarrow> bool" where
  "within_counters S \<longleftrightarrow> length (ordered S) \<le> window \<and> length (sequenced S) \<le> window \<and>
     length (splits S) \<le> 2 ^ 16"

lemma within_counters_prefix: "within_counters (S @ T) \<Longrightarrow> within_counters S"
  by (simp add: within_counters_def)

lemma history_inv_start: "history_inv a [] {} receive_part_default []"
  unfolding history_inv_def using delivery_inv_start
  by (auto simp: queue_inv_def receive_part_default_def)

lemma history_inv_extend:
  assumes "history_inv a S X rp got"
  shows "history_inv a (S @ T) X rp got"
proof -
  obtain A where A: "delivery_inv S A rp got" "\<forall>x\<in>X. \<exists>pre p post. S = pre @ p # post \<and>
      x \<in> set (wire a pre p) \<and> settled A got (split_packet_queue rp) pre p x"
    using assms by (auto simp: history_inv_def)
  have "\<forall>x\<in>X. \<exists>pre p post. S @ T = pre @ p # post \<and> x \<in> set (wire a pre p) \<and>
      settled A got (split_packet_queue rp) pre p x"
    using A(2) by (metis append_Cons append_assoc)
  then show ?thesis
    using assms delivery_inv_extend [OF A(1)] queue_inv_extend unfolding history_inv_def by blast
qed

lemma reached_mono:
  "reached A got pre p \<Longrightarrow> A \<subseteq> A' \<Longrightarrow> set got \<subseteq> set got' \<Longrightarrow> reached A' got' pre p"
  by (auto simp: reached_def split: reliability.splits)

lemma history_inv_step:
  assumes "history_inv a S X rp got" and "within_counters S"
    and p: "S = pre @ p # post" "x \<in> set (wire a pre p)"
    and inv: "queue_inv S q" "\<And>A. delivery_inv S A rp got \<Longrightarrow> \<exists>A'. A \<subseteq> A' \<and>
      delivery_inv S A' (rp'\<lparr>split_packet_queue := q\<rparr>) (got @ new) \<and>
      (reached A' (got @ new) pre p \<or>
       \<not> fits p \<and> (\<forall>i. is_part (split_of pre) (parts_of p) i x \<longrightarrow> holds_part q (split_of pre) i) \<and>
       (\<forall>i. holds_part (split_packet_queue rp) (split_of pre) i \<longrightarrow> holds_part q (split_of pre) i))"
    and other: "\<And>sid i. sid \<noteq> split_of pre \<or> fits p \<Longrightarrow>
      holds_part (split_packet_queue rp) sid i \<Longrightarrow> holds_part q sid i"
  shows "history_inv a S (insert x X) (rp'\<lparr>split_packet_queue := q\<rparr>) (got @ new)"
proof -
  obtain A where A: "delivery_inv S A rp got" "\<forall>x\<in>X. \<exists>pre p post. S = pre @ p # post \<and>
      x \<in> set (wire a pre p) \<and> settled A got (split_packet_queue rp) pre p x"
    using assms(1) by (auto simp: history_inv_def)
  obtain A' where A': "A \<subseteq> A'" "delivery_inv S A' (rp'\<lparr>split_packet_queue := q\<rparr>) (got @ new)"
    "reached A' (got @ new) pre p \<or>
       \<not> fits p \<and> (\<forall>i. is_part (split_of pre) (parts_of p) i x \<longrightarrow> holds_part q (split_of pre) i) \<and>
       (\<forall>i. holds_part (split_packet_queue rp) (split_of pre) i \<longrightarrow> holds_part q (split_of pre) i)"
    using inv(2) [OF A(1)] by blast
  have x: "settled A' (got @ new) q pre p x"
    using A'(3) wire_split(2) [OF _ p(2)] by (auto simp: settled_def)
  have *: "settled A' (got @ new) q pre' p' y"
    if y: "S = pre' @ p' # post'" "settled A got (split_packet_queue rp) pre' p' y" for pre' p' post' y
  proof (cases "reached A got pre' p'")
    case True
    then show ?thesis using reached_mono [OF True A'(1)] by (simp add: settled_def)
  next
    case False
    then have nf: "\<not> fits p'" using y(2) by (simp add: settled_def)
    show ?thesis
    proof (cases "split_of pre' \<noteq> split_of pre \<or> fits p")
      case True
      then show ?thesis using False y(2) other by (auto simp: settled_def)
    next
      case same: False
      then have "pre' = pre \<and> p' = p"
        using split_unique [OF _ _ y(1) nf p(1)] assms(2) by (auto simp: within_counters_def)
      then show ?thesis using False y(2) A'(3) by (auto simp: settled_def)
    qed
  qed
  have "\<forall>y\<in>insert x X. \<exists>pre p post. S = pre @ p # post \<and> y \<in> set (wire a pre p) \<and>
      settled A' (got @ new) q pre p y"
  proof
    fix y assume "y \<in> insert x X"
    show "\<exists>pre p post. S = pre @ p # post \<and> y \<in> set (wire a pre p) \<and>
        settled A' (got @ new) q pre p y"
    proof (cases "y = x")
      case True
      show ?thesis unfolding True by (intro exI conjI) (rule p x)+
    next
      case False
      then have "y \<in> X" using \<open>y \<in> insert x X\<close> by simp
      then obtain pre' p' post' where y: "S = pre' @ p' # post'" "y \<in> set (wire a pre' p')"
        "settled A got (split_packet_queue rp) pre' p' y" using A(2) by blast
      show ?thesis by (intro exI conjI) (rule y(1,2) * [OF y(1,3)])+
    qed
  qed
  moreover have "split_packet_queue (rp'\<lparr>split_packet_queue := q\<rparr>) = q" by simp
  ultimately show ?thesis unfolding history_inv_def using A'(2) inv(1)
    by (intro conjI exI [of _ A']) (simp_all only:)
qed

lemma process_history:
  assumes inv: "history_inv a S X (rx_part st) got" and c: "within_counters S"
    and p: "S = pre @ p # post" "x \<in> set (wire a pre p)" and l: "length (data p) < 2 ^ 32"
  shows "\<exists>st' new. process_packet x st = Ok st' \<and> rx_out st' = rx_out st @ new \<and>
    history_inv a S (insert x X) (rx_part st') (got @ new)"
proof -
  let ?rp = "rx_part st"
  have q: "queue_inv S (split_packet_queue ?rp)" using inv by (simp add: history_inv_def)
  obtain r q where t: "take_split x ?rp = Ok (r, ?rp\<lparr>split_packet_queue := q\<rparr>)" "queue_inv S q"
    and o: "\<And>sid i. sid \<noteq> split_of pre \<or> fits p \<or> r = None \<Longrightarrow>
       holds_part (split_packet_queue ?rp) sid i \<Longrightarrow> holds_part q sid i"
    and r: "r = Some (x\<lparr>rak_data := data p\<rparr>) \<or> r = None \<and> \<not> fits p \<and>
       (\<forall>i. is_part (split_of pre) (parts_of p) i x \<longrightarrow> holds_part q (split_of pre) i)"
    using take_split_history [OF q _ p l] c unfolding within_counters_def by blast
  obtain acks where a: "ack_packet x (rx_acks st) = Ok acks" using ack_packet_ok by blast
  note step = history_inv_step [OF inv c p t(2)]
  consider (part) "r = None" | (disconnect) "r = Some (x\<lparr>rak_data := data p\<rparr>)" "is_disconnect (data p)"
    | (deliver) "r = Some (x\<lparr>rak_data := data p\<rparr>)" "\<not> is_disconnect (data p)"
    using r by blast
  then show ?thesis
  proof cases
    case part
    then have "history_inv a S (insert x X) (?rp\<lparr>split_packet_queue := q\<rparr>) (got @ [])"
      using r o by (intro step) auto
    then show ?thesis using part t(1) a by (intro exI conjI) (auto simp: process_packet_def)
  next
    case disconnect
    then have "history_inv a S (insert x X) (?rp\<lparr>split_packet_queue := q\<rparr>) (got @ [])"
      using o by (intro step) (auto simp: reached_def)
    then show ?thesis using disconnect t(1) a by (intro exI conjI) (auto simp: process_packet_def)
  next
    case deliver
    let ?x = "x\<lparr>rak_data := data p\<rparr>" and ?rq = "?rp\<lparr>split_packet_queue := q\<rparr>"
    have x: "rel_data ?x = rel_data_at pre (reliability p)" "rak_data ?x = data p"
      using wire_fits(1) [OF _ p(2)] wire_split(1) [OF _ p(2)] by (cases "fits p"; simp)+
    obtain rp' out where d: "Recv.deliver ?x ?rq (rx_out st) = (rp', out)" by fastforce
    then have sq: "split_packet_queue rp' = q"
      using deliver_split_queue [of ?x ?rq "rx_out st"] by simp
    have dh: "\<exists>new A'. out = rx_out st @ new \<and> delivery_inv S A' rp' (got @ new) \<and> A \<subseteq> A' \<and>
        reached A' (got @ new) pre p" if "delivery_inv S A ?rp got" for A
      using deliver_history [of S A ?rq got, OF _ p(1) x, of "rx_out st"] that c d
      by (auto simp: within_counters_def)
    obtain A where "delivery_inv S A ?rp got" using inv by (auto simp: history_inv_def)
    then obtain new where new: "out = rx_out st @ new" using dh by blast
    have "history_inv a S (insert x X) (rp'\<lparr>split_packet_queue := q\<rparr>) (got @ new)"
    proof (rule step)
      fix A assume "delivery_inv S A ?rp got"
      then obtain A' where "A \<subseteq> A'" "delivery_inv S A' rp' (got @ new)" "reached A' (got @ new) pre p"
        using dh new by auto
      then show "\<exists>A'. A \<subseteq> A' \<and> delivery_inv S A' (rp'\<lparr>split_packet_queue := q\<rparr>) (got @ new) \<and>
          (reached A' (got @ new) pre p \<or> \<not> fits p \<and>
           (\<forall>i. is_part (split_of pre) (parts_of p) i x \<longrightarrow> holds_part q (split_of pre) i) \<and>
           (\<forall>i. holds_part (split_packet_queue ?rp) (split_of pre) i \<longrightarrow> holds_part q (split_of pre) i))"
        by (intro exI [of _ A']) simp
    qed (use o in blast)
    moreover have "rp'\<lparr>split_packet_queue := q\<rparr> = rp'" using sq by simp
    moreover have "process_packet x st = Ok (st\<lparr>rx_acks := acks, rx_part := rp', rx_out := rx_out st @ new\<rparr>)"
      using deliver t(1) a d new by (simp add: process_packet_def)
    ultimately show ?thesis
      by (intro exI [of _ "st\<lparr>rx_acks := acks, rx_part := rp', rx_out := rx_out st @ new\<rparr>"] exI [of _ new]) simp
  qed
qed

end
