(* ===== verification/Link.thy ===== *)
theory Link
  imports History
begin

text \<open>
  Two connections over the network. Each peer sends whatever it is given and handles any datagram the
  other has ever sent, at any time and as often as the network likes, or never: datagrams are lost,
  repeated and reordered, and sends may fail. The theorems say what arrives nevertheless.
\<close>

section \<open>The link\<close>

text \<open>A peer with what it has been given to send, the datagrams it has handled and the packets
  these calls have returned; \<open>peer_failed\<close> tells that a call of \<open>send\<close> has failed.\<close>

record peer =
  peer_conn :: connection
  peer_udp :: udp_socket
  peer_sent :: "packet list"
  peer_heard :: "u8 list list"
  peer_got :: "packet list"
  peer_failed :: bool

definition peer_new :: "sock_addr \<Rightarrow> udp_socket \<Rightarrow> peer" where
  "peer_new a udp = \<lparr>peer_conn = connection_new a, peer_udp = udp, peer_sent = [], peer_heard = [],
     peer_got = [], peer_failed = False\<rparr>"

definition peer_send :: "bool \<Rightarrow> 'w bit_writer \<Rightarrow> packet list \<Rightarrow> peer \<Rightarrow> peer" where
  "peer_send checks W ps p =
     (case connection_send checks W ps (peer_conn p, peer_udp p) of
        (r, c, udp) \<Rightarrow> p\<lparr>peer_conn := c, peer_udp := udp,
          peer_sent := peer_sent p @ (if conn_closed (peer_conn p) then [] else ps),
          peer_failed := peer_failed p \<or> r \<noteq> Ok ()\<rparr>)"

definition peer_receive :: "'r bit_reader \<Rightarrow> u8 list \<Rightarrow> peer \<Rightarrow> peer option" where
  "peer_receive R d p =
     (case handle_datagram R d (peer_conn p) of
        None \<Rightarrow> None
      | Some (r, c) \<Rightarrow> Some (p\<lparr>peer_conn := c, peer_heard := peer_heard p @ [d],
          peer_got := peer_got p @ (case r of Ok ps \<Rightarrow> ps | _ \<Rightarrow> [])\<rparr>))"

abbreviation in_flight :: "peer \<Rightarrow> u8 list set" where
  "in_flight p \<equiv> snd ` set (udp_sent (peer_udp p))"

text \<open>A packet has at most 255 parts, because the code reads larger counts back wrongly, and at most
  65535 ranges are acknowledged at once, because their number is written as 16 bits.\<close>

definition sendable :: "packet list \<Rightarrow> peer \<Rightarrow> bool" where
  "sendable ps p \<longleftrightarrow> (\<forall>x\<in>set ps. length (data x) \<le> 255 * 1178) \<and>
     length (ranges (conn_acks (peer_conn p))) < 2 ^ 16"

inductive link_step ::
  "bool \<Rightarrow> 'r bit_reader \<Rightarrow> 'w bit_writer \<Rightarrow> peer \<times> peer \<Rightarrow> peer \<times> peer \<Rightarrow> bool"
  for checks R W
where
  send: "sendable ps p \<Longrightarrow> link_step checks R W (p, q) (peer_send checks W ps p, q)"
| receive: "d \<in> in_flight q \<Longrightarrow> peer_receive R d p = Some p' \<Longrightarrow> link_step checks R W (p, q) (p', q)"
| other: "link_step checks R W (q, p) (q', p') \<Longrightarrow> link_step checks R W (p, q) (p', q')"

inductive linked :: "bool \<Rightarrow> 'r bit_reader \<Rightarrow> 'w bit_writer \<Rightarrow> peer \<times> peer \<Rightarrow> bool"
  for checks R W
where
  start: "udp_sent u = [] \<Longrightarrow> udp_sent v = [] \<Longrightarrow> linked checks R W (peer_new a u, peer_new b v)"
| step: "linked checks R W s \<Longrightarrow> link_step checks R W s s' \<Longrightarrow> linked checks R W s'"

section \<open>The packets in a datagram\<close>

definition packets_in :: "u8 list \<Rightarrow> raknet_packet list" where
  "packets_in d =
     (case handle_header bits_reader 0 (bytes_bits d) of
        Ok (_, r) \<Rightarrow> (case parse_packets bits_reader r of Some (Ok ps) \<Rightarrow> ps | _ \<Rightarrow> [])
      | _ \<Rightarrow> [])"

lemma packets_in_datagram:
  assumes "length (rak_data x) < 2 ^ 13" and "seen_packet x = x" and "length (ranges acks) < 2 ^ 16"
  shows "packets_in (datagram acks t x) = [x]"
proof -
  let ?bits = "acks_wire acks t @ False # header_wire x"
  have b: "bytes_bits (datagram acks t x) = acks_wire acks t @ False #
      header_wire x @ replicate (pad_len (length ?bits)) False @ bytes_bits (rak_data x)"
    by (simp add: datagram_def pad_bits_def)
  show ?thesis
    by (simp add: packets_in_def b read_header_wire [OF assms(3)] parse_one_packet [OF assms(1)] assms(2))
qed

lemma packets_in_acks:
  assumes "\<not> rl_is_empty acks" and "length (ranges acks) < 2 ^ 16"
  shows "packets_in (bytes_of_bits (acks_wire acks t)) = []"
proof -
  let ?n = "pad_len (length (acks_wire acks t))"
  have b: "pad_bits (acks_wire acks t) =
      True # bytes_bits (u32_le t) @ rl_wire acks @ replicate ?n False"
    using assms(1) by (simp add: pad_bits_def acks_wire_def)
  have n: "?n < 8" by simp
  show ?thesis
  proof (cases "?n")
    case 0
    have "br_bit bits_reader [] = Err UnexpectedEof" by (simp add: bits_reader_def take_read_def)
    then show ?thesis using 0 rl_read_wire [OF assms(2), of "[]"]
      by (simp add: packets_in_def b handle_header_def)
  next
    case (Suc k)
    then show ?thesis using n
      by (simp add: packets_in_def b handle_header_def rl_read_wire [OF assms(2)] Suc
          parse_packets_def parse_loop.simps read_few_bits)
  qed
qed

section \<open>What a peer sends\<close>

text \<open>A datagram that carries acknowledgements alone or a packet of \<open>xs\<close>.\<close>

inductive from_history :: "raknet_packet list \<Rightarrow> u8 list \<Rightarrow> bool" for xs where
  acks_alone: "\<not> rl_is_empty acks \<Longrightarrow> length (ranges acks) < 2 ^ 16 \<Longrightarrow>
     from_history xs (bytes_of_bits (acks_wire acks t))"
| packet: "x \<in> set xs \<Longrightarrow> length (ranges acks) < 2 ^ 16 \<Longrightarrow> from_history xs (datagram acks t x)"

lemma from_history_mono: "from_history xs d \<Longrightarrow> set xs \<subseteq> set ys \<Longrightarrow> from_history ys d"
  by (induction rule: from_history.induct) (auto intro: from_history.intros)

lemma datagrams_from_history:
  assumes "d \<in> set (datagrams acks t xs)" and "length (ranges acks) < 2 ^ 16"
  shows "from_history xs d"
proof (cases xs)
  case Nil
  then show ?thesis using assms by (auto split: if_splits intro: from_history.intros)
next
  case (Cons x ys)
  moreover have "length (ranges rl_new) < 2 ^ 16" by (simp add: rl_new_def)
  ultimately show ?thesis using assms by (auto intro: from_history.intros)
qed

lemma datagrams_cover:
  assumes "x \<in> set xs" and "length (ranges acks) < 2 ^ 16"
  shows "\<exists>ak. datagram ak t x \<in> set (datagrams acks t xs) \<and> length (ranges ak) < 2 ^ 16"
proof (cases xs)
  case (Cons y ys)
  then consider "x = y" | "x \<in> set ys" using assms(1) by auto
  then show ?thesis
  proof cases
    case 1
    then show ?thesis using Cons assms(2) by (intro exI [of _ acks]) simp
  next
    case 2
    then show ?thesis using Cons by (intro exI [of _ rl_new]) (simp add: rl_new_def)
  qed
qed (use assms(1) in simp)

definition sender_inv :: "sock_addr \<Rightarrow> peer \<Rightarrow> bool" where
  "sender_inv a p \<longleftrightarrow> (\<exists>xs.
     process_outgoing_packets (peer_sent p) (send_part_new a) = (xs, conn_send (peer_conn p)) \<and>
     (\<forall>x\<in>set (peer_sent p). length (data x) \<le> 255 * 1178) \<and>
     (\<forall>d\<in>in_flight p. from_history xs d) \<and>
     (\<not> peer_failed p \<longrightarrow> (\<forall>x\<in>set xs. \<exists>d\<in>in_flight p. packets_in d = [x])))"

lemma sender_inv_start:
  assumes "udp_sent u = []"
  shows "sender_inv a (peer_new a u)"
  using assms by (simp add: sender_inv_def peer_new_def connection_new_def)

text \<open>Every packet of the history can be read back from its datagram.\<close>

lemma history_readable:
  assumes "process_outgoing_packets S (send_part_new a) = (xs, sp)"
    and "\<forall>x\<in>set S. length (data x) \<le> 255 * 1178" and "x \<in> set xs"
  shows "length (rak_data x) < 2 ^ 13" "seen_packet x = x"
  using outgoing_data_small [OF assms(1,3)] outgoing_seen [OF assms(1,3,2)] by auto

lemma sender_inv_send:
  assumes W: "writer_laws W wbits" and inv: "sender_inv a p" and ok: "sendable ps p"
  shows "sender_inv a (peer_send checks W ps p)"
proof (cases "conn_closed (peer_conn p)")
  case True
  then have "peer_send checks W ps p = p\<lparr>peer_failed := True\<rparr>" by (simp add: peer_send_def connection_send_def)
  then show ?thesis using inv by (auto simp: sender_inv_def)
next
  case False
  let ?c = "peer_conn p"
  obtain xs where xs: "process_outgoing_packets (peer_sent p) (send_part_new a) = (xs, conn_send ?c)"
    "\<forall>x\<in>set (peer_sent p). length (data x) \<le> 255 * 1178" "\<forall>d\<in>in_flight p. from_history xs d"
    "\<not> peer_failed p \<Longrightarrow> \<forall>x\<in>set xs. \<exists>d\<in>in_flight p. packets_in d = [x]"
    using inv by (auto simp: sender_inv_def)
  obtain qs sp1 where q: "process_outgoing_packets ps (conn_send ?c) = (qs, sp1)" by fastforce
  obtain r sp acks u where s: "send_packets checks W ps (conn_time ?c)
      (conn_send ?c, conn_acks ?c, peer_udp p) = (r, sp, acks, u)"
    by (cases "send_packets checks W ps (conn_time ?c) (conn_send ?c, conn_acks ?c, peer_udp p)") auto
  let ?p = "peer_send checks W ps p" and ?ds = "set (datagrams (conn_acks ?c) (conn_time ?c) qs)"
  note sent = writer_laws.send_packets_sends [OF W q s]
  have p: "conn_send (peer_conn ?p) = sp1" "peer_udp ?p = u" "peer_sent ?p = peer_sent p @ ps"
    "peer_failed ?p \<longleftrightarrow> peer_failed p \<or> r \<noteq> Ok ()"
    using False s sent by (simp_all add: peer_send_def connection_send_def)
  have h: "process_outgoing_packets (peer_sent p @ ps) (send_part_new a) = (xs @ qs, sp1)"
    using xs(1) q by (simp add: outgoing_append)
  have l: "\<forall>x\<in>set (peer_sent p @ ps). length (data x) \<le> 255 * 1178"
    using xs(2) ok by (auto simp: sendable_def)
  have r: "length (ranges (conn_acks ?c)) < 2 ^ 16" using ok by (simp add: sendable_def)
  have f: "from_history (xs @ qs) d" if "d \<in> in_flight ?p" for d
  proof -
    have "d \<in> ?ds \<or> d \<in> in_flight p" using that p(2) sent unfolding sends_def by blast
    then show ?thesis using datagrams_from_history [OF _ r, of d "conn_time ?c" qs] xs(3)
      by (auto intro: from_history_mono)
  qed
  have "\<exists>d\<in>in_flight ?p. packets_in d = [x]" if ok: "\<not> peer_failed ?p" and x: "x \<in> set (xs @ qs)" for x
  proof -
    have fl: "in_flight ?p = ?ds \<union> in_flight p" using ok p sent by (simp add: sends_def)
    show ?thesis
    proof (cases "x \<in> set xs")
      case True
      then show ?thesis using xs(4) ok p(4) unfolding fl by blast
    next
      case False
      then obtain ak where ak: "datagram ak (conn_time ?c) x \<in> ?ds" "length (ranges ak) < 2 ^ 16"
        using x datagrams_cover [OF _ r, of x qs "conn_time ?c"] by auto
      then have "packets_in (datagram ak (conn_time ?c) x) = [x]"
        using history_readable [OF h l x] by (intro packets_in_datagram) auto
      then show ?thesis using ak(1) unfolding fl by blast
    qed
  qed
  then show ?thesis unfolding sender_inv_def p using h l f [unfolded p(2)]
    by (intro exI [of _ "xs @ qs"]) auto
qed

section \<open>What a peer receives\<close>

definition delivered :: "packet list res \<Rightarrow> packet list" where
  "delivered r = (case r of Ok ps \<Rightarrow> ps | _ \<Rightarrow> [])"

lemma handle_from_history:
  assumes R: "reader_laws R rbits"
    and xs: "process_outgoing_packets S (send_part_new a) = (xs, sp)" "\<forall>x\<in>set S. length (data x) \<le> 255 * 1178"
    and d: "from_history xs d"
    and inv: "history_inv a S X (conn_recv c) got" "within_counters S"
  shows "\<exists>r c'. handle_datagram R d c = Some (r, c') \<and> (r = Err UnexpectedEof \<or> (\<exists>ps. r = Ok ps)) \<and>
    history_inv a S (set (packets_in d) \<union> X) (conn_recv c') (got @ delivered r)"
  using d
proof cases
  case (acks_alone acks t)
  then have "handle_datagram R d c = Some (if length (acks_wire acks t) mod 8 = 0 then Err UnexpectedEof else Ok [], c)"
    using acks_alone_end_early [OF R] by simp
  then show ?thesis using inv packets_in_acks [of acks t] acks_alone
    by (intro exI [of _ "if length (acks_wire acks t) mod 8 = 0 then Err UnexpectedEof else Ok []"] exI [of _ c])
      (simp add: delivered_def)
next
  case (packet x acks t)
  obtain pre p post where p: "S = pre @ p # post" "x \<in> set (wire a pre p)"
    using outgoing_origin [OF xs(1) packet(2)] by blast
  note small = history_readable [OF xs packet(2)]
  have "length (data p) < 2 ^ 32" using xs(2) p(1) by fastforce
  then obtain st new where st: "process_packet x (conn_rx c) = Ok st" "rx_out st = new"
    "history_inv a S (insert x X) (rx_part st) (got @ new)"
    using process_history [of a S X "conn_rx c" got, OF _ inv(2) p] inv(1) by (auto simp: conn_rx_def)
  have "handle_datagram R d c = Some (Ok (rx_out st), conn_after c st)"
    using handle_datagram_of_packet [OF small(1) packet(3), of c st t] small(2) st(1) packet(1)
    by (simp add: reader_laws.sim_handle_datagram [OF R])
  moreover have "packets_in d = [x]" using packets_in_datagram [OF small packet(3)] packet(1) by simp
  ultimately show ?thesis using st
    by (intro exI [of _ "Ok (rx_out st)"] exI [of _ "conn_after c st"]) (simp add: delivered_def conn_after_def)
qed

lemma handle_datagram_keeps_send:
  "handle_datagram R d c = Some (r, c') \<Longrightarrow> conn_send c' = conn_send c"
  by (auto simp: handle_datagram_def Let_def split: res.splits option.splits)

lemma send_keeps_recv: "conn_recv (peer_conn (peer_send checks W ps p)) = conn_recv (peer_conn p)"
  by (simp add: peer_send_def connection_send_def split: prod.split)

definition receiver_inv :: "sock_addr \<Rightarrow> peer \<Rightarrow> peer \<Rightarrow> bool" where
  "receiver_inv a q p \<longleftrightarrow> (within_counters (peer_sent q) \<longrightarrow>
     history_inv a (peer_sent q) (\<Union>d\<in>set (peer_heard p). set (packets_in d)) (conn_recv (peer_conn p)) (peer_got p))"

lemma receiver_inv_start: "receiver_inv a (peer_new a' u) (peer_new b v)"
  using history_inv_start by (simp add: receiver_inv_def peer_new_def connection_new_def)

lemma peer_receive_eq:
  "peer_receive R d p = Some p' \<longleftrightarrow> (\<exists>r c. handle_datagram R d (peer_conn p) = Some (r, c) \<and>
     p' = p\<lparr>peer_conn := c, peer_heard := peer_heard p @ [d], peer_got := peer_got p @ delivered r\<rparr>)"
  by (auto simp: peer_receive_def delivered_def split: option.split)

lemma receiver_inv_receive:
  assumes "reader_laws R rbits" and "sender_inv a q" and "receiver_inv a q p"
    and "d \<in> in_flight q" and "peer_receive R d p = Some p'"
  shows "receiver_inv a q p'"
  unfolding receiver_inv_def
proof
  assume w: "within_counters (peer_sent q)"
  obtain xs where xs: "process_outgoing_packets (peer_sent q) (send_part_new a) = (xs, conn_send (peer_conn q))"
    "\<forall>x\<in>set (peer_sent q). length (data x) \<le> 255 * 1178" "from_history xs d"
    using assms(2,4) by (auto simp: sender_inv_def)
  from handle_from_history [OF assms(1) xs _ w] assms(3,5) w
  show "history_inv a (peer_sent q) (\<Union>d\<in>set (peer_heard p'). set (packets_in d)) (conn_recv (peer_conn p')) (peer_got p')"
    by (fastforce simp: receiver_inv_def peer_receive_eq)
qed

lemma receiver_inv_sent:
  assumes "receiver_inv a q p" and "peer_sent q' = peer_sent q @ ps"
  shows "receiver_inv a q' p"
  using assms history_inv_extend within_counters_prefix unfolding receiver_inv_def by metis

lemma peer_send_sent: "\<exists>qs. peer_sent (peer_send checks W ps p) = peer_sent p @ qs"
  by (simp add: peer_send_def split: prod.split)

lemma peer_send_keeps:
  "peer_heard (peer_send checks W ps p) = peer_heard p" "peer_got (peer_send checks W ps p) = peer_got p"
  by (simp_all add: peer_send_def split: prod.split)

lemma peer_receive_keeps:
  assumes "peer_receive R d p = Some p'"
  shows "sender_inv a p' = sender_inv a p" "peer_sent p' = peer_sent p"
proof -
  obtain r c where c: "handle_datagram R d (peer_conn p) = Some (r, c)"
    "p' = p\<lparr>peer_conn := c, peer_heard := peer_heard p @ [d], peer_got := peer_got p @ delivered r\<rparr>"
    using assms by (auto simp: peer_receive_eq)
  then show "sender_inv a p' = sender_inv a p" "peer_sent p' = peer_sent p"
    using handle_datagram_keeps_send [OF c(1)] by (simp_all add: sender_inv_def)
qed

section \<open>The invariant of the link\<close>

definition link_inv :: "sock_addr \<Rightarrow> sock_addr \<Rightarrow> peer \<times> peer \<Rightarrow> bool" where
  "link_inv a b s \<longleftrightarrow> (case s of (p, q) \<Rightarrow>
     sender_inv a p \<and> sender_inv b q \<and> receiver_inv a p q \<and> receiver_inv b q p)"

lemma link_inv_step:
  assumes "codec_laws R rbits W wbits"
  shows "link_step checks R W s s' \<Longrightarrow> link_inv a b s \<Longrightarrow> link_inv a b s'"
proof (induction arbitrary: a b rule: link_step.induct)
  case (send ps p q)
  then have "sender_inv a (peer_send checks W ps p)"
    using sender_inv_send [OF codec_writer [OF assms]] by (simp add: link_inv_def)
  moreover have "receiver_inv a (peer_send checks W ps p) q"
    using send(2) receiver_inv_sent peer_send_sent [of checks W ps p] by (auto simp: link_inv_def)
  moreover have "receiver_inv b q (peer_send checks W ps p)"
    using send by (simp add: link_inv_def receiver_inv_def send_keeps_recv peer_send_keeps)
  ultimately show ?case using send by (simp add: link_inv_def)
next
  case (receive d q p p')
  then have "receiver_inv b q p'"
    using receiver_inv_receive [OF codec_reader [OF assms] _ _ receive(1,2), of b] by (simp add: link_inv_def)
  moreover have "receiver_inv a p' q"
    using receive peer_receive_keeps(2) [OF receive(2)] by (simp add: link_inv_def receiver_inv_def)
  ultimately show ?case using receive peer_receive_keeps(1) [OF receive(2)] by (simp add: link_inv_def)
next
  case (other q p q' p')
  then show ?case using other.IH [of b a] by (simp add: link_inv_def)
qed

lemma linked_inv:
  assumes "codec_laws R rbits W wbits" and "linked checks R W s"
  shows "\<exists>a b. link_inv a b s"
  using assms(2)
proof (induction rule: linked.induct)
  case (start u v a b)
  then show ?case using sender_inv_start receiver_inv_start by (auto simp: link_inv_def)
next
  case (step s s')
  then show ?case using link_inv_step [OF assms(1)] by blast
qed

section \<open>What the invariant gives\<close>

lemma take_upt_nth: "n \<le> length xs \<Longrightarrow> map (\<lambda>k. xs ! k) [0..<n] = take n xs"
  by (simp add: list_eq_iff_nth_eq)

lemma filter_nth_split:
  assumes "n < length (filter P xs)"
  shows "\<exists>ys x zs. xs = ys @ x # zs \<and> P x \<and> length (filter P ys) = n"
  using assms
proof (induction xs rule: rev_induct)
  case (snoc x xs)
  show ?case
  proof (cases "n < length (filter P xs)")
    case True
    then obtain ys y zs where "xs = ys @ y # zs" "P y" "length (filter P ys) = n" using snoc.IH by blast
    then show ?thesis by (intro exI [of _ ys] exI [of _ y] exI [of _ "zs @ [x]"]) simp
  next
    case False
    then show ?thesis using snoc.prems
      by (intro exI [of _ xs] exI [of _ x] exI [of _ "[]"]) (auto split: if_splits)
  qed
qed simp

text \<open>What the receiver of a history has returned.\<close>

lemma history_inv_delivered:
  assumes "history_inv a S X rp got"
  shows "prefix (ordered got) (ordered S) \<and> subseq (sequenced got) (sequenced S) \<and> set got \<subseteq> set S"
proof -
  obtain A where "delivery_inv S A rp got" using assms by (auto simp: history_inv_def)
  then obtain n m where *: "A \<subseteq> {..<length (ordered S)}" "ordered_inv 0 (\<lambda>k. ordered S ! k) A n rp"
    "ordered got = map (\<lambda>k. ordered S ! k) [0..<n]" "subseq (sequenced got) (take m (sequenced S))"
    "set got \<subseteq> set S"
    by (auto simp: delivery_inv_def)
  have "n \<le> length (ordered S)" using delivery_inv_bounds [OF *(1,2)] .
  then have "ordered got = take n (ordered S)" using *(3) by (simp add: take_upt_nth)
  moreover have "subseq (take m (sequenced S)) (sequenced S)" by (intro prefix_imp_subseq take_is_prefix)
  then have "subseq (sequenced got) (sequenced S)" using *(4) by (rule subseq_order.trans [rotated])
  ultimately show ?thesis using *(5) by (simp add: take_is_prefix)
qed

text \<open>If every packet the history was sent as has been processed, everything in it has been delivered.\<close>

lemma history_inv_reached:
  assumes inv: "history_inv a S X rp got" and w: "within_counters S"
    and xs: "process_outgoing_packets S (send_part_new a) = (xs, sp)" "distinct xs" "set xs \<subseteq> X"
    and A: "delivery_inv S A rp got" "\<forall>x\<in>X. \<exists>pre p post. S = pre @ p # post \<and>
      x \<in> set (wire a pre p) \<and> settled A got (split_packet_queue rp) pre p x"
    and p: "S = pre @ p # post" "length (data p) < 2 ^ 32"
  shows "reached A got pre p"
proof (rule ccontr)
  assume no: "\<not> reached A got pre p"
  let ?q = "split_packet_queue rp"
  have s: "settled A got ?q pre p x" if x: "x \<in> set (wire a pre p)" for x
  proof -
    obtain zs where "xs = fst (process_outgoing_packets pre (send_part_new a)) @ wire a pre p @ zs"
      using outgoing_wire [OF xs(1) p(1)] by blast
    then have "x \<in> X" using x xs(3) by auto
    then obtain pre' p' post' where o: "S = pre' @ p' # post'" "x \<in> set (wire a pre' p')"
      "settled A got ?q pre' p' x" using A(2) by blast
    then show ?thesis using origin_unique [OF xs(1,2) p(1) x o(1,2)] p(1) by simp
  qed
  obtain x0 where "x0 \<in> set (wire a pre p)" using wire_nonempty [of a pre p] by (cases "wire a pre p") auto
  then have nf: "\<not> fits p" using s no by (auto simp: settled_def)
  have h: "holds_part ?q (split_of pre) i" if i: "i < length (parts_of p)" for i
  proof -
    obtain x where x: "x \<in> set (wire a pre p)" "is_part (split_of pre) (parts_of p) i x"
      using wire_all_parts [OF nf i] by blast
    then obtain j where j: "is_part (split_of pre) (parts_of p) j x" "holds_part ?q (split_of pre) j"
      using s no by (auto simp: settled_def)
    then have "j = i" using x(2) parts_of_split(2) [OF nf p(2)] by (auto simp: is_part_def of_nat_u32_eq_iff)
    then show ?thesis using j(2) by simp
  qed
  have "0 < length (parts_of p)" using parts_of_split(1) [OF nf p(2)] by linarith
  then obtain parts where parts: "map_of ?q (split_of pre) = Some parts" using h by (auto simp: holds_part_def)
  have qi: "queue_inv S ?q" using inv by (simp add: history_inv_def)
  obtain pre' p' post' I where I: "S = pre' @ p' # post'" "\<not> fits p'" "split_of pre = split_of pre'" "I \<noteq> {}"
    "\<not> {..<length (parts_of p')} \<subseteq> I" "parts = collected (parts_of p') I"
    using qi [unfolded queue_inv_def, rule_format, OF parts] by blast
  have "pre = pre' \<and> p = p'" using split_unique [OF _ I(3) p(1) nf I(1,2)] w by (simp add: within_counters_def)
  then have "collecting (split_of pre) (parts_of p) I ?q" using parts I by (simp add: collecting_def)
  then show False using h I(5) \<open>pre = pre' \<and> p = p'\<close> by (auto simp: holds_part_collecting)
qed

lemma length_outgoing:
  assumes "process_outgoing_packets S sp = (xs, sp')" and "\<forall>x\<in>set S. length (data x) \<le> 255 * 1178"
  shows "length xs \<le> 255 * length S"
  using assms
proof (induction S arbitrary: sp xs)
  case (Cons p S)
  obtain xs1 sp1 where 1: "process_outgoing_packet p sp = (xs1, sp1)" by fastforce
  obtain xs2 sp2 where 2: "process_outgoing_packets S sp1 = (xs2, sp2)" by fastforce
  obtain rel sp3 where r: "next_rel_data (reliability p) sp = (rel, sp3)" by fastforce
  have "length xs1 \<le> 255"
    using 1 outgoing_fits [OF _ r] outgoing_split [OF _ r refl] length_parts_seen [of p] Cons.prems(2)
    by (cases "fits p") auto
  moreover have "length xs2 \<le> 255 * length S" using Cons.IH [of sp1 xs2] 1 2 Cons.prems by auto
  ultimately show ?case using Cons.prems(1) 1 2 by auto
qed simp

lemma history_inv_complete:
  assumes inv: "history_inv a S X rp got" and w: "within_counters S" and n: "length S \<le> 2 ^ 24"
    and xs: "process_outgoing_packets S (send_part_new a) = (xs, sp)" "set xs \<subseteq> X"
    and l: "\<forall>x\<in>set S. length (data x) \<le> 255 * 1178 \<and> \<not> is_disconnect (data x)"
  shows "ordered got = ordered S \<and> (\<forall>x\<in>set S. reliability x \<noteq> UnreliableSequenced \<longrightarrow> x \<in> set got)"
proof -
  obtain A where A: "delivery_inv S A rp got" "\<forall>x\<in>X. \<exists>pre p post. S = pre @ p # post \<and>
      x \<in> set (wire a pre p) \<and> settled A got (split_packet_queue rp) pre p x"
    using inv by (auto simp: history_inv_def)
  have "length xs \<le> 2 ^ 32" using length_outgoing [OF xs(1)] l n by fastforce
  then have dist: "distinct xs" using outgoing_distinct [OF xs(1)] by blast
  have r: "reached A got pre p" if "S = pre @ p # post" for pre p post
    using history_inv_reached [OF inv w xs(1) dist xs(2) A that] l that by fastforce
  obtain n m where *: "A \<subseteq> {..<length (ordered S)}" "ordered_inv 0 (\<lambda>k. ordered S ! k) A n rp"
    "ordered got = map (\<lambda>k. ordered S ! k) [0..<n]"
    using A(1) by (auto simp: delivery_inv_def)
  have nl: "n \<le> length (ordered S)" using delivery_inv_bounds [OF *(1,2)] .
  have "n = length (ordered S)"
  proof (rule ccontr)
    assume "n \<noteq> length (ordered S)"
    then have lt: "n < length (ordered S)" using nl by simp
    obtain pre p post where p: "S = pre @ p # post" "reliability p = ReliableOrdered" "length (ordered pre) = n"
      using filter_nth_split [OF lt] by blast
    then have "n \<in> A" using r [OF p(1)] l by (auto simp: reached_def)
    then show False using *(2) by (simp add: ordered_inv_def)
  qed
  then have o: "ordered got = ordered S" using *(3) by (simp add: map_nth)
  moreover have "x \<in> set got" if x: "x \<in> set S" "reliability x \<noteq> UnreliableSequenced" for x
  proof (cases "reliability x = ReliableOrdered")
    case True
    then have "x \<in> set (ordered got)" using o x(1) by simp
    then show ?thesis by simp
  next
    case False
    obtain pre post where "S = pre @ x # post" using split_list [OF x(1)] by blast
    then have "reached A got pre x" by (rule r)
    then show ?thesis using x False l by (cases "reliability x") (auto simp: reached_def)
  qed
  ultimately show ?thesis by blast
qed

section \<open>Reachable links\<close>

lemma linked_inv_pair:
  assumes "codec_laws R rbits W wbits" and "linked checks R W (p, q)"
  shows "\<exists>a. sender_inv a q \<and> receiver_inv a q p"
  using linked_inv [OF assms] by (auto simp: link_inv_def)

lemma link_receives:
  assumes "codec_laws R rbits W wbits" and "linked checks R W (p, q)"
    and "within_counters (peer_sent q)" and "d \<in> in_flight q"
  shows "\<exists>r c. handle_datagram R d (peer_conn p) = Some (r, c) \<and> (r = Err UnexpectedEof \<or> (\<exists>ps. r = Ok ps))"
proof -
  obtain a where a: "sender_inv a q" "receiver_inv a q p" using linked_inv_pair [OF assms(1,2)] by blast
  then obtain xs where xs: "process_outgoing_packets (peer_sent q) (send_part_new a) = (xs, conn_send (peer_conn q))"
    "\<forall>x\<in>set (peer_sent q). length (data x) \<le> 255 * 1178" "from_history xs d"
    using assms(4) by (auto simp: sender_inv_def)
  from handle_from_history [OF codec_reader [OF assms(1)] xs _ assms(3)] show ?thesis
    using a(2) assms(3) unfolding receiver_inv_def by blast
qed

text \<open>A peer can catch up: the datagrams in flight can be delivered one after the other.\<close>

lemma link_catches_up:
  assumes C: "codec_laws R rbits W wbits" and w: "within_counters (peer_sent q)"
    and "linked checks R W (p, q)" and "finite D" "D \<subseteq> in_flight q"
  shows "\<exists>p'. linked checks R W (p', q) \<and> D \<subseteq> set (peer_heard p')"
  using assms(4,5)
proof (induction rule: finite_induct)
  case empty
  then show ?case using assms(3) by blast
next
  case (insert d D)
  then obtain p' where p': "linked checks R W (p', q)" "D \<subseteq> set (peer_heard p')" by auto
  obtain r c where "handle_datagram R d (peer_conn p') = Some (r, c)"
    using link_receives [OF C p'(1) w, of d] insert.prems by auto
  then obtain p'' where p'': "peer_receive R d p' = Some p''" "peer_heard p'' = peer_heard p' @ [d]"
    by (auto simp: peer_receive_eq)
  then have "linked checks R W (p'', q)"
    using insert.prems by (intro linked.step [OF p'(1)] link_step.receive) auto
  then show ?case using p'(2) p''(2) by (intro exI [of _ p'']) auto
qed

section \<open>Properties\<close>

text \<open>C4: over a network that loses, repeats and reorders datagrams, on which sends may fail, the reliable
  ordered packets a peer has returned are at every moment the first ones the other peer was given to
  send, each once; the unreliable sequenced ones are some of those sent, in their order and none twice;
  and nothing is returned that was not sent. The counters are not to wrap around: 2^31 - 1 packets of
  either kind, 2^16 split packets.\<close>

theorem link_delivers_in_order:
  assumes "codec_laws R rbits W wbits" and "linked checks R W (p, q)"
    and "within_counters (peer_sent q)"
  shows "prefix (ordered (peer_got p)) (ordered (peer_sent q)) \<and>
    subseq (sequenced (peer_got p)) (sequenced (peer_sent q)) \<and>
    set (peer_got p) \<subseteq> set (peer_sent q)"
  using linked_inv_pair [OF assms(1,2)] assms(3) history_inv_delivered
  unfolding receiver_inv_def by blast

text \<open>C31: no datagram a connection sends makes its peer panic or hang, whatever was lost before it: the
  packets are returned, or the end of the file for a datagram of acknowledgements alone.\<close>

theorem link_never_panics:
  assumes "codec_laws R rbits W wbits" and "linked checks R W (p, q)"
    and "within_counters (peer_sent q)" and "d \<in> in_flight q"
  shows "\<exists>r c. handle_datagram R d (peer_conn p) = Some (r, c) \<and> (r = Err UnexpectedEof \<or> (\<exists>ps. r = Ok ps))"
  by (rule link_receives [OF assms])

text \<open>C5: once every datagram of a peer has arrived, in any order and any of them repeatedly, all its
  reliable ordered packets have been returned, in order and once each, and all its reliable and
  unreliable ones at least once; only sequenced packets may be skipped. So the receiver holds back
  nothing that it could deliver, and reassembles every split packet.\<close>

theorem link_completes:
  assumes "codec_laws R rbits W wbits" and "linked checks R W (p, q)"
    and "within_counters (peer_sent q)" and "length (peer_sent q) \<le> 2 ^ 24" and "\<not> peer_failed q"
    and "in_flight q \<subseteq> set (peer_heard p)" and "\<forall>x\<in>set (peer_sent q). \<not> is_disconnect (data x)"
  shows "ordered (peer_got p) = ordered (peer_sent q) \<and>
    (\<forall>x\<in>set (peer_sent q). reliability x \<noteq> UnreliableSequenced \<longrightarrow> x \<in> set (peer_got p))"
proof -
  obtain a where a: "sender_inv a q" "receiver_inv a q p" using linked_inv_pair [OF assms(1,2)] by blast
  then obtain xs where xs: "process_outgoing_packets (peer_sent q) (send_part_new a) = (xs, conn_send (peer_conn q))"
    "\<forall>x\<in>set (peer_sent q). length (data x) \<le> 255 * 1178"
    "\<forall>x\<in>set xs. \<exists>d\<in>in_flight q. packets_in d = [x]"
    using assms(5) by (auto simp: sender_inv_def)
  let ?X = "\<Union>d\<in>set (peer_heard p). set (packets_in d)"
  have X: "set xs \<subseteq> ?X"
  proof
    fix x assume "x \<in> set xs"
    then obtain d where "d \<in> in_flight q" "packets_in d = [x]" using xs(3) by blast
    then show "x \<in> ?X" using assms(6) by (intro UN_I [of d]) auto
  qed
  have h: "history_inv a (peer_sent q) ?X (conn_recv (peer_conn p)) (peer_got p)"
    using a(2) assms(3) by (simp add: receiver_inv_def)
  have l: "\<forall>x\<in>set (peer_sent q). length (data x) \<le> 255 * 1178 \<and> \<not> is_disconnect (data x)"
    using xs(2) assms(7) by blast
  show ?thesis by (rule history_inv_complete [OF h assms(3,4) xs(1) X l])
qed

section \<open>A run of the link\<close>

definition link_packets :: "packet list" where
  "link_packets = [mk_packet ReliableOrdered (replicate 3000 1), mk_packet Unreliable [2, 3]]"

definition link_sender :: peer where
  "link_sender = peer_send True bits_writer link_packets (peer_new (localhost 1) udp_idle)"

lemma link_sender_facts:
  "\<And>a u. udp_sent u = [] \<Longrightarrow> linked True bits_reader bits_writer (peer_new a u, link_sender)"
  "peer_sent link_sender = link_packets" "\<not> peer_failed link_sender"
  "within_counters link_packets" "\<forall>x\<in>set link_packets. \<not> is_disconnect (data x)"
proof -
  have o: "sendable link_packets (peer_new (localhost 1) udp_idle)"
    by (simp add: sendable_def link_packets_def peer_new_def connection_new_def rl_new_def mk_packet_def)
  show "linked True bits_reader bits_writer (peer_new a u, link_sender)" if "udp_sent u = []" for a u
    unfolding link_sender_def
    by (rule linked.step [OF linked.start [OF that] link_step.other [OF link_step.send [OF o]]])
      (simp add: udp_idle_def)
  obtain qs sp' where "process_outgoing_packets link_packets (send_part_new (localhost 1)) = (qs, sp')" by fastforce
  note s = writer_laws.send_packets_datagrams [OF codec_writer [OF bits_codec] _ this, of udp_idle]
  show "peer_sent link_sender = link_packets" "\<not> peer_failed link_sender"
    using s by (simp_all add: link_sender_def peer_send_def connection_send_def peer_new_def connection_new_def
        udp_reliable_def udp_idle_def)
  show "within_counters link_packets" "\<forall>x\<in>set link_packets. \<not> is_disconnect (data x)"
    by (simp_all add: within_counters_def link_packets_def mk_packet_def window_def is_disconnect_def)
qed

theorem link_delivers_in_order_witness:
  "\<exists>p. linked True bits_reader bits_writer (p, link_sender) \<and> in_flight link_sender \<subseteq> set (peer_heard p) \<and>
    prefix (ordered (peer_got p)) (ordered link_packets) \<and> set (peer_got p) \<subseteq> set link_packets"
proof -
  note f = link_sender_facts
  have w: "within_counters (peer_sent link_sender)" using f(2,4) by simp
  obtain p where p: "linked True bits_reader bits_writer (p, link_sender)" "in_flight link_sender \<subseteq> set (peer_heard p)"
    using link_catches_up [OF bits_codec w f(1) [of udp_idle "localhost 2"], of "in_flight link_sender"]
    by (auto simp: udp_idle_def)
  then show ?thesis using link_delivers_in_order [OF bits_codec p(1) w] f(2) by auto
qed

theorem link_completes_witness:
  "\<exists>p. linked True bits_reader bits_writer (p, link_sender) \<and> ordered (peer_got p) = ordered link_packets \<and>
    mk_packet Unreliable [2, 3] \<in> set (peer_got p)"
proof -
  note f = link_sender_facts
  have w: "within_counters (peer_sent link_sender)" using f(2,4) by simp
  obtain p where p: "linked True bits_reader bits_writer (p, link_sender)" "in_flight link_sender \<subseteq> set (peer_heard p)"
    using link_catches_up [OF bits_codec w f(1) [of udp_idle "localhost 2"], of "in_flight link_sender"]
    by (auto simp: udp_idle_def)
  have "mk_packet Unreliable [2, 3] \<in> set link_packets" "length link_packets \<le> 2 ^ 24"
    by (simp_all add: link_packets_def)
  then show ?thesis using link_completes [OF bits_codec p(1) w _ f(3) p(2)] f(2,5) p(1)
    by (auto simp: mk_packet_def)
qed

theorem link_never_panics_witness:
  "\<exists>d r c. d \<in> in_flight link_sender \<and>
    handle_datagram bits_reader d (connection_new (localhost 2)) = Some (r, c) \<and>
    (r = Err UnexpectedEof \<or> (\<exists>ps. r = Ok ps))"
proof -
  note f = link_sender_facts
  have l: "linked True bits_reader bits_writer (peer_new (localhost 2) udp_idle, link_sender)"
    by (rule f(1)) (simp add: udp_idle_def)
  obtain a where "sender_inv a link_sender" using linked_inv_pair [OF bits_codec l] by blast
  then obtain xs where xs: "process_outgoing_packets link_packets (send_part_new a) = (xs, conn_send (peer_conn link_sender))"
    "\<forall>x\<in>set xs. \<exists>d\<in>in_flight link_sender. packets_in d = [x]"
    using f(2,3) by (auto simp: sender_inv_def)
  have "xs \<noteq> []"
    using outgoing_wire [OF xs(1), of "[]"] wire_nonempty [of a "[]"] by (fastforce simp: link_packets_def)
  then obtain d where d: "d \<in> in_flight link_sender" using xs(2) by (cases xs) auto
  then show ?thesis using link_never_panics [OF bits_codec l _ d] f(2,4)
    by (auto simp: peer_new_def)
qed

end
