(* ===== verification/Relay.thy ===== *)
theory Relay
  imports Link Turn
begin

text \<open>
  A bridge whose client is on the other side of a network that loses, repeats and reorders datagrams:
  what reaches the server, whatever the server sends at the same time. And what a datagram of
  acknowledgements alone does to a bridge.
\<close>

section \<open>A TCP stream that is read and written\<close>

text \<open>Reading does not keep a stream from accepting writes.\<close>

locale tcp_duplex = tcp_full T unread sent full
  for T :: "'tcp tcp_ops" and unread :: "'tcp \<Rightarrow> u8 list" and sent :: "'tcp \<Rightarrow> u8 list"
    and full :: "'tcp \<Rightarrow> bool" +
  assumes read_full: "full t \<Longrightarrow> tcp_read T n t = (r, t') \<Longrightarrow> full t'"
begin

lemma read_part_keeps:
  assumes "read_part T off bytes t = (r, t')" and "full t"
  shows "full t' \<and> sent t' = sent t"
proof -
  obtain r1 t1 where 1: "tcp_read T (length bytes - off) t = (r1, t1)" by fastforce
  then have "t' = t1" using assms(1) by (cases r1) (auto simp: read_part_def split: if_splits)
  then show ?thesis using read_full [OF assms(2) 1] 1 read_ok read_err read_panic by (cases r1) fastforce+
qed

lemma tcp_step_keeps:
  assumes "tcp_step T (b, t) = (r, b', t')" and "full t"
  shows "full t' \<and> sent t' = sent t"
  using assms read_part_keeps
  by (cases "reading_length b"; cases "buf_offset b < length (length_bytes b)"; cases "buf_offset b < length (buffer b)")
    (fastforce simp: tcp_step_def split: prod.splits res.splits)+

lemma receive_tcp_keeps:
  assumes r: "receive_tcp T packets s = Some y" and "full (snd s)"
  shows "case y of (r, packets', s') \<Rightarrow> full (snd s') \<and> sent (snd s') = sent (snd s)"
proof -
  let ?P = "\<lambda>s y. full (snd s) \<longrightarrow> (case y of (r, packets', s') \<Rightarrow> full (snd s') \<and> sent (snd s') = sent (snd s))"
  have "T = T \<longrightarrow> ?P s y"
  proof (rule receive_tcp.raw_induct [where P = "\<lambda>U packets s y. U = T \<longrightarrow> ?P s y", OF _ r])
    fix f and U :: "'tcp tcp_ops" and packets s y
    assume IH: "\<And>U packets s y. f U packets s = Some y \<Longrightarrow> U = T \<longrightarrow> ?P s y"
      and step: "(case tcp_step U s of (Ok new, s) \<Rightarrow> f U (packets @ new) s
        | (Err e, s) \<Rightarrow> Some (Err e, packets, s)
        | (Panic, s) \<Rightarrow> Some (Panic, packets, s)) = Some y"
    obtain r1 b1 t1 where 1: "tcp_step U s = (r1, b1, t1)" by (cases "tcp_step U s") auto
    show "U = T \<longrightarrow> ?P s y"
    proof (intro impI)
      assume U: "U = T" and full: "full (snd s)"
      have "tcp_step T (fst s, snd s) = (r1, b1, t1)" using 1 U by simp
      note k = tcp_step_keeps [OF this full]
      show "case y of (r, packets', s') \<Rightarrow> full (snd s') \<and> sent (snd s') = sent (snd s)"
      proof (cases r1)
        case (Ok new)
        then have "f U (packets @ new) (b1, t1) = Some y" using step 1 by simp
        from IH [OF this] U k show ?thesis by auto
      qed (use step 1 k in auto)
    qed
  qed
  then show ?thesis using assms(2) by blast
qed

end

interpretation script_duplex: tcp_duplex script_tcp st_unread st_sent "\<lambda>t. st_writes t = []"
  by unfold_locales (auto simp: script_tcp_def split: prod.splits)

section \<open>What the server side of a bridge has been given\<close>

text \<open>Since it was \<open>c0\<close>, exactly the packets \<open>ps\<close> have been sent to the server through \<open>c\<close>.\<close>

definition passed_on ::
  "('tcp \<Rightarrow> u8 list) \<Rightarrow> ('tcp \<Rightarrow> bool) \<Rightarrow> 'tcp tu_conn \<Rightarrow> packet list \<Rightarrow> 'tcp tu_conn \<Rightarrow> bool" where
  "passed_on sent full c0 ps c \<longleftrightarrow> full (tu_tcp c) \<and> udp_reliable (tu_udp c) \<and> tu_peer c = tu_peer c0 \<and>
     sent (tu_tcp c) = sent (tu_tcp c0) @ tcp_wire ps \<and>
     udp_sent (tu_udp c) = udp_sent (tu_udp c0) @ map (Pair (tu_peer c0)) (udp_wire (seq_num_send c0) ps) \<and>
     seq_num_send c = seq_after (seq_num_send c0) ps"

lemma passed_on_start: "full (tu_tcp c) \<Longrightarrow> udp_reliable (tu_udp c) \<Longrightarrow> passed_on sent full c [] c"
  by (simp add: passed_on_def tcp_wire_def)

lemma udp_wire_append: "udp_wire n (ps @ qs) = udp_wire n ps @ udp_wire (seq_after n ps) qs"
  by (induction ps arbitrary: n) (simp_all split: reliability.split)

lemma seq_after_append: "seq_after n (ps @ qs) = seq_after (seq_after n ps) qs"
  by (induction ps arbitrary: n) simp_all

lemma tcp_wire_append: "tcp_wire (ps @ qs) = tcp_wire ps @ tcp_wire qs"
  by (simp add: tcp_wire_def)

context tcp_duplex
begin

lemma passed_on_send:
  assumes "endio_laws E" and "passed_on sent full c0 ps c" and "tu_send E T qs c = (r, c')"
  shows "r = Ok () \<and> passed_on sent full c0 (ps @ qs) c'"
proof -
  have "full (tu_tcp c)" "udp_reliable (tu_udp c)" using assms(2) by (simp_all add: passed_on_def)
  from tu_send_wire [OF assms(1) this, of qs] assms(2,3) show ?thesis
    by (auto simp: passed_on_def udp_wire_append seq_after_append tcp_wire_append udp_reliable_def)
qed

lemma passed_on_receive:
  assumes "passed_on sent full c0 ps c" and "tu_receive E T (BUF, c) = Some (r, BUF', c')"
  shows "passed_on sent full c0 ps c'"
proof -
  have f: "full (tu_tcp c)" using assms(1) by (simp add: passed_on_def)
  obtain r1 packets b t where 1: "receive_tcp T [] (partial_packet c, tu_tcp c) = Some (r1, packets, b, t)"
    using assms(2) by (auto simp: tu_receive_def split: option.splits)
  have k: "full t" "sent t = sent (tu_tcp c)" using receive_tcp_keeps [OF 1] f by simp_all
  let ?c = "c\<lparr>partial_packet := b, tu_tcp := t\<rparr>"
  have p: "passed_on sent full c0 ps ?c" using assms(1) k by (simp add: passed_on_def)
  show ?thesis
  proof (cases "r1 = Err WouldBlock")
    case True
    obtain r2 packets2 B2 c2 where 2: "receive_udp E packets (BUF, ?c) = (r2, packets2, B2, c2)"
      by (cases "receive_udp E packets (BUF, ?c)") auto
    then have "c' = c2" using assms(2) 1 True
      by (cases r2; auto simp: tu_receive_def split: io_error.splits)
    then show ?thesis using p receive_udp_kept [OF 2]
      by (simp add: passed_on_def udp_reliable_def)
  next
    case False
    then have "c' = ?c" using assms(2) 1 by (cases r1) (auto simp: tu_receive_def)
    then show ?thesis using p by simp
  qed
qed

end

section \<open>A client, the network and a bridge\<close>

text \<open>The client sends and hears anything; the bridge handles any datagram the client has ever sent, and
  takes from the server what arrives there. A bridge that returns an error is removed, so the states
  after an error are none of a bridge.\<close>

inductive relay_step ::
  "('os, 'tcp, 'r, 'w) env \<Rightarrow> bool \<Rightarrow> 'x bit_reader \<Rightarrow> 'y bit_writer \<Rightarrow>
   'tcp bridge \<times> peer \<Rightarrow> 'tcp bridge \<times> peer \<Rightarrow> bool"
  for env checks R W
where
  client_sends: "sendable ps q \<Longrightarrow> relay_step env checks R W (b, q) (b, peer_send checks W ps q)"
| client_hears: "peer_receive R d q = Some q' \<Longrightarrow> relay_step env checks R W (b, q) (b, q')"
| bridge_hears: "d \<in> in_flight q \<Longrightarrow> bridge_raknet_receive env d b = Some (Ok (), b') \<Longrightarrow>
    relay_step env checks R W (b, q) (b', q)"
| server_sends: "bridge_tcpudp_receive env addrs (BUF, os, udp, b) = Some (Ok cmds, BUF', os', udp', b') \<Longrightarrow>
    relay_step env checks R W (b, q) (b', q)"

inductive relayed ::
  "('os, 'tcp, 'r, 'w) env \<Rightarrow> bool \<Rightarrow> 'x bit_reader \<Rightarrow> 'y bit_writer \<Rightarrow> 'tcp tu_conn \<Rightarrow> 'tcp bridge \<times> peer \<Rightarrow> bool"
  for env checks R W c0
where
  start: "udp_sent v = [] \<Longrightarrow> relayed env checks R W c0 (bridge_new (connection_new a) c0, peer_new a' v)"
| step: "relayed env checks R W c0 s \<Longrightarrow> relay_step env checks R W s s' \<Longrightarrow> relayed env checks R W c0 s'"

definition relay_inv ::
  "('tcp \<Rightarrow> u8 list) \<Rightarrow> ('tcp \<Rightarrow> bool) \<Rightarrow> 'tcp tu_conn \<Rightarrow> sock_addr \<Rightarrow> 'tcp bridge \<times> peer \<Rightarrow> bool" where
  "relay_inv sent full c0 a s \<longleftrightarrow> (case s of (b, q) \<Rightarrow> sender_inv a q \<and>
     (within_counters (peer_sent q) \<longrightarrow> (\<exists>ps X. passed_on sent full c0 ps (tcpudp b) \<and>
        history_inv a (peer_sent q) X (conn_recv (raknet b)) ps)))"

text \<open>Sending to the client does not touch what is received from it.\<close>

lemma connection_send_recv: "connection_send checks W ps (c, u) = (r, c', u') \<Longrightarrow> conn_recv c' = conn_recv c"
  by (auto simp: connection_send_def split: if_splits prod.splits)

lemma bridge_raknet_receive_ok:
  assumes "bridge_raknet_receive env d b = Some (Ok (), b')"
  shows "\<exists>ps c t. handle_datagram (env_reader env) d (raknet b) = Some (Ok ps, c) \<and>
    tu_send (env_endio env) (env_tcp env) ps (tcpudp b) = (Ok (), t) \<and> b' = b\<lparr>raknet := c, tcpudp := t\<rparr>"
proof -
  obtain r c where h: "handle_datagram (env_reader env) d (raknet b) = Some (r, c)"
    using assms by (auto simp: bridge_raknet_receive_def)
  then obtain ps where ps: "r = Ok ps" using assms by (cases r) (auto simp: bridge_raknet_receive_def)
  obtain r1 t where "tu_send (env_endio env) (env_tcp env) ps (tcpudp b) = (r1, t)" by fastforce
  then show ?thesis using assms h ps by (cases r1) (auto simp: bridge_raknet_receive_def)
qed

context tcp_duplex
begin

lemma relay_inv_step:
  assumes C: "codec_laws (env_reader env) rbits W wbits" and E: "endio_laws (env_endio env)" and T: "env_tcp env = T"
    and "relay_step env checks R W s s'" and "relay_inv sent full c0 a s"
  shows "relay_inv sent full c0 a s'"
  using assms(4,5)
proof (induction rule: relay_step.induct)
  case (client_sends ps q b)
  then have "sender_inv a (peer_send checks W ps q)"
    using sender_inv_send [OF codec_writer [OF C]] by (simp add: relay_inv_def)
  moreover obtain qs where "peer_sent (peer_send checks W ps q) = peer_sent q @ qs" using peer_send_sent by blast
  ultimately show ?case using client_sends(2) history_inv_extend within_counters_prefix
    unfolding relay_inv_def by auto metis
next
  case (client_hears d q q' b)
  then show ?case using peer_receive_keeps [OF client_hears(1)] by (simp add: relay_inv_def)
next
  case (bridge_hears d q b b')
  obtain ps c t where 1: "handle_datagram (env_reader env) d (raknet b) = Some (Ok ps, c)"
    "tu_send (env_endio env) T ps (tcpudp b) = (Ok (), t)" "b' = b\<lparr>raknet := c, tcpudp := t\<rparr>"
    using bridge_raknet_receive_ok [OF bridge_hears(2)] T by auto
  show ?case unfolding relay_inv_def prod.case
  proof (intro conjI impI)
    show "sender_inv a q" using bridge_hears(3) by (simp add: relay_inv_def)
    assume w: "within_counters (peer_sent q)"
    then obtain ps0 X where inv: "passed_on sent full c0 ps0 (tcpudp b)"
      "history_inv a (peer_sent q) X (conn_recv (raknet b)) ps0"
      using bridge_hears(3) by (auto simp: relay_inv_def)
    obtain xs where xs: "process_outgoing_packets (peer_sent q) (send_part_new a) = (xs, conn_send (peer_conn q))"
      "\<forall>x\<in>set (peer_sent q). length (data x) \<le> 255 * 1178" "from_history xs d"
      using bridge_hears(1,3) by (auto simp: relay_inv_def sender_inv_def)
    from handle_from_history [OF codec_reader [OF C] xs inv(2) w] 1(1)
    have "history_inv a (peer_sent q) (set (packets_in d) \<union> X) (conn_recv c) (ps0 @ ps)"
      by (auto simp: delivered_def)
    moreover have "passed_on sent full c0 (ps0 @ ps) t" using passed_on_send [OF E inv(1) 1(2)] by simp
    ultimately show "\<exists>ps X. passed_on sent full c0 ps (tcpudp b') \<and>
        history_inv a (peer_sent q) X (conn_recv (raknet b')) ps" using 1(3) by auto
  qed
next
  case (server_sends addrs BUF os udp b cmds BUF' os' udp' b' q)
  obtain ps r where c: "connection_send (env_checks env) (env_writer env) ps (raknet b, udp) = (Ok (), raknet b', udp')"
    and t: "tu_receive (env_endio env) T (BUF, tcpudp b) = Some (r, BUF', tcpudp b')"
    using bridge_tcpudp_receive_sends [OF server_sends(1)] T by blast
  show ?case using server_sends(2) passed_on_receive [OF _ t] connection_send_recv [OF c]
    unfolding relay_inv_def by auto
qed

lemma relayed_inv:
  assumes "codec_laws (env_reader env) rbits W wbits" and "endio_laws (env_endio env)" and "env_tcp env = T"
    and "full (tu_tcp c0)" and "udp_reliable (tu_udp c0)" and "relayed env checks R W c0 s"
  shows "\<exists>a. relay_inv sent full c0 a s"
  using assms(6)
proof (induction rule: relayed.induct)
  case (start v a a')
  then have "sender_inv a' (peer_new a' v)" by (rule sender_inv_start)
  moreover have "passed_on sent full c0 [] c0" by (rule passed_on_start [of full, OF assms(4,5)])
  ultimately show ?case using history_inv_start
    by (auto simp: relay_inv_def bridge_new_def connection_new_def peer_new_def)
next
  case (step s s')
  then show ?case using relay_inv_step [OF assms(1-3)] by blast
qed

end

text \<open>Datagrams that a bridge accepts one after the other are steps.\<close>

lemma relayed_datagrams:
  assumes "bridge_raknet_datagrams env ds b = Some (Ok (), b')" and "relayed env checks R W c0 (b, q)"
    and "set ds \<subseteq> in_flight q"
  shows "relayed env checks R W c0 (b', q)"
  using assms
proof (induction ds arbitrary: b)
  case (Cons d ds)
  then obtain b1 where 1: "bridge_raknet_receive env d b = Some (Ok (), b1)"
    "bridge_raknet_datagrams env ds b1 = Some (Ok (), b')"
    by (auto split: option.splits prod.splits res.splits)
  have "relayed env checks R W c0 (b1, q)"
    using Cons.prems(3) by (intro relayed.step [OF Cons.prems(2) relay_step.bridge_hears [OF _ 1(1)]]) simp
  then show ?case using Cons.IH [OF 1(2)] Cons.prems(3) by simp
qed simp

section \<open>Properties\<close>

text \<open>C3: the server gets what the client sends although the network between the client and the bridge
  loses, repeats and reorders datagrams, and whatever the server sends meanwhile: everything the bridge
  has put on the TCP stream and sent as UDP datagrams is the wire format of a list of packets that the
  client was given to send, of which the reliable ordered ones are the first ones it was given, each
  once, and the sequenced ones are in their order, none twice.\<close>

theorem bridge_relays_in_order:
  assumes "codec_laws (env_reader env) rbits W wbits" and "endio_laws (env_endio env)"
    and "tcp_duplex (env_tcp env) unread sent full" and "full (tu_tcp c0)" and "udp_reliable (tu_udp c0)"
    and "relayed env checks R W c0 (b, q)" and "within_counters (peer_sent q)"
  shows "\<exists>ps. sent (tu_tcp (tcpudp b)) = sent (tu_tcp c0) @ tcp_wire ps \<and>
    udp_sent (tu_udp (tcpudp b)) = udp_sent (tu_udp c0) @
      map (Pair (tu_peer c0)) (udp_wire (seq_num_send c0) ps) \<and>
    prefix (ordered ps) (ordered (peer_sent q)) \<and> subseq (sequenced ps) (sequenced (peer_sent q)) \<and>
    set ps \<subseteq> set (peer_sent q)"
proof -
  obtain a where "relay_inv sent full c0 a (b, q)"
    using tcp_duplex.relayed_inv [OF assms(3,1,2) refl assms(4-6)] by blast
  then obtain ps X where "passed_on sent full c0 ps (tcpudp b)"
    "history_inv a (peer_sent q) X (conn_recv (raknet b)) ps"
    using assms(7) by (auto simp: relay_inv_def)
  then show ?thesis using history_inv_delivered [of a "peer_sent q" X] unfolding passed_on_def by blast
qed

text \<open>C16: a datagram that only acknowledges one packet costs the client its bridge. A connection without
  packets to send writes such a datagram; it ends with the acknowledgements after exactly nine bytes, but
  the receiver goes on to read a bit. The shim takes the end of the file for a broken connection and
  removes the bridge.\<close>

theorem lone_ack_removes_bridge:
  assumes "codec_laws (env_reader env) rbits W wbits" and "udp_reliable udp" and "\<not> conn_closed client"
    and "conn_acks client = \<lparr>ranges = [mk_range n n]\<rparr>" and "map_of (bridges s) a = Some b"
  shows "\<exists>d. connection_send checks W [] (client, udp) = (Ok (), client\<lparr>conn_acks := rl_new\<rparr>,
      udp\<lparr>udp_sent := udp_sent udp @ [(sp_address (conn_send client), d)]\<rparr>) \<and> length d = 9 \<and>
    (\<forall>rest. shim_datagram env (d @ rest) 9 a (s, os) = Some (Ok (), s\<lparr>bridges := AList.delete a (bridges s),
      raknet_socket := bridge_drop env b (raknet_socket s)\<rparr>, os))"
proof -
  let ?acks = "\<lparr>ranges = [mk_range n n]\<rparr>"
  let ?d = "bytes_of_bits (acks_wire ?acks (conn_time client))"
  have l: "length (acks_wire ?acks (conn_time client)) = 72"
    by (simp add: acks_wire_def rl_is_empty_def rl_wire_def range_wire_def mk_range_def
        compressed_u16_wire_def lowest_wire_def)
  have ne: "\<not> rl_is_empty ?acks" by (simp add: rl_is_empty_def)
  have "connection_send checks W [] (client, udp) = (Ok (), client\<lparr>conn_acks := rl_new\<rparr>,
      udp\<lparr>udp_sent := udp_sent udp @ [(sp_address (conn_send client), ?d)]\<rparr>)"
    using writer_laws.send_packets_datagrams [OF codec_writer [OF assms(1)] assms(2), of "[]" "conn_send client"]
      assms(3,4) ne by (simp add: connection_send_def)
  moreover have "length ?d = 9" using l by (simp add: length_bytes_of_bits_eq)
  moreover have "handle_datagram (env_reader env) ?d (raknet b) = Some (Err UnexpectedEof, raknet b)"
    using acks_alone_end_early [OF codec_reader [OF assms(1)] ne, of "conn_time client" "raknet b"] l by simp
  then have "bridge_raknet_receive env ?d b = Some (Err UnexpectedEof, b)"
    by (simp add: bridge_raknet_receive_def)
  ultimately show ?thesis using assms(5)
    by (intro exI [of _ ?d]) (simp add: shim_datagram_def shim_client_def)
qed

section \<open>A run of the relay\<close>

theorem bridge_relays_in_order_witness:
  "\<exists>b. relayed sample_env True bits_reader bits_writer tu_sample (b, link_sender) \<and>
    st_sent (tu_tcp (tcpudp b)) = tcp_wire link_packets \<and>
    (\<exists>ps. tcp_wire link_packets = tcp_wire ps \<and> prefix (ordered ps) (ordered link_packets))"
proof -
  have c: "codec_laws (env_reader sample_env) id bits_writer id" "endio_laws (env_endio sample_env)"
    "tcp_duplex (env_tcp sample_env) st_unread st_sent (\<lambda>t. st_writes t = [])"
    by (simp_all add: sample_env_def bits_codec le_endio_laws script_duplex.tcp_duplex_axioms)
  have f: "st_writes (tu_tcp tu_sample) = []" "udp_reliable (tu_udp tu_sample)" "st_sent (tu_tcp tu_sample) = []"
    by (simp_all add: tu_sample_def tu_new_def udp_reliable_def)
  let ?b = "bridge_new (connection_new (localhost 5)) tu_sample" and ?c = "connection_new (localhost 1)"
  have "synced (conn_send ?c) (conn_recv (raknet ?b))"
    by (simp add: bridge_new_def connection_new_def synced_new)
  then obtain ds c' b where r: "connection_send True bits_writer link_packets (?c, udp_idle) =
      (Ok (), c', udp_idle\<lparr>udp_sent := udp_sent udp_idle @ map (Pair (sp_address (conn_send c'))) ds\<rparr>)"
    "bridge_raknet_datagrams sample_env ds ?b = Some (Ok (), b)"
    "st_sent (tu_tcp (tcpudp b)) = st_sent (tu_tcp (tcpudp ?b)) @ tcp_wire link_packets"
    using bridge_relays_client [OF c(1,2) tcp_duplex.axioms(1) [OF c(3)], of ?b udp_idle ?c link_packets True]
      link_sender_facts(5) f
    by (auto simp: bridge_new_def connection_new_def udp_idle_def udp_reliable_def rl_new_def link_packets_def mk_packet_def)
  have q: "in_flight link_sender = set ds"
    using r(1) by (auto simp: link_sender_def peer_send_def peer_new_def udp_idle_def image_image)
  have "relayed sample_env True bits_reader bits_writer tu_sample (?b, link_sender)"
    unfolding link_sender_def
    by (rule relayed.step [OF relayed.start relay_step.client_sends])
      (simp_all add: udp_idle_def sendable_def link_packets_def mk_packet_def peer_new_def connection_new_def rl_new_def)
  from relayed_datagrams [OF r(2) this] q
  have s: "relayed sample_env True bits_reader bits_writer tu_sample (b, link_sender)" by simp
  have w: "within_counters (peer_sent link_sender)" using link_sender_facts(2,4) by simp
  have "\<exists>ps. st_sent (tu_tcp (tcpudp b)) = st_sent (tu_tcp tu_sample) @ tcp_wire ps \<and>
      prefix (ordered ps) (ordered (peer_sent link_sender))"
    using bridge_relays_in_order [OF c f(1,2) s w] by blast
  then show ?thesis using s r(3) f(3) link_sender_facts(2) by (auto simp: bridge_new_def)
qed

theorem lone_ack_removes_bridge_witness:
  "\<exists>d. length d = 9 \<and> shim_datagram sample_env (d @ replicate 1191 0) 9 (localhost 5)
      (\<lparr>connect_addr = localhost 7, raknet_socket = udp_idle, bridges = [(localhost 5, sample_bridge)]\<rparr>, 0) =
    Some (Ok (), \<lparr>connect_addr = localhost 7,
      raknet_socket = bridge_drop sample_env sample_bridge udp_idle, bridges = []\<rparr>, 0)"
proof -
  have c: "codec_laws (env_reader sample_env) id bits_writer id" by (simp add: sample_env_def bits_codec)
  show ?thesis
    using lone_ack_removes_bridge [OF c, of udp_idle "(connection_new (localhost 9))\<lparr>conn_acks := \<lparr>ranges = [mk_range 3 3]\<rparr>\<rparr>"
        3 "\<lparr>connect_addr = localhost 7, raknet_socket = udp_idle, bridges = [(localhost 5, sample_bridge)]\<rparr>"
        "localhost 5" sample_bridge True 0]
    by (fastforce simp: udp_idle_def udp_reliable_def connection_new_def)
qed

end
