(* ===== verification/CodecTests.thy ===== *)
theory CodecTests
  imports RangeList FixStr
begin

text \<open>
  The unit tests of \<open>src/raknet/comp.rs\<close>, \<open>src/raknet/rangelist.rs\<close> and \<open>src/string.rs\<close>, translated
  as predicates on the model: a test is true when it runs to its end with every assertion met. The
  bit reader and writer of the crate \<open>endio_bit\<close> are arguments, and the tests are shown to pass
  for every reader and writer that keep the laws.
\<close>

section \<open>Assertions on outcomes\<close>

text \<open>\<open>unwrap()\<close> or \<open>?\<close> in a test, followed by the assertions on the value.\<close>

definition unwraps :: "'a res \<Rightarrow> ('a \<Rightarrow> bool) \<Rightarrow> bool" where
  "unwraps m P = (case m of Ok a \<Rightarrow> P a | _ \<Rightarrow> False)"

lemma unwraps_simps [simp]:
  "unwraps (Ok a) P = P a" "unwraps (Err e) P = False" "unwraps Panic P = False"
  by (simp_all add: unwraps_def)

lemma unwraps_map_state: "unwraps (map_state h m) (\<lambda>(v, _). P v) = unwraps m (\<lambda>(v, _). P v)"
  by (cases m) auto

lemma unwraps_map_res: "unwraps (map_res h m) P = unwraps m (\<lambda>w. P (h w))"
  by (cases m) auto

section \<open>Compressed integers\<close>

definition test_read_comp_u16_small :: "'r bit_reader \<Rightarrow> bool" where
  "test_read_comp_u16_small R =
     unwraps (read_compressed_u16 R (br_new R [0xf8])) (\<lambda>(v, _). v = 14)"

definition test_read_comp_u16_large :: "'r bit_reader \<Rightarrow> bool" where
  "test_read_comp_u16_large R =
     unwraps (read_compressed_u16 R (br_new R [0x33, 0xdd, 0x80])) (\<lambda>(v, _). v = 47975)"

definition test_write_comp_u16_small :: "'w bit_writer \<Rightarrow> bool" where
  "test_write_comp_u16_small W =
     unwraps (write_compressed_u16 W 14 (bw_new W)) (\<lambda>w. bw_finish W w = [0xf8])"

definition test_write_comp_u16_large :: "'w bit_writer \<Rightarrow> bool" where
  "test_write_comp_u16_large W =
     unwraps (write_compressed_u16 W 47975 (bw_new W)) (\<lambda>w. bw_finish W w = [0x33, 0xdd, 0x80])"

definition test_read_comp_u32_small :: "'r bit_reader \<Rightarrow> bool" where
  "test_read_comp_u32_small R =
     unwraps (read_compressed_u32 R (br_new R [0xfe])) (\<lambda>(v, _). v = 14)"

definition test_read_comp_u32_large :: "'r bit_reader \<Rightarrow> bool" where
  "test_read_comp_u32_large R =
     unwraps (read_compressed_u32 R (br_new R [0x29, 0x43, 0x7f, 0xf4, 0x80])) (\<lambda>(v, _). v = 3925837394)"

definition test_write_comp_u32_small :: "'w bit_writer \<Rightarrow> bool" where
  "test_write_comp_u32_small W =
     unwraps (write_compressed_u32 W 14 (bw_new W)) (\<lambda>w. bw_finish W w = [0xfe])"

definition test_write_comp_u32_large :: "'w bit_writer \<Rightarrow> bool" where
  "test_write_comp_u32_large W =
     unwraps (write_compressed_u32 W 3925837394 (bw_new W))
       (\<lambda>w. bw_finish W w = [0x29, 0x43, 0x7f, 0xf4, 0x80])"

text \<open>Every conforming reader gives a test the value the bit lists give it.\<close>

context reader_laws
begin

lemma comp_reads:
  "unwraps (read_compressed_u16 R (br_new R bs)) (\<lambda>(v, _). P v) =
     unwraps (read_compressed_u16 bits_reader (bytes_bits bs)) (\<lambda>(v, _). P v)"
  "unwraps (read_compressed_u32 R (br_new R bs)) (\<lambda>(v, _). Q v) =
     unwraps (read_compressed_u32 bits_reader (bytes_bits bs)) (\<lambda>(v, _). Q v)"
  using unwraps_map_state [of rbits "read_compressed_u16 R (br_new R bs)" P]
    unwraps_map_state [of rbits "read_compressed_u32 R (br_new R bs)" Q]
  by (simp_all add: sim_read_compressed_u16 sim_read_compressed_u32 rd_new)

lemma comp_read_tests:
  "test_read_comp_u16_small R" "test_read_comp_u16_large R"
  "test_read_comp_u32_small R" "test_read_comp_u32_large R"
  unfolding test_read_comp_u16_small_def test_read_comp_u16_large_def test_read_comp_u32_small_def
    test_read_comp_u32_large_def comp_reads
  by code_simp+

end

context writer_laws
begin

lemma comp_write_tests:
  "test_write_comp_u16_small W" "test_write_comp_u16_large W"
  "test_write_comp_u32_small W" "test_write_comp_u32_large W"
proof -
  have 1: "unwraps (write_compressed_u16 W x (bw_new W)) (\<lambda>w. bw_finish W w = bs) \<longleftrightarrow>
      bytes_of_bits (compressed_u16_wire x) = bs" for x bs
    using unwraps_map_res [of wbits "write_compressed_u16 W x (bw_new W)" "\<lambda>w. bytes_of_bits w = bs"]
    by (simp add: write_compressed_u16_wire wr_new wr_finish)
  have 2: "unwraps (write_compressed_u32 W x (bw_new W)) (\<lambda>w. bw_finish W w = bs) \<longleftrightarrow>
      bytes_of_bits (compressed_u32_wire x) = bs" for x bs
    using unwraps_map_res [of wbits "write_compressed_u32 W x (bw_new W)" "\<lambda>w. bytes_of_bits w = bs"]
    by (simp add: write_compressed_u32_wire wr_new wr_finish)
  show "test_write_comp_u16_small W" "test_write_comp_u16_large W"
    "test_write_comp_u32_small W" "test_write_comp_u32_large W"
    unfolding test_write_comp_u16_small_def test_write_comp_u16_large_def
      test_write_comp_u32_small_def test_write_comp_u32_large_def 1 2
    by code_simp+
qed

end

section \<open>Range lists\<close>

definition DATA :: "u8 list" where
  "DATA = [0xd0, 0x02, 0x00, 0x00, 0x00, 0x06, 0x00, 0x00, 0x00, 0x05, 0x00, 0x00, 0x00, 0x06, 0x00,
     0x00, 0x00, 0x84, 0x00, 0x00, 0x00, 0x03, 0x80, 0x00, 0x00, 0x04, 0x40, 0x00, 0x00, 0x00]"

definition test_insert :: bool where
  "test_insert =
     unwraps (add_all rl_insert rl_new [1, 2, 3, 4]) (\<lambda>l. ranges l = [mk_range 1 4])"

definition test_underflow :: bool where
  "test_underflow =
     unwraps (and_then (rl_insert rl_new 0) (\<lambda>l. rl_insert l 0)) (\<lambda>l. ranges l = [mk_range 0 0])"

definition test_overflow :: bool where
  "test_overflow =
     unwraps (and_then (rl_insert rl_new (- 1)) (\<lambda>l. rl_insert l (- 1)))
       (\<lambda>l. ranges l = [mk_range (- 1) (- 1)])"

definition create_multiple_ranges :: "range_list res" where
  "create_multiple_ranges = add_all rl_insert rl_new [1, 2, 3, 5, 6, 8, 14, 15, 16, 17]"

definition assert_multiple_ranges :: "range_list \<Rightarrow> bool" where
  "assert_multiple_ranges l \<longleftrightarrow> rl_len True l = Ok 10 \<and>
     ranges l = [mk_range 1 3, mk_range 5 6, mk_range 8 8, mk_range 14 17]"

definition test_multiple_ranges :: bool where
  "test_multiple_ranges = unwraps create_multiple_ranges assert_multiple_ranges"

definition test_clear :: bool where
  "test_clear = unwraps create_multiple_ranges (\<lambda>l. ranges (rl_clear l) = [])"

definition test_serialize :: "'w bit_writer \<Rightarrow> bool" where
  "test_serialize W =
     unwraps create_multiple_ranges (\<lambda>l.
     unwraps (rl_write W l (bw_new W)) (\<lambda>w. bw_finish W w = DATA))"

definition test_deserialize :: "'r bit_reader \<Rightarrow> bool" where
  "test_deserialize R = unwraps (rl_read R (br_new R DATA)) (\<lambda>(l, _). assert_multiple_ranges l)"

lemma multiple_ranges_eq:
  "create_multiple_ranges = Ok \<lparr>ranges = [mk_range 1 3, mk_range 5 6, mk_range 8 8, mk_range 14 17]\<rparr>"
  by code_simp

lemma range_list_tests:
  "test_insert" "test_underflow" "test_overflow" "test_multiple_ranges" "test_clear"
  by code_simp+

lemma multiple_ranges_wire:
  "bytes_of_bits (rl_wire \<lparr>ranges = [mk_range 1 3, mk_range 5 6, mk_range 8 8, mk_range 14 17]\<rparr>) = DATA"
  by code_simp

context writer_laws
begin

lemma serialize_test: "test_serialize W"
proof -
  let ?l = "\<lparr>ranges = [mk_range 1 3, mk_range 5 6, mk_range 8 8, mk_range 14 17]\<rparr>"
  obtain w where "rl_write W ?l (bw_new W) = Ok w" "wbits w = rl_wire ?l"
    using encodes_rl [of ?l, unfolded encodes_def, rule_format, of "bw_new W"] by (auto simp: wr_new)
  then show ?thesis by (simp add: test_serialize_def multiple_ranges_eq wr_finish multiple_ranges_wire)
qed

end

context reader_laws
begin

lemma deserialize_test: "test_deserialize R"
proof -
  have "unwraps (rl_read bits_reader (bytes_bits DATA)) (\<lambda>(l, _). assert_multiple_ranges l)" by code_simp
  then show ?thesis
    using unwraps_map_state [of rbits "rl_read R (br_new R DATA)" assert_multiple_ranges]
    by (simp add: test_deserialize_def sim_rl_read rd_new)
qed

end

section \<open>Fixed strings\<close>

text \<open>The bytes of a string literal, and \<open>\0\<close>.\<close>

definition ascii :: "string \<Rightarrow> u8 list" where
  "ascii s = map of_char s"

definition test_read_long :: bool where
  "test_read_long =
     unwraps (read_fix (ascii ''a thirty-two bytes long str test'' @ [0]))
       (\<lambda>(s, reader). s = ascii ''a thirty-two bytes long str test'' \<and> reader = [])"

definition test_read_short :: bool where
  "test_read_short =
     unwraps (read_fix (ascii ''short'' @ [0] @ ascii ''garbage garbage garbage '' @ [0xff, 0xff, 0xff]))
       (\<lambda>(s, reader). s = ascii ''short'' \<and> reader = [])"

text \<open>\<open>#[should_panic]\<close>\<close>

definition test_read_eof :: bool where
  "test_read_eof \<longleftrightarrow> read_fix (ascii ''content'' @ [0] @ ascii ''garbage'') = Panic"

definition test_read_no_null :: bool where
  "test_read_no_null \<longleftrightarrow> read_fix (ascii '' a string without null terminator'') = Err InvalidData"

definition test_read_invalid_utf8 :: bool where
  "test_read_invalid_utf8 \<longleftrightarrow>
     read_fix (replicate 5 0xff @ [0] @ ascii ''garbage garbage garbage gar'') = Err InvalidData"

definition test_write_long :: bool where
  "test_write_long \<longleftrightarrow>
     write_fix vec_write (ascii ''a thirty-two bytes long str test'') [] =
       (Ok (), ascii ''a thirty-two bytes long str test'' @ [0])"

definition test_write_short :: bool where
  "test_write_short \<longleftrightarrow>
     write_fix vec_write (ascii ''short'') [] = (Ok (), ascii ''short'' @ replicate 28 0)"

text \<open>The nine emoji of the test are four bytes each.\<close>

definition test_write_too_long :: bool where
  "test_write_too_long \<longleftrightarrow>
     write_fix vec_write (concat (replicate 9 [0xf0, 0x9f, 0x98, 0x82])) [] = (Err InvalidData, [])"

lemma string_tests:
  "test_read_long" "test_read_short" "test_read_eof" "test_read_no_null" "test_read_invalid_utf8"
  "test_write_too_long"
  by code_simp+

lemma string_write_tests: "test_write_long" "test_write_short"
  unfolding test_write_long_def test_write_short_def
  by (subst write_fix_vec; code_simp)+

section \<open>All of them\<close>

definition comp_tests :: "'r bit_reader \<Rightarrow> 'w bit_writer \<Rightarrow> bool list" where
  "comp_tests R W =
     [test_read_comp_u16_small R, test_read_comp_u16_large R,
      test_write_comp_u16_small W, test_write_comp_u16_large W,
      test_read_comp_u32_small R, test_read_comp_u32_large R,
      test_write_comp_u32_small W, test_write_comp_u32_large W]"

definition rangelist_tests :: "'r bit_reader \<Rightarrow> 'w bit_writer \<Rightarrow> bool list" where
  "rangelist_tests R W =
     [test_insert, test_underflow, test_overflow, test_multiple_ranges, test_clear,
      test_serialize W, test_deserialize R]"

definition fix_str_tests :: "bool list" where
  "fix_str_tests =
     [test_read_long, test_read_short, test_read_eof, test_read_no_null, test_read_invalid_utf8,
      test_write_long, test_write_short, test_write_too_long]"

lemma codec_tests_pass:
  assumes "codec_laws R rbits W wbits"
  shows "list_all id (comp_tests R W @ rangelist_tests R W @ fix_str_tests)"
  using range_list_tests string_tests string_write_tests
    reader_laws.comp_read_tests [OF codec_reader [OF assms]]
    writer_laws.comp_write_tests [OF codec_writer [OF assms]]
    reader_laws.deserialize_test [OF codec_reader [OF assms]]
    writer_laws.serialize_test [OF codec_writer [OF assms]]
  by (simp add: comp_tests_def rangelist_tests_def fix_str_tests_def)

end
