(* ===== verification/RaknetTests.thy ===== *)
theory RaknetTests
  imports CodecTests Recv Send
begin

text \<open>
  The unit tests of \<open>src/raknet/recv.rs\<close> and \<open>src/raknet/send.rs\<close>, translated as predicates on the
  model: a test is true when it runs to its end with every assertion met.
\<close>

section \<open>The receiving half\<close>

definition unrel_seq :: "u32 \<Rightarrow> raknet_packet" where
  "unrel_seq index =
     \<lparr>message_number = index, rel_data = UnreliableSequencedData index, split_info = None,
      rak_data = [ucast index]\<rparr>"

definition rel_ord :: "u32 \<Rightarrow> raknet_packet" where
  "rel_ord index =
     \<lparr>message_number = index, rel_data = ReliableOrderedData index, split_info = None,
      rak_data = [ucast index]\<rparr>"

text \<open>The part the tests share: process the packets with empty acknowledgements, then check.\<close>

definition receiving :: "receive_part \<Rightarrow> raknet_packet list \<Rightarrow> (rx \<Rightarrow> bool) \<Rightarrow> bool" where
  "receiving recv ps P = unwraps (process_incoming_packets recv ps rl_new False) P"

text \<open>\<open>acks.len() == n\<close> and \<open>packets.len() == n\<close>; \<open>packets[i].data[0] == x\<close> with its bounds checks.\<close>

definition acks_len :: "nat \<Rightarrow> rx \<Rightarrow> bool" where
  "acks_len n s \<longleftrightarrow> rl_len True (rx_acks s) = Ok n"

definition packets_len :: "nat \<Rightarrow> rx \<Rightarrow> bool" where
  "packets_len n s \<longleftrightarrow> length (rx_out s) = n"

definition first_byte :: "nat \<Rightarrow> u8 \<Rightarrow> rx \<Rightarrow> bool" where
  "first_byte i x s \<longleftrightarrow>
     i < length (rx_out s) \<and> data (rx_out s ! i) \<noteq> [] \<and> data (rx_out s ! i) ! 0 = x"

definition test_unrel :: bool where
  "test_unrel = receiving receive_part_default
     [\<lparr>message_number = 0, rel_data = UnreliableData, split_info = None, rak_data = []\<rparr>]
     (\<lambda>s. acks_len 0 s \<and> packets_len 1 s)"

definition test_unrel_seq_duplicate :: bool where
  "test_unrel_seq_duplicate = receiving receive_part_default [unrel_seq 1, unrel_seq 1]
     (\<lambda>s. acks_len 0 s \<and> packets_len 1 s)"

definition test_unrel_seq_too_early :: bool where
  "test_unrel_seq_too_early = receiving receive_part_default [unrel_seq 1] (packets_len 1)"

definition test_unrel_seq_caught_up :: bool where
  "test_unrel_seq_caught_up = receiving receive_part_default [unrel_seq 1, unrel_seq 0] (packets_len 1)"

definition test_unrel_seq_gap_too_large :: bool where
  "test_unrel_seq_gap_too_large = receiving receive_part_default [unrel_seq (- 1)] (packets_len 0)"

definition test_unrel_seq_overflow :: bool where
  "test_unrel_seq_overflow =
     receiving (receive_part_default\<lparr>unrel_seq_index := - 1\<rparr>) [unrel_seq (- 1), unrel_seq 0] (packets_len 2)"

definition test_unrel_seq_overflow_gap :: bool where
  "test_unrel_seq_overflow_gap =
     receiving (receive_part_default\<lparr>unrel_seq_index := (- 1) - 1\<rparr>) [unrel_seq ((- 1) - 1), unrel_seq 0]
       (packets_len 2)"

definition test_rel_ord_duplicate :: bool where
  "test_rel_ord_duplicate = receiving receive_part_default [rel_ord 0, rel_ord 0]
     (\<lambda>s. acks_len 1 s \<and> packets_len 1 s)"

definition test_rel_ord_too_early :: bool where
  "test_rel_ord_too_early = receiving receive_part_default [rel_ord 1] (\<lambda>s. acks_len 1 s \<and> packets_len 0 s)"

definition test_rel_ord_caught_up :: bool where
  "test_rel_ord_caught_up = receiving receive_part_default [rel_ord 1, rel_ord 0]
     (\<lambda>s. acks_len 2 s \<and> packets_len 2 s \<and> first_byte 0 0 s \<and> first_byte 1 1 s)"

definition test_rel_ord_gap :: bool where
  "test_rel_ord_gap = receiving receive_part_default [rel_ord 5, rel_ord 1, rel_ord 0]
     (\<lambda>s. acks_len 3 s \<and> packets_len 2 s \<and> first_byte 0 0 s \<and> first_byte 1 1 s)"

definition test_rel_ord_overflow_duplicate :: bool where
  "test_rel_ord_overflow_duplicate = receiving receive_part_default [rel_ord (- 1)]
     (\<lambda>s. packets_len 0 s \<and> out_of_order_packets (rx_part s) = [])"

definition test_rel_ord_overflow_index :: bool where
  "test_rel_ord_overflow_index =
     receiving (receive_part_default\<lparr>rel_ord_index := - 1\<rparr>) [rel_ord (- 1), rel_ord 0]
       (\<lambda>s. packets_len 2 s \<and> first_byte 0 (- 1) s \<and> first_byte 1 0 s)"

definition test_rel_ord_overflow_index_out_of_order :: bool where
  "test_rel_ord_overflow_index_out_of_order =
     receiving (receive_part_default\<lparr>rel_ord_index := - 1\<rparr>) [rel_ord 0, rel_ord (- 1)]
       (\<lambda>s. packets_len 2 s \<and> first_byte 0 (- 1) s \<and> first_byte 1 0 s)"

definition test_rel_ord_overflow_queue_drain :: bool where
  "test_rel_ord_overflow_queue_drain =
     receiving (receive_part_default\<lparr>rel_ord_index := (- 1) - 1\<rparr>) [rel_ord (- 1), rel_ord ((- 1) - 1)]
       (\<lambda>s. packets_len 2 s \<and> first_byte 0 ((- 1) - 1) s \<and> first_byte 1 (- 1) s)"

definition test_single_split_packet :: bool where
  "test_single_split_packet = receiving receive_part_default
     [\<lparr>message_number = 0, rel_data = ReliableOrderedData 0,
       split_info = Some \<lparr>split_id = 0, split_index = 0, split_count = 2\<rparr>, rak_data = []\<rparr>]
     (\<lambda>s. acks_len 1 s \<and> packets_len 0 s)"

definition test_all_split_packets :: bool where
  "test_all_split_packets = receiving receive_part_default
     [\<lparr>message_number = 0, rel_data = ReliableOrderedData 0,
       split_info = Some \<lparr>split_id = 0, split_index = 1, split_count = 2\<rparr>, rak_data = [3, 4, 5]\<rparr>,
      \<lparr>message_number = 1, rel_data = ReliableOrderedData 0,
       split_info = Some \<lparr>split_id = 0, split_index = 0, split_count = 2\<rparr>, rak_data = [0, 1, 2]\<rparr>]
     (\<lambda>s. acks_len 2 s \<and> packets_len 1 s \<and> data (rx_out s ! 0) = [0, 1, 2, 3, 4, 5])"

definition test_disconnect_close :: bool where
  "test_disconnect_close = receiving receive_part_default
     [\<lparr>message_number = 0, rel_data = ReliableOrderedData 0, split_info = None,
       rak_data = [message_id DisconnectNotification]\<rparr>]
     (\<lambda>s. rx_closed s \<and> packets_len 0 s)"

definition recv_tests :: "bool list" where
  "recv_tests =
     [test_unrel, test_unrel_seq_duplicate, test_unrel_seq_too_early, test_unrel_seq_caught_up,
      test_unrel_seq_gap_too_large, test_unrel_seq_overflow, test_unrel_seq_overflow_gap,
      test_rel_ord_duplicate, test_rel_ord_too_early, test_rel_ord_caught_up, test_rel_ord_gap,
      test_rel_ord_overflow_duplicate, test_rel_ord_overflow_index,
      test_rel_ord_overflow_index_out_of_order, test_rel_ord_overflow_queue_drain,
      test_single_split_packet, test_all_split_packets, test_disconnect_close]"

lemma recv_tests_pass: "list_all id recv_tests"
  by code_simp

section \<open>The sending half\<close>

text \<open>\<open>send()\<close>: the socket is not used by the tests; the operating system resolves the address.\<close>

definition test_send :: send_part where
  "test_send = send_part_new (localhost 0)"

definition test_message_number :: bool where
  "test_message_number =
     (case process_outgoing_packets [mk_packet Unreliable [], mk_packet Unreliable []] test_send of
        (p # q # _, _) \<Rightarrow> message_number p = 0 \<and> message_number q = 1
      | _ \<Rightarrow> False)"

definition test_unrel_seq_index :: bool where
  "test_unrel_seq_index =
     (case process_outgoing_packets
         [mk_packet UnreliableSequenced [], mk_packet UnreliableSequenced []] test_send of
        (p # q # _, _) \<Rightarrow>
          rel_data p = UnreliableSequencedData 0 \<and> rel_data q = UnreliableSequencedData 1
      | _ \<Rightarrow> False)"

definition test_rel_ord_index :: bool where
  "test_rel_ord_index =
     (case process_outgoing_packets
         [mk_packet ReliableOrdered [], mk_packet ReliableOrdered []] test_send of
        (p # q # _, _) \<Rightarrow> rel_data p = ReliableOrderedData 0 \<and> rel_data q = ReliableOrderedData 1
      | _ \<Rightarrow> False)"

definition test_split_packet :: bool where
  "test_split_packet =
     (case process_outgoing_packets
         [mk_packet ReliableOrdered (replicate (MAX_PACKET_SIZE * 3) 0)] test_send of
        (ps, _) \<Rightarrow>
          length ps = 4 \<and>
          list_all (\<lambda>(i, p).
            message_number p = of_nat i \<and> rel_data p = ReliableOrderedData 0 \<and>
            split_info p = Some \<lparr>split_id = 0, split_index = of_nat i, split_count = 4\<rparr>)
          (enumerate 0 ps))"

definition test_send_overflow :: bool where
  "test_send_overflow =
     (let s = \<lparr>sp_address = localhost 0, sp_message_number = - 1, sp_split_packet_index = - 1,
           sp_unrel_seq_index = - 1, sp_rel_ord_index = - 1\<rparr>;
          (m1, s) = next_message_number s; (m2, s) = next_message_number s;
          (i1, s) = next_split_packet_index s; (i2, s) = next_split_packet_index s;
          (u1, s) = next_rel_data UnreliableSequenced s; (u2, s) = next_rel_data UnreliableSequenced s;
          (o1, s) = next_rel_data ReliableOrdered s; (o2, s) = next_rel_data ReliableOrdered s
      in m1 = - 1 \<and> m2 = 0 \<and> i1 = - 1 \<and> i2 = 0 \<and>
         u1 = UnreliableSequencedData (- 1) \<and> u2 = UnreliableSequencedData 0 \<and>
         o1 = ReliableOrderedData (- 1) \<and> o2 = ReliableOrderedData 0)"

definition send_tests :: "bool list" where
  "send_tests =
     [test_message_number, test_unrel_seq_index, test_rel_ord_index, test_split_packet, test_send_overflow]"

lemma small_send_tests: "test_message_number" "test_unrel_seq_index" "test_rel_ord_index" "test_send_overflow"
  by (simp_all add: test_message_number_def test_unrel_seq_index_def test_rel_ord_index_def
      test_send_overflow_def process_outgoing_packet_def next_message_number_def next_rel_data_def
      next_split_packet_index_def test_send_def send_part_new_def)

lemma split_packet_test: "test_split_packet"
proof -
  let ?p = "mk_packet ReliableOrdered (replicate (MAX_PACKET_SIZE * 3) 0)"
  have c: "length (chunks (chunk_size ?p) (data ?p)) = 4"
    by (simp add: length_chunks chunk_size_bounds(1)) (simp add: chunk_size_def)
  have "\<not> fits ?p" by (simp add: fits_def)
  from outgoing_split [OF this _ refl, of test_send "ReliableOrderedData 0"] show ?thesis
    unfolding c by (simp add: test_split_packet_def next_rel_data_def test_send_def send_part_new_def
        upt_conv_Cons enumerate_eq_zip)
qed

lemma send_tests_pass: "list_all id send_tests"
  using small_send_tests split_packet_test by (simp add: send_tests_def)

end
