(* ===== verification/TcpUdpTests.thy ===== *)
theory TcpUdpTests
  imports Shim CodecTests
begin

text \<open>
  The unit tests of \<open>src/tcpudp/mod.rs\<close>, translated as predicates on the model. Under test the stream
  is a \<open>TcpStream\<close> of the standard library on the loopback device: \<open>script_tcp\<close>, on which what the
  server writes can be read at once and in one piece. A test is true when it runs to its end with
  every assertion met. \<open>send_shutdown\<close> is left out: the error it expects of a write after the peer has
  gone depends on the operating system.
\<close>

section \<open>Both ends\<close>

text \<open>The client's connection and the static buffer. The server is the far end of the client's
  sockets: what it writes is still to be read by the client, what it reads the client has sent.\<close>

type_synonym test_state = "u8 list \<times> script_tcp tu_conn"

text \<open>Both setups unwrap \<open>Connection::new\<close> on the address of a listener; on the loopback device the calls
  it makes of the operating system succeed, as in \<open>sample_env\<close>.\<close>

definition test_setup :: "(test_state \<Rightarrow> bool) \<Rightarrow> bool" where
  "test_setup run =
     (case tu_connect sample_env (localhost 21836) 0 of
        Some (Ok c, _) \<Rightarrow> run (replicate 1200 0, c)
      | _ \<Rightarrow> False)"

definition server_write :: "u8 list \<Rightarrow> test_state \<Rightarrow> test_state" where
  "server_write bs s =
     (case s of (BUF, c) \<Rightarrow> (BUF, c\<lparr>tu_tcp := (tu_tcp c)\<lparr>st_reads := st_reads (tu_tcp c) @ [Inr bs]\<rparr>\<rparr>))"

definition server_send_to :: "u8 list \<Rightarrow> test_state \<Rightarrow> test_state" where
  "server_send_to bs s =
     (case s of (BUF, c) \<Rightarrow>
        (BUF, c\<lparr>tu_udp := (tu_udp c)\<lparr>udp_inbox := udp_inbox (tu_udp c) @ [Ok (bs, tu_peer c)]\<rparr>\<rparr>))"

text \<open>\<open>client.receive().unwrap()\<close>, and the test goes on with the packets.\<close>

definition client_receives ::
  "endio \<Rightarrow> test_state \<Rightarrow> (packet list \<Rightarrow> bool) \<Rightarrow> (test_state \<Rightarrow> bool) \<Rightarrow> bool" where
  "client_receives E s P k =
     (case tu_receive E script_tcp s of Some (Ok ps, s) \<Rightarrow> P ps \<and> k s | _ \<Rightarrow> False)"

definition client_sends :: "endio \<Rightarrow> packet list \<Rightarrow> test_state \<Rightarrow> (script_tcp tu_conn \<Rightarrow> bool) \<Rightarrow> bool" where
  "client_sends E ps s P =
     (case tu_send E script_tcp ps (snd s) of (Ok _, c) \<Rightarrow> P c | _ \<Rightarrow> False)"

text \<open>The first packet's reliability and data.\<close>

definition first_packet :: "reliability \<Rightarrow> u8 list \<Rightarrow> packet list \<Rightarrow> bool" where
  "first_packet rel bs ps = (case ps of p # _ \<Rightarrow> reliability p = rel \<and> data p = bs | [] \<Rightarrow> False)"

section \<open>Tests of the stream\<close>

definition test_recv_whole :: "endio \<Rightarrow> bool" where
  "test_recv_whole E =
     test_setup (\<lambda>s0.
     (let s = server_write (en_u32 E 4) s0;
          s = server_write (en_u16 E 1) s;
          s = server_write (en_u16 E 2) s
      in client_receives E s (first_packet ReliableOrdered [1, 0, 2, 0]) (\<lambda>_. True)))"

definition test_recv_partial_len_before :: "endio \<Rightarrow> bool" where
  "test_recv_partial_len_before E =
     test_setup (\<lambda>s0.
     client_receives E (server_write (en_u16 E 1) s0) (\<lambda>ps. length ps = 0)
     (\<lambda>s. client_receives E (server_write (en_u16 E 0) s) (\<lambda>ps. length ps = 0)
     (\<lambda>s. client_receives E (server_write (en_u8 E 0) s)
       (\<lambda>ps. length ps = 1 \<and> length (data (ps ! 0)) = 1) (\<lambda>_. True))))"

definition test_recv_partial_len_after :: "endio \<Rightarrow> bool" where
  "test_recv_partial_len_after E =
     test_setup (\<lambda>s0.
     (let s = server_write (en_u32 E 1) s0;
          s = server_write (en_u8 E 0) s;
          s = server_write (en_u16 E 1) s
      in client_receives E s (\<lambda>ps. length ps = 1)
         (\<lambda>s. client_receives E (server_write (en_u16 E 0) s) (\<lambda>ps. length ps = 0)
         (\<lambda>s. client_receives E (server_write (en_u8 E 0) s)
           (\<lambda>ps. length ps = 1 \<and> length (data (ps ! 0)) = 1) (\<lambda>_. True)))))"

definition test_recv_partial_data :: "endio \<Rightarrow> bool" where
  "test_recv_partial_data E =
     test_setup (\<lambda>s0.
     (let s = server_write (en_u32 E 4) s0;
          s = server_write (en_u16 E 1) s
      in client_receives E s (\<lambda>ps. length ps = 0)
         (\<lambda>s. client_receives E (server_write (en_u16 E 2) s)
           (\<lambda>ps. length ps = 1 \<and> data (ps ! 0) = [1, 0, 2, 0]) (\<lambda>_. True))))"

text \<open>The server reads a \<open>u32\<close> and a \<open>u8\<close>.\<close>

definition test_send_ok :: "endio \<Rightarrow> bool" where
  "test_send_ok E =
     test_setup (\<lambda>s0.
     client_sends E [mk_packet ReliableOrdered [42]] s0 (\<lambda>c.
       unwraps (en_read_u32 E (st_sent (tu_tcp c))) (\<lambda>(n, rest).
       n = 1 \<and> unwraps (en_read_u8 E rest) (\<lambda>(b, _). b = 42))))"

section \<open>Tests of the datagrams\<close>

definition test_recv_unrel :: "endio \<Rightarrow> bool" where
  "test_recv_unrel E =
     test_setup (\<lambda>s0.
     client_receives E (server_send_to (0 # ascii ''hello'') s0)
       (first_packet Unreliable (ascii ''hello'')) (\<lambda>_. True))"

definition test_recv_unrel_seq :: "endio \<Rightarrow> bool" where
  "test_recv_unrel_seq E =
     test_setup (\<lambda>s0.
     client_receives E (server_send_to ([1, 0, 0, 0, 0] @ ascii ''hello'') s0)
       (first_packet UnreliableSequenced (ascii ''hello'')) (\<lambda>_. True))"

text \<open>\<open>client.seq_num_recv = n\<close>\<close>

definition with_seq_num_recv :: "u32 \<Rightarrow> test_state \<Rightarrow> test_state" where
  "with_seq_num_recv n s = (case s of (BUF, c) \<Rightarrow> (BUF, c\<lparr>seq_num_recv := n\<rparr>))"

definition test_recv_unrel_seq_out_of_order :: "endio \<Rightarrow> bool" where
  "test_recv_unrel_seq_out_of_order E =
     test_setup (\<lambda>s0.
     client_receives E (server_send_to ([1, 0, 0, 0, 0] @ ascii ''hello'') (with_seq_num_recv 1 s0))
       (\<lambda>ps. length ps = 0) (\<lambda>_. True))"

definition test_recv_unrel_seq_overflow :: "endio \<Rightarrow> bool" where
  "test_recv_unrel_seq_overflow E =
     test_setup (\<lambda>s0.
     client_receives E
       (server_send_to ([1, 0xff, 0xff, 0xff, 0xff] @ ascii ''hello'') (with_seq_num_recv (- 1) s0))
       (first_packet UnreliableSequenced (ascii ''hello'')) (\<lambda>_. True))"

definition test_recv_unrel_seq_wrap :: "endio \<Rightarrow> bool" where
  "test_recv_unrel_seq_wrap E =
     test_setup (\<lambda>s0.
     client_receives E (server_send_to ([1, 0, 0, 0, 0] @ ascii ''hello'') (with_seq_num_recv (- 1) s0))
       (first_packet UnreliableSequenced (ascii ''hello'')) (\<lambda>_. True))"

text \<open>\<open>server.recv_from\<close> gives the first datagram sent.\<close>

definition test_send_unrel :: "endio \<Rightarrow> bool" where
  "test_send_unrel E =
     test_setup (\<lambda>s0.
     client_sends E [mk_packet Unreliable (ascii ''hello'')] s0
       (\<lambda>c. map snd (udp_sent (tu_udp c)) = [0 # ascii ''hello'']))"

definition test_send_unrel_seq :: "endio \<Rightarrow> bool" where
  "test_send_unrel_seq E =
     test_setup (\<lambda>s0.
     client_sends E [mk_packet UnreliableSequenced (ascii ''hello'')]
       (case s0 of (BUF, c) \<Rightarrow> (BUF, c\<lparr>seq_num_send := - 1\<rparr>))
       (\<lambda>c. map snd (udp_sent (tu_udp c)) = [[1, 0xff, 0xff, 0xff, 0xff] @ ascii ''hello'']))"

definition tcpudp_tests :: "endio \<Rightarrow> bool list" where
  "tcpudp_tests E =
     [test_recv_whole E, test_recv_partial_len_before E, test_recv_partial_len_after E,
      test_recv_partial_data E, test_send_ok E, test_recv_unrel E, test_recv_unrel_seq E,
      test_recv_unrel_seq_out_of_order E, test_recv_unrel_seq_overflow E, test_recv_unrel_seq_wrap E,
      test_send_unrel E, test_send_unrel_seq E]"

section \<open>They pass\<close>

text \<open>The laws determine the integer encodings.\<close>

lemma endio_laws_unique: "endio_laws E \<Longrightarrow> E = le_endio"
  by (cases E) (auto simp: endio_laws_def le_endio_def fun_eq_iff)

named_theorems test_eval "equations that run a test"

lemma ascii_hello [test_eval]: "ascii ''hello'' = [104, 101, 108, 108, 111]"
  by code_simp

lemma test_setup_eq [test_eval]:
  "test_setup run = run (replicate 1200 0, tu_new \<lparr>st_reads = [], st_writes = [], st_sent = []\<rparr>
     (udp_idle\<lparr>udp_local := localhost 3000\<rparr>) (localhost 21836))"
  by (simp add: test_setup_def tu_connect_def sample_env_def) (simp add: localhost_def)

lemmas [test_eval] = server_write_def server_send_to_def client_receives_def client_sends_def
  first_packet_def udp_idle_def with_seq_num_recv_def tu_new_def tu_receive_def
  tcp_step_def read_part_def script_tcp_def receive_tcp.simps receive_udp_end receive_udp_datagram
  udp_packet_def slice_def le_endio_def take_bytes_read_def u32_le_def u16_le_def

lemma stream_tests:
  "test_recv_whole le_endio" "test_recv_partial_len_before le_endio"
  "test_recv_partial_len_after le_endio" "test_recv_partial_data le_endio"
  unfolding test_recv_whole_def test_recv_partial_len_before_def test_recv_partial_len_after_def
    test_recv_partial_data_def
  by (simp_all add: test_eval)

lemma datagram_tests:
  "test_recv_unrel le_endio" "test_recv_unrel_seq le_endio" "test_recv_unrel_seq_out_of_order le_endio"
  "test_recv_unrel_seq_overflow le_endio" "test_recv_unrel_seq_wrap le_endio"
  unfolding test_recv_unrel_def test_recv_unrel_seq_def test_recv_unrel_seq_out_of_order_def
    test_recv_unrel_seq_overflow_def test_recv_unrel_seq_wrap_def
  by (simp_all add: test_eval)

lemma max_bytes [test_eval]:
  "ucast (- 1 :: u32) = (255 :: u8)" "ucast (mask 24 :: u32) = (255 :: u8)"
  "ucast (mask 16 :: u32) = (255 :: u8)" "ucast (mask 8 :: u32) = (255 :: u8)"
  by code_simp+

lemma send_tests: "test_send_ok le_endio" "test_send_unrel le_endio" "test_send_unrel_seq le_endio"
  unfolding test_send_ok_def test_send_unrel_def test_send_unrel_seq_def
  by (simp_all add: test_eval tu_send_packet_def tu_tcp_write_all_def tu_tcp_write_once_def
      tu_udp_send_def udp_send_to_def write_all.simps Let_def)

lemma tcpudp_tests_pass:
  assumes "endio_laws E"
  shows "list_all id (tcpudp_tests E)"
  using stream_tests datagram_tests send_tests
  by (simp add: tcpudp_tests_def endio_laws_unique [OF assms])

end
