(* ===== verification/Spec2Isabelle.thy ===== *)
theory Spec2Isabelle
  imports Tls Relay RaknetTests TcpUdpTests
begin

text \<open>
  Verification of \<open>raknet_shim\<close>, a proxy that translates RakNet 3.25 traffic of a game client to a
  protocol on TCP and UDP.

  \<^bold>\<open>The program.\<close> \<open>src/main.rs\<close> runs shims in an event loop. A shim owns one UDP socket on which
  RakNet clients arrive and keeps a bridge per client address. A bridge (\<open>src/bridge.rs\<close>) joins a
  RakNet connection (\<open>src/raknet/\<close>) and a TcpUdp connection (\<open>src/tcpudp/\<close>) to the server: packets
  go from one to the other, and login and redirect packets from the server have their address
  replaced by that of a local shim, which is started if needed by a command to the main loop.

  \<^bold>\<open>Theories and code.\<close>
  \<^item> \<open>Prelude\<close>: machine integers at their widths, the outcome type \<open>res\<close> (\<open>Ok\<close>, \<open>Err\<close> and \<open>Panic\<close>,
    which is what \<open>assert!\<close>, \<open>unwrap\<close>, an index out of range or an overflow check does), bits and
    little-endian bytes.
  \<^item> \<open>BitIO\<close>: the bit reader and writer of the crate \<open>endio_bit\<close> as records of operations, their laws
    as the locales \<open>reader_laws\<close>, \<open>writer_laws\<close> and \<open>codec_laws\<close>, and the instance on bit lists.
  \<^item> \<open>Net\<close>, \<open>StdIO\<close>: what is used of \<open>std::net\<close> and \<open>std::io\<close>; the integer encodings of the crate
    \<open>endio\<close> as a record with the locale \<open>endio_laws\<close>.
  \<^item> \<open>Comp\<close> (\<open>raknet/comp.rs\<close>), \<open>RangeList\<close> (\<open>raknet/rangelist.rs\<close>), \<open>Packet\<close> (\<open>raknet/packet.rs\<close>):
    compressed integers, the list of acknowledgements, packets and their wire format.
  \<^item> \<open>Recv\<close> (\<open>raknet/recv.rs\<close>), \<open>Send\<close> (\<open>raknet/send.rs\<close>), \<open>Connection\<close> (\<open>raknet/connection.rs\<close>): the two
    halves of a RakNet connection and their composition.
  \<^item> \<open>History\<close>, \<open>Link\<close>: two such connections over a network. \<open>History\<close> relates a receiving half to all that
    a sending half was ever given; \<open>Link\<close> is the transition system of two peers whose datagrams are
    lost, repeated and reordered. They hold no code of their own, only the composition of \<open>Connection\<close>.
  \<^item> \<open>FixStr\<close> (\<open>string.rs\<close>), \<open>Log\<close> (\<open>log.rs\<close>), \<open>TcpUdp\<close> (\<open>tcpudp/mod.rs\<close>): fixed strings, packet names and
    the TcpUdp connection, over a TCP stream with the laws of the locale \<open>tcp_laws\<close>.
  \<^item> \<open>Abstract_Packet\<close>, \<open>Bridge\<close>, \<open>BridgeInv\<close> (\<open>bridge.rs\<close>): the packets both sides exchange, the bridge,
    and what its operations keep.
  \<^item> \<open>Relay\<close>: a bridge whose client is behind such a network, with the server sending at the same time.
  \<^item> \<open>Shim\<close>, \<open>Turn\<close>, \<open>Program\<close> (\<open>main.rs\<close>): a shim with its bridges, what one step of it does for one
    client, and the main loop as a transition system.
  \<^item> \<open>Tls\<close> (\<open>tcpudp/tls.rs\<close>): connecting over TLS with its handshake loops, and the environment in which
    the program runs over that stream.
  \<^item> \<open>CodecTests\<close>, \<open>RaknetTests\<close>, \<open>TcpUdpTests\<close>: the unit tests of the source files except \<open>send_shutdown\<close>,
    translated as executable predicates. They pass (\<open>codec_tests_pass\<close>, \<open>recv_tests_pass\<close>,
    \<open>send_tests_pass\<close>, \<open>tcpudp_tests_pass\<close>), which ties the definitions to what the authors expect.

  A struct is a record with the fields of the source, a method is a function from the state it
  updates to its result and the new state, and a loop is a recursive function. Sockets are records
  of what was sent, of failures to come and of what will arrive. A \<open>static mut\<close> receive buffer is
  part of the state. Hash maps are association lists; only \<open>retain\<close> in \<open>Shim\<close> depends on their order.

  \<^bold>\<open>What is shown.\<close> The top results compose the components: what a client sends through its RakNet
  connection arrives on the server side of the bridge, and the other way round
  (\<open>client_packets_relayed\<close>, \<open>server_packets_relayed\<close>), also when the datagrams of many clients are mixed
  on the shared socket (\<open>clients_relayed_independently\<close>); they rest on the round trip between two
  RakNet connections (\<open>sent_packets_are_received\<close>) and on what is sent over TCP and UDP
  (\<open>tcpudp_send_wire\<close>). What holds of two connections if the network misbehaves is stated over \<open>linked\<close>:
  ordered packets are returned as a prefix of those sent (\<open>link_delivers_in_order\<close>), all of them once
  every datagram has arrived (\<open>link_completes\<close>), and no datagram of a peer makes the other panic
  (\<open>link_never_panics\<close>); with a bridge in the place of one peer the same holds of what the server gets
  (\<open>bridge_relays_in_order\<close>). The connection never sends a datagram again, so one that is lost for good
  holds back all later ordered packets. In \<open>Recv\<close>, ordered delivery, sequencing, reassembly and acknowledgement are
  proved against descriptions that do not mention the queues, and \<open>tcp_messages_framed\<close> compares
  incremental reading with a reference that splits a byte sequence into frames. \<open>Program\<close> has the
  program as a transition system (\<open>reachable\<close>) with two invariants: \<open>program_ok\<close> (the shapes of
  buffers and bridges) and \<open>relays_ok\<close> (every entry of the map of relays is a running shim that listens
  on the loopback device). \<open>redirects_reach_running_shim\<close> follows the packets of one server through a
  turn: those read are sent on to the client with every redirect pointing to a shim that runs after
  the turn; it holds for the bridges the turn keeps, since the commands of a bridge that fails while
  sending are lost. A turn of the main loop ends if connecting does, which over
  TLS is a question of the handshake that \<open>Tls\<close> answers both ways (\<open>tls_program_turns_end\<close>,
  \<open>stalled_handshake_hangs\<close>). The error properties say which inputs make the program panic, and where
  the code does not do what it means to: datagrams that acknowledge one packet and nothing else,
  values between $2^8$ and $2^{24}$ in a compressed \<open>u32\<close>, adjacent
  ranges of acknowledgements, repeated parts of split packets, datagrams above the maximum size,
  malformed split information and short redirects.

  \<^bold>\<open>Bounds.\<close> Ordered and sequenced delivery are stated for windows of $2^{31} - 1$ indices, the half
  range the code compares with; the theorems on a link allow as many packets of each kind and $2^{16}$ split
  packets, so that no index is used twice; the round trip of a connection for packets of at most $255 \cdot 1178$
  bytes, that is at most 255 parts, below the first count that the compressed integers do not
  preserve. Loops that read through a parameter (\<open>parse_loop\<close>, \<open>receive_tcp\<close>,
  \<open>shim_raknet_receive\<close>, \<open>complete_loop\<close>, \<open>handshake_loop\<close>) are partial functions whose value \<open>None\<close> is not returning; under the laws of the parameters they
  are shown to return.

  \<^bold>\<open>What is not modelled.\<close> The TLS session itself is the crate \<open>rustls\<close>, a parameter. Name resolution,
  binding and connecting are parameters of the environment \<open>env\<close>, with the laws of the locale \<open>os_laws\<close>
  for local addresses. The debug output, sleeping and running out of memory are left out, and so is
  the unit test \<open>send_shutdown\<close>, whose outcome depends on the operating system. The destructors are
  modelled (\<open>connection_drop\<close>, \<open>bridge_drop\<close>, \<open>shim_drop\<close>) and applied where a running program drops a
  value: a bridge that has failed, a connection that is given up and a new shim whose address
  cannot be read. (New shims lost with the commands of a failed bridge have no bridges and an address
  that was read before, so that dropping them has no effect on the model.) The end of the program, at which \<open>main\<close> drops all its shims, is not.
\<close>

end
